(* ===== verification/Deobf_Prelude.thy ===== *)
theory Deobf_Prelude
  imports Main "HOL-Library.Word" "HOL-Library.AList" "HOL-Library.Monad_Syntax"
    "HOL-Library.Char_ord" "HOL-Library.List_Lexorder"
begin

unbundle bit_operations_syntax

section \<open>Shared vocabulary of the development\<close>

text \<open>
  The widths of the C++ integers, the reading of \<^verbatim>\<open>std::unordered_map\<close> as association
  lists, little-endian byte lists (what \<^verbatim>\<open>std::memcpy\<close> between an integer and a byte
  buffer does on the x86-64 hosts the library is built for), and number printing
  (\<^verbatim>\<open>std::to_string\<close>, \<^verbatim>\<open>std::hex\<close>), with the lemmas the components share.

  Throughout the development a result type \<open>'a option\<close> of a model of a C++ function that
  cannot fail in C++ terms reads as: \<open>None\<close> is an execution with no defined result (a loop
  that never ends, or undefined behaviour such as a shift by the full width or a
  null dereference), \<open>Some\<close> is the value returned.
\<close>

type_synonym u8 = "8 word"
type_synonym u16 = "16 word"
type_synonym u32 = "32 word"
type_synonym u64 = "64 word"

named_theorems defined_intros \<open>facts that a model function has a defined result\<close>
named_theorems frame_simps \<open>fields that an operation leaves unchanged\<close>

subsection \<open>Option sequencing\<close>

lemma bind_SomeE:
  assumes "Option.bind m k = Some r"
  obtains x where "m = Some x" "k x = Some r"
  using assms by (cases m) auto

lemma bind_definedI: "m = Some x \<Longrightarrow> k x = Some r \<Longrightarrow> Option.bind m k = Some r"
  by simp

subsection \<open>Association lists as unordered maps\<close>

text \<open>\<open>emplace\<close> keeps an entry that is there; \<open>operator[]\<close> assignment is \<open>AList.update\<close>.\<close>

definition emplace :: "'k \<Rightarrow> 'v \<Rightarrow> ('k \<times> 'v) list \<Rightarrow> ('k \<times> 'v) list" where
  "emplace k v m = (case map_of m k of None \<Rightarrow> AList.update k v m | Some _ \<Rightarrow> m)"

lemma map_of_emplace:
  "map_of (emplace k v m) k' =
     (if k' = k \<and> map_of m k = None then Some v else map_of m k')"
  by (auto simp: emplace_def update_conv' split: option.splits)

lemma map_of_update: "map_of (AList.update k v m) = (map_of m)(k \<mapsto> v)"
  by (rule update_conv')

subsection \<open>Little-endian bytes\<close>

definition le_byte :: "'a::len word \<Rightarrow> nat \<Rightarrow> u8" where
  "le_byte w i = ucast (drop_bit (8 * i) w)"

definition le_bytes :: "nat \<Rightarrow> 'a::len word \<Rightarrow> u8 list" where
  "le_bytes n w = map (le_byte w) [0..<n]"

primrec of_le_bytes :: "u8 list \<Rightarrow> 'a::len word" where
  "of_le_bytes [] = 0"
| "of_le_bytes (b # bs) = ucast b OR push_bit 8 (of_le_bytes bs)"

lemma length_le_bytes [simp]: "length (le_bytes n w) = n"
  by (simp add: le_bytes_def)

lemma nth_le_bytes [simp]: "i < n \<Longrightarrow> le_bytes n w ! i = le_byte w i"
  by (simp add: le_bytes_def)

lemma bit_le_byte: "bit (le_byte w i) k \<longleftrightarrow> k < 8 \<and> bit w (8 * i + k)"
  by (auto simp: le_byte_def bit_simps dest: bit_imp_le_length)

lemma bit_of_le_bytes:
  "bit (of_le_bytes bs :: 'a::len word) k \<longleftrightarrow>
     k < LENGTH('a) \<and> k div 8 < length bs \<and> bit (bs ! (k div 8)) (k mod 8)"
proof (induction bs arbitrary: k)
  case Nil
  then show ?case by simp
next
  case (Cons b bs)
  show ?case
  proof (cases "k < 8")
    case True
    then show ?thesis by (auto simp: bit_simps)
  next
    case False
    then have "k div 8 = Suc ((k - 8) div 8)" "k mod 8 = (k - 8) mod 8"
      by (simp_all add: le_div_geq le_mod_geq)
    moreover have "\<not> bit b k"
      using False by (auto dest: bit_imp_le_length)
    ultimately show ?thesis
      using False Cons.IH [of "k - 8"] by (auto simp: bit_simps)
  qed
qed

lemma of_le_bytes_le_bytes:
  assumes "LENGTH('a) \<le> 8 * n"
  shows "of_le_bytes (le_bytes n w) = (w :: 'a::len word)"
proof (rule bit_word_eqI)
  fix k assume k: "k < LENGTH('a)"
  with assms have "k div 8 < n" by auto
  with k show "bit (of_le_bytes (le_bytes n w) :: 'a word) k \<longleftrightarrow> bit w k"
    by (simp add: bit_of_le_bytes bit_le_byte)
qed

lemma le_bytes_of_le_bytes:
  assumes "8 * length bs \<le> LENGTH('a)"
  shows "le_bytes (length bs) (of_le_bytes bs :: 'a::len word) = bs"
proof (rule nth_equalityI)
  fix i assume "i < length (le_bytes (length bs) (of_le_bytes bs :: 'a word))"
  then have i: "i < length bs" by simp
  have "le_byte (of_le_bytes bs :: 'a word) i = bs ! i"
  proof (rule bit_word_eqI)
    fix k assume k: "k < LENGTH(8)"
    with i have "8 * i + k < 8 * length bs" by simp
    with assms have "8 * i + k < LENGTH('a)" by linarith
    with i k show "bit (le_byte (of_le_bytes bs :: 'a word) i) k \<longleftrightarrow> bit (bs ! i) k"
      by (simp add: bit_le_byte bit_of_le_bytes)
  qed
  with i show "le_bytes (length bs) (of_le_bytes bs :: 'a word) ! i = bs ! i" by simp
qed simp

subsection \<open>Printing and reading numbers\<close>

definition digit_char :: "nat \<Rightarrow> char" where
  "digit_char d = ''0123456789abcdef'' ! d"

definition digit_value :: "char \<Rightarrow> nat" where
  "digit_value c = (if of_char c < (97::nat) then of_char c - 48 else of_char c - 87)"

function show_base :: "nat \<Rightarrow> nat \<Rightarrow> string" where
  "show_base b n =
     (if b < 2 \<or> n < b then [digit_char n] else show_base b (n div b) @ [digit_char (n mod b)])"
  by pat_completeness auto
termination
  by (relation "measure snd") auto

declare show_base.simps [simp del]

abbreviation to_string :: "nat \<Rightarrow> string" where "to_string \<equiv> show_base 10"
abbreviation to_hex :: "nat \<Rightarrow> string" where "to_hex \<equiv> show_base 16"

definition read_base :: "nat \<Rightarrow> string \<Rightarrow> nat" where
  "read_base b s = foldl (\<lambda>a c. a * b + digit_value c) 0 s"

lemma digit_value_char: "d < 16 \<Longrightarrow> digit_value (digit_char d) = d"
proof -
  assume "d < 16"
  then have "d \<in> set [0..<16]" by simp
  moreover have "\<forall>d \<in> set [0..<16]. digit_value (digit_char d) = d"
    by code_simp
  ultimately show ?thesis by blast
qed

lemma read_show_base:
  assumes "2 \<le> b" "b \<le> 16"
  shows "read_base b (show_base b n) = n"
  using assms
proof (induction b n rule: show_base.induct)
  case (1 b n)
  show ?case
  proof (cases "n < b")
    case True
    with "1.prems" show ?thesis
      by (subst show_base.simps) (simp add: read_base_def digit_value_char)
  next
    case False
    with "1.prems" have "read_base b (show_base b (n div b)) = n div b"
      by (intro "1.IH") auto
    moreover have "n mod b < b" using "1.prems" by (intro mod_less_divisor) simp
    with "1.prems" have "n mod b < 16" by linarith
    ultimately show ?thesis
      using False "1.prems"
      by (subst show_base.simps) (simp add: read_base_def digit_value_char)
  qed
qed

lemma show_base_inject:
  assumes "2 \<le> b" "b \<le> 16"
  shows "show_base b m = show_base b n \<longleftrightarrow> m = n"
proof
  assume "show_base b m = show_base b n"
  then have "read_base b (show_base b m) = read_base b (show_base b n)" by (rule arg_cong)
  then show "m = n" by (simp only: read_show_base [OF assms])
qed simp

lemma show_base_nonempty [simp]: "show_base b n \<noteq> []"
  by (subst show_base.simps) simp

lemmas to_string_inject = show_base_inject [of 10, simplified]
lemmas to_hex_inject = show_base_inject [of 16, simplified]

end
