(* ===== verification/Deobf_IR.thy ===== *)
theory Deobf_IR
  imports Deobf_Prelude
begin

section \<open>The SSA IR (include/deobf/ir.h, src/ir/value.cpp, src/ir/function.cpp)\<close>

text \<open>
  Values, opcodes, instructions and the linear function the lifter emits into. The
  annotations (a \<^verbatim>\<open>std::unordered_map\<close> from strings to strings) are an association
  list: the order of its entries has no meaning, except that the printing functions list
  them in it where the C++ order is unspecified.
\<close>

datatype Value =
    Const u64 u8
  | SymReg string
  | SymMem u32 u8
  | InstrRef u32

text \<open>The default width of the C++ constructors is 64 bits.\<close>

abbreviation Const64 :: "u64 \<Rightarrow> Value" where "Const64 v \<equiv> Const v 64"

definition is_const :: "Value \<Rightarrow> bool" where
  "is_const v = (case v of Const _ _ \<Rightarrow> True | _ \<Rightarrow> False)"

definition is_instrref :: "Value \<Rightarrow> bool" where
  "is_instrref v = (case v of InstrRef _ \<Rightarrow> True | _ \<Rightarrow> False)"

definition get_const :: "Value \<Rightarrow> (u64 \<times> u8) option" where
  "get_const v = (case v of Const c b \<Rightarrow> Some (c, b) | _ \<Rightarrow> None)"

definition get_instrref :: "Value \<Rightarrow> u32 option" where
  "get_instrref v = (case v of InstrRef i \<Rightarrow> Some i | _ \<Rightarrow> None)"

text \<open>\<^verbatim>\<open>std::get_if<SymReg>\<close>, which the code calls directly.\<close>

definition get_symreg :: "Value \<Rightarrow> string option" where
  "get_symreg v = (case v of SymReg n \<Rightarrow> Some n | _ \<Rightarrow> None)"

lemma is_const_simps [simp]:
  "is_const (Const c b)" "\<not> is_const (SymReg n)" "\<not> is_const (SymMem r b)" "\<not> is_const (InstrRef i)"
  by (simp_all add: is_const_def)

lemma is_instrref_simps [simp]:
  "\<not> is_instrref (Const c b)" "\<not> is_instrref (SymReg n)" "\<not> is_instrref (SymMem r b)" "is_instrref (InstrRef i)"
  by (simp_all add: is_instrref_def)

lemma get_const_simps [simp]:
  "get_const (Const c b) = Some (c, b)" "get_const (SymReg n) = None"
  "get_const (SymMem r b) = None" "get_const (InstrRef i) = None"
  by (simp_all add: get_const_def)

lemma get_instrref_simps [simp]:
  "get_instrref (Const c b) = None" "get_instrref (SymReg n) = None"
  "get_instrref (SymMem r b) = None" "get_instrref (InstrRef i) = Some i"
  by (simp_all add: get_instrref_def)

lemma get_symreg_simps [simp]:
  "get_symreg (Const c b) = None" "get_symreg (SymReg n) = Some n"
  "get_symreg (SymMem r b) = None" "get_symreg (InstrRef i) = None"
  by (simp_all add: get_symreg_def)

lemma get_const_eq_Some [simp]: "get_const v = Some (c, b) \<longleftrightarrow> v = Const c b"
  by (cases v) auto

lemma get_instrref_eq_Some [simp]: "get_instrref v = Some i \<longleftrightarrow> v = InstrRef i"
  by (cases v) auto

lemma get_symreg_eq_Some [simp]: "get_symreg v = Some n \<longleftrightarrow> v = SymReg n"
  by (cases v) auto

lemma is_const_iff: "is_const v \<longleftrightarrow> (\<exists>c b. v = Const c b)"
  by (cases v) auto

lemma is_instrref_iff: "is_instrref v \<longleftrightarrow> (\<exists>i. v = InstrRef i)"
  by (cases v) auto

definition value_to_string :: "Value \<Rightarrow> string" where
  "value_to_string v = (case v of
     Const c _ \<Rightarrow> ''#0x'' @ to_hex (unat c)
   | SymReg n \<Rightarrow> ''%'' @ n
   | SymMem r b \<Rightarrow> ''mem[%v'' @ to_string (unat r) @ '']:'' @ to_string (unat b)
   | InstrRef i \<Rightarrow> ''%v'' @ to_string (unat i))"

subsection \<open>Opcodes\<close>

datatype Op =
    Op_CONST | Op_CONST_PTR
  | Op_ADD | Op_SUB | Op_MUL | Op_XOR | Op_AND | Op_OR | Op_SHL | Op_SHR | Op_SAR | Op_ROL | Op_ROR
  | Op_NOT | Op_NEG | Op_BSWAP | Op_ZEXT | Op_SEXT | Op_TRUNC
  | Op_LOAD | Op_STORE
  | Op_CALL | Op_RET | Op_JMP | Op_CJMP
  | Op_PASSTHROUGH | Op_NOP
  | Op_SELECT

definition op_name :: "Op \<Rightarrow> string" where
  "op_name x = (case x of
     Op_CONST \<Rightarrow> ''CONST''
   | Op_CONST_PTR \<Rightarrow> ''CONST_PTR''
   | Op_ADD \<Rightarrow> ''ADD''
   | Op_SUB \<Rightarrow> ''SUB''
   | Op_MUL \<Rightarrow> ''MUL''
   | Op_XOR \<Rightarrow> ''XOR''
   | Op_AND \<Rightarrow> ''AND''
   | Op_OR \<Rightarrow> ''OR''
   | Op_SHL \<Rightarrow> ''SHL''
   | Op_SHR \<Rightarrow> ''SHR''
   | Op_SAR \<Rightarrow> ''SAR''
   | Op_ROL \<Rightarrow> ''ROL''
   | Op_ROR \<Rightarrow> ''ROR''
   | Op_NOT \<Rightarrow> ''NOT''
   | Op_NEG \<Rightarrow> ''NEG''
   | Op_BSWAP \<Rightarrow> ''BSWAP''
   | Op_ZEXT \<Rightarrow> ''ZEXT''
   | Op_SEXT \<Rightarrow> ''SEXT''
   | Op_TRUNC \<Rightarrow> ''TRUNC''
   | Op_LOAD \<Rightarrow> ''LOAD''
   | Op_STORE \<Rightarrow> ''STORE''
   | Op_CALL \<Rightarrow> ''CALL''
   | Op_RET \<Rightarrow> ''RET''
   | Op_JMP \<Rightarrow> ''JMP''
   | Op_CJMP \<Rightarrow> ''CJMP''
   | Op_PASSTHROUGH \<Rightarrow> ''PASSTHROUGH''
   | Op_NOP \<Rightarrow> ''NOP''
   | Op_SELECT \<Rightarrow> ''SELECT'')"

fun op_is_side_effectful :: "Op \<Rightarrow> bool" where
  "op_is_side_effectful Op_STORE = True"
| "op_is_side_effectful Op_CALL = True"
| "op_is_side_effectful Op_RET = True"
| "op_is_side_effectful Op_JMP = True"
| "op_is_side_effectful Op_CJMP = True"
| "op_is_side_effectful _ = False"

fun op_is_foldable_binary :: "Op \<Rightarrow> bool" where
  "op_is_foldable_binary Op_ADD = True"
| "op_is_foldable_binary Op_SUB = True"
| "op_is_foldable_binary Op_MUL = True"
| "op_is_foldable_binary Op_XOR = True"
| "op_is_foldable_binary Op_AND = True"
| "op_is_foldable_binary Op_OR = True"
| "op_is_foldable_binary Op_SHL = True"
| "op_is_foldable_binary Op_SHR = True"
| "op_is_foldable_binary Op_SAR = True"
| "op_is_foldable_binary Op_ROL = True"
| "op_is_foldable_binary Op_ROR = True"
| "op_is_foldable_binary _ = False"

fun op_is_foldable_unary :: "Op \<Rightarrow> bool" where
  "op_is_foldable_unary Op_NOT = True"
| "op_is_foldable_unary Op_NEG = True"
| "op_is_foldable_unary Op_BSWAP = True"
| "op_is_foldable_unary _ = False"

subsection \<open>Instructions and functions\<close>

record Instruction =
  op :: Op
  operands :: "Value list"
  result_id :: u32
  annotations :: "(string \<times> string) list"

abbreviation instr0 :: "Op \<Rightarrow> Value list \<Rightarrow> u32 \<Rightarrow> Instruction" where
  "instr0 x vs r \<equiv> \<lparr>op = x, operands = vs, result_id = r, annotations = []\<rparr>"

definition ref :: "Instruction \<Rightarrow> Value" where
  "ref i = InstrRef (result_id i)"

definition has_ann :: "Instruction \<Rightarrow> string \<Rightarrow> string \<Rightarrow> bool" where
  "has_ann i key val \<longleftrightarrow> map_of (annotations i) key = Some val"

definition set_ann :: "string \<Rightarrow> string \<Rightarrow> Instruction \<Rightarrow> Instruction" where
  "set_ann k v i = i\<lparr>annotations := AList.update k v (annotations i)\<rparr>"

definition emplace_ann :: "string \<Rightarrow> string \<Rightarrow> Instruction \<Rightarrow> Instruction" where
  "emplace_ann k v i = i\<lparr>annotations := emplace k v (annotations i)\<rparr>"

lemma ann_frame [simp]:
  "op (set_ann k v i) = op i" "operands (set_ann k v i) = operands i" "result_id (set_ann k v i) = result_id i"
  "op (emplace_ann k v i) = op i" "operands (emplace_ann k v i) = operands i"
  "result_id (emplace_ann k v i) = result_id i"
  by (simp_all add: set_ann_def emplace_ann_def)

fun intersperse :: "string \<Rightarrow> string list \<Rightarrow> string" where
  "intersperse sep [] = ''''"
| "intersperse sep [x] = x"
| "intersperse sep (x # y # xs) = x @ sep @ intersperse sep (y # xs)"

definition instruction_to_string :: "Instruction \<Rightarrow> string" where
  "instruction_to_string i =
     ''%v'' @ to_string (unat (result_id i)) @ '' = '' @ op_name (op i) @ '' ''
     @ intersperse '', '' (map value_to_string (operands i))
     @ (if annotations i = [] then ''''
        else ''  ; '' @ intersperse '' '' (map (\<lambda>(k, v). k @ ''='' @ v) (annotations i)))"

record Function =
  fn_name :: string
  instrs :: "Instruction list"
  next_id :: u32

definition new_function :: "string \<Rightarrow> Function" where
  "new_function n = \<lparr>fn_name = n, instrs = [], next_id = 0\<rparr>"

definition set_next_id :: "u32 \<Rightarrow> Function \<Rightarrow> Function" where
  "set_next_id n f = f\<lparr>next_id := n\<rparr>"

text \<open>\<open>emit\<close> appends an instruction under the next id and gives it back with the function.\<close>

definition emit :: "Function \<Rightarrow> Op \<Rightarrow> Value list \<Rightarrow> (string \<times> string) list \<Rightarrow> Instruction \<times> Function" where
  "emit f x vs ann =
     (let i = \<lparr>op = x, operands = vs, result_id = next_id f, annotations = ann\<rparr>
      in (i, f\<lparr>instrs := instrs f @ [i], next_id := next_id f + 1\<rparr>))"

definition function_dump :: "Function \<Rightarrow> string" where
  "function_dump f =
     ''func '' @ fn_name f @ '' {'' @ [CHR 0x0A]
     @ concat (map (\<lambda>i. ''  '' @ instruction_to_string i @ [CHR 0x0A]) (instrs f)) @ ''}''"

end
