(* ===== verification/Byte_Memory.thy ===== *)
theory Byte_Memory
  imports Deobf_Prelude
begin

section \<open>ByteMemory (include/deobf/memory.h, src/memory/byte_memory.cpp)\<close>

text \<open>
  The byte-level store the evaluators use for VM-private memory: a list of safe address
  ranges and a map from 64-bit addresses to bytes. Addresses wrap at \<open>2 ^ 64\<close>, as
  \<^verbatim>\<open>addr + i\<close> on \<^verbatim>\<open>uint64_t\<close> does. \<^verbatim>\<open>std::memcpy\<close> between the byte
  buffer and an integer is little-endian.
\<close>

record MemRange =
  range_start :: u64
  range_end :: u64

definition contains :: "MemRange \<Rightarrow> u64 \<Rightarrow> bool" where
  "contains r addr \<longleftrightarrow> range_start r \<le> addr \<and> addr < range_end r"

record ByteMemory =
  safe_ranges :: "MemRange list"
  bytes :: "u64 \<Rightarrow> u8 option"

definition empty_memory :: ByteMemory where
  "empty_memory = \<lparr>safe_ranges = [], bytes = Map.empty\<rparr>"

definition add_safe_range :: "ByteMemory \<Rightarrow> u64 \<Rightarrow> u64 \<Rightarrow> ByteMemory" where
  "add_safe_range m s e =
     m\<lparr>safe_ranges := safe_ranges m @ [\<lparr>range_start = s, range_end = e\<rparr>]\<rparr>"

definition is_safe :: "ByteMemory \<Rightarrow> u64 \<Rightarrow> bool" where
  "is_safe m addr \<longleftrightarrow> list_ex (\<lambda>r. contains r addr) (safe_ranges m)"

text \<open>The write loop \<^verbatim>\<open>bytes_[addr + i] = data[i]\<close>, and the reading loop that stops at the
  first byte that is not there.\<close>

definition put_bytes :: "(u64 \<Rightarrow> u8 option) \<Rightarrow> u64 \<Rightarrow> u8 list \<Rightarrow> (u64 \<Rightarrow> u8 option)" where
  "put_bytes b addr data =
     foldl (\<lambda>b i. b(addr + of_nat i \<mapsto> data ! i)) b [0..<length data]"

definition store :: "ByteMemory \<Rightarrow> u64 \<Rightarrow> u8 list \<Rightarrow> ByteMemory" where
  "store m addr data = m\<lparr>bytes := put_bytes (bytes m) addr data\<rparr>"

definition load :: "ByteMemory \<Rightarrow> u64 \<Rightarrow> nat \<Rightarrow> u8 list option" where
  "load m addr n = those (map (\<lambda>i. bytes m (addr + of_nat i)) [0..<n])"

definition load_u64 :: "ByteMemory \<Rightarrow> u64 \<Rightarrow> u64 option" where
  "load_u64 m addr = map_option of_le_bytes (load m addr 8)"

definition load_u32 :: "ByteMemory \<Rightarrow> u64 \<Rightarrow> u32 option" where
  "load_u32 m addr = map_option of_le_bytes (load m addr 4)"

definition store_u64 :: "ByteMemory \<Rightarrow> u64 \<Rightarrow> u64 \<Rightarrow> ByteMemory" where
  "store_u64 m addr val = m\<lparr>bytes := put_bytes (bytes m) addr (le_bytes 8 val)\<rparr>"

definition store_u32 :: "ByteMemory \<Rightarrow> u64 \<Rightarrow> u32 \<Rightarrow> ByteMemory" where
  "store_u32 m addr val = m\<lparr>bytes := put_bytes (bytes m) addr (le_bytes 4 val)\<rparr>"

subsection \<open>Address ranges that do not overlap\<close>

text \<open>\<open>apart n a k b\<close>: the \<open>n\<close> bytes from \<open>a\<close> and the \<open>k\<close> bytes from \<open>b\<close>
  share no address, addresses taken modulo \<open>2 ^ 64\<close>.\<close>

definition apart :: "nat \<Rightarrow> u64 \<Rightarrow> nat \<Rightarrow> u64 \<Rightarrow> bool" where
  "apart n a k b \<longleftrightarrow> n \<le> unat (b - a) \<and> k \<le> unat (a - b)"

lemma apart_sym: "apart n a k b \<longleftrightarrow> apart k b n a"
  by (auto simp: apart_def)

lemma apart_neq:
  assumes "apart n a k b" "i < n" "j < k"
  shows "a + of_nat i \<noteq> b + of_nat j"
proof
  assume eq: "a + of_nat i = b + of_nat j"
  show False
  proof (cases "j \<le> i")
    case True
    with eq have "b - a = of_nat (i - j)" by (simp add: of_nat_diff algebra_simps)
    then have "unat (b - a) \<le> i - j" by (simp add: unat_of_nat)
    with assms(1,2) show False unfolding apart_def by linarith
  next
    case False
    with eq have "a - b = of_nat (j - i)" by (simp add: of_nat_diff algebra_simps)
    then have "unat (a - b) \<le> j - i" by (simp add: unat_of_nat)
    with assms(1,3) show False unfolding apart_def by linarith
  qed
qed

lemma of_nat_offset_inject:
  assumes "i < 2 ^ 64" "j < 2 ^ 64"
  shows "(a :: u64) + of_nat i = a + of_nat j \<longleftrightarrow> i = j"
proof
  assume "a + of_nat i = a + of_nat j"
  then have "unat (of_nat i :: u64) = unat (of_nat j :: u64)" by simp
  with assms show "i = j" by (simp add: unat_of_nat)
qed simp

subsection \<open>What a write leaves behind\<close>

lemma put_bytes_snoc:
  "foldl (\<lambda>b i. b(addr + of_nat i \<mapsto> data ! i)) b [0..<Suc n] =
   (foldl (\<lambda>b i. b(addr + of_nat i \<mapsto> data ! i)) b [0..<n])(addr + of_nat n \<mapsto> data ! n)"
  by simp

lemma put_bytes_outside:
  assumes "\<And>i. i < length data \<Longrightarrow> x \<noteq> addr + of_nat i"
  shows "put_bytes b addr data x = b x"
proof -
  have "n \<le> length data \<Longrightarrow>
    foldl (\<lambda>b i. b(addr + of_nat i \<mapsto> data ! i)) b [0..<n] x = b x" for n
    by (induction n) (simp_all add: assms)
  then show ?thesis by (simp add: put_bytes_def)
qed

lemma put_bytes_inside:
  assumes "i < length data" "length data \<le> 2 ^ 64"
  shows "put_bytes b addr data (addr + of_nat i) = Some (data ! i)"
proof -
  have "n \<le> length data \<Longrightarrow> i < n \<Longrightarrow>
    foldl (\<lambda>b i. b(addr + of_nat i \<mapsto> data ! i)) b [0..<n] (addr + of_nat i) = Some (data ! i)" for n
  proof (induction n)
    case (Suc n)
    show ?case
    proof (cases "i = n")
      case False
      with Suc.prems have "i < n" by simp
      moreover have "addr + of_nat i \<noteq> addr + of_nat n"
        using Suc.prems assms of_nat_offset_inject [of i n addr] \<open>i < n\<close> by auto
      ultimately show ?thesis using Suc by (simp del: add_left_cancel)
    qed simp
  qed simp
  with assms show ?thesis by (simp add: put_bytes_def)
qed

lemma those_map_Some: "(\<And>x. x \<in> set xs \<Longrightarrow> f x = Some (g x)) \<Longrightarrow> those (map f xs) = Some (map g xs)"
  by (induction xs) auto

lemma those_eq_Some: "those xs = Some ys \<longleftrightarrow> xs = map Some ys"
proof (induction xs arbitrary: ys)
  case (Cons x xs)
  then show ?case by (cases x; cases ys) auto
qed auto

lemma load_eq_Some_iff:
  "load m addr n = Some data \<longleftrightarrow>
     length data = n \<and> (\<forall>i<n. bytes m (addr + of_nat i) = Some (data ! i))"
  by (auto simp: load_def those_eq_Some list_eq_iff_nth_eq)

lemma load_cong:
  "(\<And>i. i < n \<Longrightarrow> bytes m (a + of_nat i) = bytes m' (a + of_nat i)) \<Longrightarrow> load m a n = load m' a n"
  unfolding load_def by (intro arg_cong [where f = those] map_cong) auto

lemma load_put_same:
  assumes "length data \<le> 2 ^ 64"
  shows "load (m\<lparr>bytes := put_bytes (bytes m) a data\<rparr>) a (length data) = Some data"
  using assms by (simp add: load_eq_Some_iff put_bytes_inside)

lemma load_put_apart:
  assumes "apart (length data) a n b"
  shows "load (m\<lparr>bytes := put_bytes (bytes m) a data\<rparr>) b n = load m b n"
proof (rule load_cong)
  fix i assume "i < n"
  then have "\<And>j. j < length data \<Longrightarrow> b + of_nat i \<noteq> a + of_nat j"
    using apart_neq [OF assms] by metis
  then show "bytes (m\<lparr>bytes := put_bytes (bytes m) a data\<rparr>) (b + of_nat i) = bytes m (b + of_nat i)"
    by (simp add: put_bytes_outside)
qed

lemma store_safe [frame_simps]:
  "safe_ranges (store m a d) = safe_ranges m"
  "safe_ranges (store_u64 m a v) = safe_ranges m"
  "safe_ranges (store_u32 m a w) = safe_ranges m"
  by (simp_all add: store_def store_u64_def store_u32_def)

lemma is_safe_frame [simp]:
  "is_safe (store m a d) x = is_safe m x"
  "is_safe (store_u64 m a v) x = is_safe m x"
  "is_safe (store_u32 m a w) x = is_safe m x"
  by (simp_all add: is_safe_def frame_simps)

subsection \<open>The word store interface\<close>

text \<open>
  What the evaluators rely on when they apply the stores of a block to the memory and read
  loads back: a load sees the last store to its address, and stores to addresses whose
  ranges do not overlap do not disturb it. The laws are proved once for a sequence of
  stores, in program order, and hold for both word sizes of the byte memory.
\<close>

definition store_all :: "('m \<Rightarrow> u64 \<Rightarrow> 'v \<Rightarrow> 'm) \<Rightarrow> 'm \<Rightarrow> (u64 \<times> 'v) list \<Rightarrow> 'm" where
  "store_all st m ws = foldl (\<lambda>m (a, v). st m a v) m ws"

lemma store_all_simps [simp]:
  "store_all st m [] = m"
  "store_all st m ((a, v) # ws) = store_all st (st m a v) ws"
  "store_all st m (ws @ vs) = store_all st (store_all st m ws) vs"
  by (simp_all add: store_all_def)

locale word_store =
  fixes ld :: "'m \<Rightarrow> u64 \<Rightarrow> 'v option"
    and st :: "'m \<Rightarrow> u64 \<Rightarrow> 'v \<Rightarrow> 'm"
    and sep :: "u64 \<Rightarrow> u64 \<Rightarrow> bool"
  assumes ld_st_same: "ld (st m a v) a = Some v"
    and ld_st_sep: "sep a b \<Longrightarrow> ld (st m a v) b = ld m b"
begin

lemma ld_store_all_sep:
  "(\<And>a v. (a, v) \<in> set ws \<Longrightarrow> sep a b) \<Longrightarrow> ld (store_all st m ws) b = ld m b"
proof (induction ws arbitrary: m)
  case (Cons w ws)
  obtain a v where w: "w = (a, v)" by force
  have "ld (store_all st (st m a v) ws) b = ld (st m a v) b"
    by (rule Cons.IH) (auto intro: Cons.prems)
  with Cons.prems [of a v] show ?case by (simp add: w ld_st_sep)
qed simp

lemma ld_store_all_last:
  assumes "\<And>a' v'. (a', v') \<in> set ws2 \<Longrightarrow> sep a' a"
  shows "ld (store_all st m (ws1 @ (a, v) # ws2)) a = Some v"
  using ld_store_all_sep [OF assms] by (simp add: ld_st_same)

lemma ld_store_all:
  assumes "\<And>a v. (a, v) \<in> set ws \<Longrightarrow> a = b \<or> sep a b"
  shows "ld (store_all st m ws) b = (case map_of (rev ws) b of Some v \<Rightarrow> Some v | None \<Rightarrow> ld m b)"
  using assms
proof (induction ws arbitrary: m rule: rev_induct)
  case (snoc w ws)
  obtain a v where w: "w = (a, v)" by force
  show ?case
  proof (cases "a = b")
    case True
    then show ?thesis by (simp add: w ld_st_same)
  next
    case False
    then have "sep a b" using snoc.prems [of a v] by (simp add: w)
    moreover have "ld (store_all st m ws) b =
        (case map_of (rev ws) b of Some v \<Rightarrow> Some v | None \<Rightarrow> ld m b)"
      by (rule snoc.IH) (use snoc.prems in auto)
    ultimately show ?thesis using False by (simp add: w ld_st_sep)
  qed
qed simp

end

lemma load_u64_store_u64: "load_u64 (store_u64 m a v) a = Some v"
  using load_put_same [of "le_bytes 8 v" m a]
  by (simp add: load_u64_def store_u64_def of_le_bytes_le_bytes)

lemma load_u32_store_u32: "load_u32 (store_u32 m a v) a = Some v"
  using load_put_same [of "le_bytes 4 v" m a]
  by (simp add: load_u32_def store_u32_def of_le_bytes_le_bytes)

interpretation u64_store: word_store load_u64 store_u64 "\<lambda>a b. apart 8 a 8 b"
proof unfold_locales
  fix m a v b
  show "load_u64 (store_u64 m a v) a = Some v" by (rule load_u64_store_u64)
  show "apart 8 a 8 b \<Longrightarrow> load_u64 (store_u64 m a v) b = load_u64 m b"
    using load_put_apart [of "le_bytes 8 v" a 8 b m] by (simp add: load_u64_def store_u64_def)
qed

interpretation u32_store: word_store load_u32 store_u32 "\<lambda>a b. apart 4 a 4 b"
proof unfold_locales
  fix m a v b
  show "load_u32 (store_u32 m a v) a = Some v" by (rule load_u32_store_u32)
  show "apart 4 a 4 b \<Longrightarrow> load_u32 (store_u32 m a v) b = load_u32 m b"
    using load_put_apart [of "le_bytes 4 v" a 4 b m] by (simp add: load_u32_def store_u32_def)
qed

lemma is_safe_store_all: "is_safe (store_all store_u64 m ws) x = is_safe m x"
proof (induction ws arbitrary: m)
  case (Cons w ws)
  then show ?case by (cases w) simp
qed simp

subsection \<open>Properties\<close>

text \<open>
  Property C21. Reading back what a sequence of 64-bit stores wrote: when every store of the
  sequence is either to the address read or to a range of eight bytes that does not overlap
  it, \<open>load_u64\<close> returns the value of the last store to that address, and what was
  there before when no store hit it. The safe ranges do not change.
\<close>

theorem byte_memory_store_sequence:
  assumes "\<forall>(a, v) \<in> set ws. a = b \<or> apart 8 a 8 b"
  shows "load_u64 (store_all store_u64 m ws) b =
      (case map_of (rev ws) b of Some v \<Rightarrow> Some v | None \<Rightarrow> load_u64 m b)
    \<and> is_safe (store_all store_u64 m ws) x = is_safe m x"
proof
  show "load_u64 (store_all store_u64 m ws) b =
      (case map_of (rev ws) b of Some v \<Rightarrow> Some v | None \<Rightarrow> load_u64 m b)"
  proof (rule u64_store.ld_store_all)
    fix a v assume "(a, v) \<in> set ws"
    with assms show "a = b \<or> apart 8 a 8 b" by blast
  qed
  show "is_safe (store_all store_u64 m ws) x = is_safe m x"
    by (rule is_safe_store_all)
qed

theorem byte_memory_store_sequence_witness:
  "load_u64 (store_all store_u64 empty_memory [(0x1000, 1), (0x1008, 2), (0x1000, 3)]) 0x1000 = Some 3"
proof -
  have "\<forall>(a, v) \<in> set [(0x1000, 1), (0x1008, 2), (0x1000, 3 :: u64)]. a = 0x1000 \<or> apart 8 a 8 0x1000"
    by (simp add: apart_def)
  from byte_memory_store_sequence [OF this, of empty_memory 0] show ?thesis by simp
qed

text \<open>
  A 32-bit store over a 64-bit value at the same address replaces the low half
  and keeps the high half, as little-endian memory does.
\<close>

theorem store_u32_over_u64:
  "load_u64 (store_u32 (store_u64 m a v) a w) a = Some (push_bit 32 (drop_bit 32 v) OR ucast w)"
proof -
  define m1 where "m1 = store_u64 m a v"
  define data where "data = le_bytes 4 w @ drop 4 (le_bytes 8 v)"
  have m1: "bytes m1 (a + of_nat i) = Some (le_byte v i)" if "i < 8" for i
    using that put_bytes_inside [of i "le_bytes 8 v" "bytes m" a] by (simp add: m1_def store_u64_def)
  have "bytes (store_u32 m1 a w) (a + of_nat i) = Some (data ! i)" if i: "i < 8" for i
  proof (cases "i < 4")
    case True
    then show ?thesis using put_bytes_inside [of i "le_bytes 4 w" "bytes m1" a]
      by (simp add: store_u32_def data_def nth_append)
  next
    case False
    have "a + of_nat i \<noteq> a + of_nat j" if "j < 4" for j
      using that False i of_nat_offset_inject [of i j a] by simp
    then have "bytes (store_u32 m1 a w) (a + of_nat i) = bytes m1 (a + of_nat i)"
      using put_bytes_outside [of "le_bytes 4 w" "a + of_nat i" a "bytes m1"]
      by (simp add: store_u32_def)
    with False i m1 show ?thesis by (simp add: data_def nth_append)
  qed
  then have "load (store_u32 m1 a w) a 8 = Some data"
    by (simp add: load_eq_Some_iff) (simp add: data_def)
  then have "load_u64 (store_u32 m1 a w) a = Some (of_le_bytes data)"
    by (simp add: load_u64_def)
  moreover have "of_le_bytes data = push_bit 32 (drop_bit 32 v) OR (ucast w :: u64)"
  proof (rule bit_word_eqI)
    fix k assume "k < LENGTH(64)"
    then have "k < 64" by simp
    show "bit (of_le_bytes data :: u64) k \<longleftrightarrow> bit (push_bit 32 (drop_bit 32 v) OR (ucast w :: u64)) k"
    proof (cases "k < 32")
      case True
      then have "k div 8 < 4" by auto
      with True show ?thesis
        by (simp add: bit_of_le_bytes data_def nth_append bit_le_byte bit_simps)
    next
      case False
      with \<open>k < 64\<close> have "\<not> k div 8 < 4" "k div 8 < 8" by auto
      moreover have "\<not> bit w k" using False by (auto dest: bit_imp_le_length)
      ultimately show ?thesis using False \<open>k < 64\<close>
        by (simp add: bit_of_le_bytes data_def nth_append bit_le_byte bit_simps)
    qed
  qed
  ultimately show ?thesis by (simp add: m1_def)
qed

end
