(* ===== verification/IR_Semantics.thy ===== *)
theory IR_Semantics
  imports Deobf_IR Byte_Memory
begin

section \<open>A reference semantics of the IR\<close>

text \<open>
  What an instruction list computes, as the specification the optimizer passes are proved
  against. A run starts from register values (\<open>sym\<close>), a flat 64-bit byte memory and
  values for ids that no instruction of the list defines, and yields the value of every
  id, the memory, and the trace of control transfers (taken jumps, returns, calls).
  Every operation is 64 bits wide, as in \<^verbatim>\<open>fold_binary\<close> and
  \<^verbatim>\<open>fold_unary\<close>; the opcodes the passes never evaluate (\<^verbatim>\<open>ZEXT\<close>,
  \<^verbatim>\<open>SEXT\<close>, \<^verbatim>\<open>TRUNC\<close>, and any opcode with the wrong number of operands) are
  an arbitrary function of the run's environment, and so is what a called function does.
\<close>

type_synonym memory = "u64 \<Rightarrow> u8"

definition rd64 :: "memory \<Rightarrow> u64 \<Rightarrow> u64" where
  "rd64 m a = of_le_bytes (map (\<lambda>i. m (a + of_nat i)) [0..<8])"

definition wr64 :: "memory \<Rightarrow> u64 \<Rightarrow> u64 \<Rightarrow> memory" where
  "wr64 m a v = (\<lambda>x. if unat (x - a) < 8 then le_byte v (unat (x - a)) else m x)"

interpretation flat_store: word_store "\<lambda>m a. Some (rd64 m a)" wr64 "\<lambda>a b. apart 8 a 8 b"
proof unfold_locales
  fix m :: memory and a b v
  have "map (\<lambda>i. wr64 m a v (a + of_nat i)) [0..<8] = le_bytes 8 v"
    by (auto simp: le_bytes_def wr64_def unat_of_nat)
  then have "rd64 (wr64 m a v) a = v"
    unfolding rd64_def by (simp only:) (simp add: of_le_bytes_le_bytes)
  then show "Some (rd64 (wr64 m a v) a) = Some v" by simp
  assume ap: "apart 8 a 8 b"
  have "wr64 m a v (b + of_nat i) = m (b + of_nat i)" if i: "i < 8" for i
  proof -
    have "\<not> unat (b + of_nat i - a) < 8"
    proof
      assume lt: "unat (b + of_nat i - a) < 8"
      have "a + of_nat (unat (b + of_nat i - a)) = b + of_nat i" by simp
      with apart_neq [OF ap lt i] show False by simp
    qed
    then show ?thesis by (simp add: wr64_def)
  qed
  then have "map (\<lambda>i. wr64 m a v (b + of_nat i)) [0..<8] = map (\<lambda>i. m (b + of_nat i)) [0..<8]"
    by (intro map_cong) auto
  then show "Some (rd64 (wr64 m a v) b) = Some (rd64 m b)"
    by (simp only: rd64_def)
qed

lemmas rd64_wr64 = flat_store.ld_st_same [simplified] flat_store.ld_st_sep [simplified]

datatype event = E_Jump "u64 list" | E_Ret "u64 list" | E_Call "u64 list"

record env =
  sym :: "string \<Rightarrow> u64"
  symmem :: "u32 \<Rightarrow> u8 \<Rightarrow> u64"
  other_op :: "Op \<Rightarrow> u64 list \<Rightarrow> u64"
  ext_call :: "u64 list \<Rightarrow> memory \<Rightarrow> u64 \<times> memory"

record state =
  vals :: "u32 \<Rightarrow> u64"
  mem :: memory
  trace :: "event list"

fun eval_val :: "env \<Rightarrow> state \<Rightarrow> Value \<Rightarrow> u64" where
  "eval_val E s (Const c b) = c"
| "eval_val E s (SymReg n) = sym E n"
| "eval_val E s (SymMem r b) = symmem E r b"
| "eval_val E s (InstrRef i) = vals s i"

definition byte_swap :: "u64 \<Rightarrow> u64" where
  "byte_swap w = of_le_bytes (rev (le_bytes 8 w))"

definition binop_sem :: "Op \<Rightarrow> u64 \<Rightarrow> u64 \<Rightarrow> u64" where
  "binop_sem x a b = (case x of
     Op_ADD \<Rightarrow> a + b
   | Op_SUB \<Rightarrow> a - b
   | Op_MUL \<Rightarrow> a * b
   | Op_XOR \<Rightarrow> a XOR b
   | Op_AND \<Rightarrow> a AND b
   | Op_OR \<Rightarrow> a OR b
   | Op_SHL \<Rightarrow> push_bit (unat (b AND 63)) a
   | Op_SHR \<Rightarrow> drop_bit (unat (b AND 63)) a
   | Op_SAR \<Rightarrow> signed_drop_bit (unat (b AND 63)) a
   | Op_ROL \<Rightarrow> word_rotl (unat (b AND 63)) a
   | Op_ROR \<Rightarrow> word_rotr (unat (b AND 63)) a
   | _ \<Rightarrow> 0)"

definition unop_sem :: "Op \<Rightarrow> u64 \<Rightarrow> u64" where
  "unop_sem x a = (case x of
     Op_NOT \<Rightarrow> NOT a
   | Op_NEG \<Rightarrow> - a
   | Op_BSWAP \<Rightarrow> byte_swap a
   | _ \<Rightarrow> 0)"

text \<open>The result of an opcode that neither reads memory nor calls out.\<close>

definition pure_result :: "env \<Rightarrow> Op \<Rightarrow> u64 list \<Rightarrow> u64" where
  "pure_result E x vs =
     (if x \<in> {Op_CONST, Op_CONST_PTR} \<and> vs \<noteq> [] then hd vs
      else if op_is_foldable_binary x \<and> length vs = 2 then binop_sem x (vs ! 0) (vs ! 1)
      else if op_is_foldable_unary x \<and> length vs = 1 then unop_sem x (vs ! 0)
      else if x = Op_PASSTHROUGH \<and> length vs = 1 then vs ! 0
      else if x = Op_SELECT \<and> length vs = 3 then (if vs ! 0 \<noteq> 0 then vs ! 1 else vs ! 2)
      else if x \<in> {Op_STORE, Op_RET, Op_JMP, Op_CJMP, Op_NOP} then 0
      else other_op E x vs)"

definition pure_op :: "Op \<Rightarrow> bool" where
  "pure_op x \<longleftrightarrow> x \<noteq> Op_LOAD \<and> x \<noteq> Op_CALL"

definition result_of :: "env \<Rightarrow> memory \<Rightarrow> Op \<Rightarrow> u64 list \<Rightarrow> u64" where
  "result_of E m x vs =
     (if x = Op_LOAD \<and> length vs = 1 then rd64 m (vs ! 0)
      else if x = Op_CALL then fst (ext_call E vs m)
      else pure_result E x vs)"

definition memory_after :: "env \<Rightarrow> memory \<Rightarrow> Op \<Rightarrow> u64 list \<Rightarrow> memory" where
  "memory_after E m x vs =
     (if x = Op_STORE \<and> length vs = 2 then wr64 m (vs ! 0) (vs ! 1)
      else if x = Op_CALL then snd (ext_call E vs m)
      else m)"

definition events_of :: "Op \<Rightarrow> u64 list \<Rightarrow> event list" where
  "events_of x vs =
     (if x = Op_JMP then [E_Jump vs]
      else if x = Op_CJMP \<and> vs \<noteq> [] then (if hd vs \<noteq> 0 then [E_Jump (tl vs)] else [])
      else if x = Op_RET then [E_Ret vs]
      else if x = Op_CALL then [E_Call vs]
      else [])"

definition exec_instr :: "env \<Rightarrow> state \<Rightarrow> Instruction \<Rightarrow> state" where
  "exec_instr E s i =
     (let vs = map (eval_val E s) (operands i)
      in \<lparr>vals = (vals s)(result_id i := result_of E (mem s) (op i) vs),
          mem = memory_after E (mem s) (op i) vs,
          trace = trace s @ events_of (op i) vs\<rparr>)"

definition exec :: "env \<Rightarrow> state \<Rightarrow> Instruction list \<Rightarrow> state" where
  "exec E s is = foldl (exec_instr E) s is"

lemma exec_simps [simp]:
  "exec E s [] = s"
  "exec E s (i # is) = exec E (exec_instr E s i) is"
  "exec E s (is @ js) = exec E (exec E s is) js"
  by (simp_all add: exec_def)

lemma exec_instr_sel [simp]:
  "vals (exec_instr E s i) =
     (vals s)(result_id i := result_of E (mem s) (op i) (map (eval_val E s) (operands i)))"
  "mem (exec_instr E s i) = memory_after E (mem s) (op i) (map (eval_val E s) (operands i))"
  "trace (exec_instr E s i) = trace s @ events_of (op i) (map (eval_val E s) (operands i))"
  by (simp_all add: exec_instr_def Let_def)

text \<open>Two instructions of one id that compute alike are interchangeable.\<close>

lemma exec_instr_eqI:
  assumes "result_id i = result_id j"
    and "result_of E (mem s) (op i) (map (eval_val E s) (operands i)) =
         result_of E (mem s) (op j) (map (eval_val E s) (operands j))"
    and "memory_after E (mem s) (op i) (map (eval_val E s) (operands i)) =
         memory_after E (mem s) (op j) (map (eval_val E s) (operands j))"
    and "events_of (op i) (map (eval_val E s) (operands i)) =
         events_of (op j) (map (eval_val E s) (operands j))"
  shows "exec_instr E s i = exec_instr E s j"
  using assms by (simp add: exec_instr_def Let_def)

text \<open>Opcodes that touch neither memory nor the trace.\<close>

definition plain_op :: "Op \<Rightarrow> bool" where
  "plain_op x \<longleftrightarrow> x \<notin> {Op_LOAD, Op_STORE, Op_CALL, Op_RET, Op_JMP, Op_CJMP}"

lemma plain_op_simps [simp]:
  "plain_op Op_CONST" "plain_op Op_PASSTHROUGH" "plain_op Op_SELECT" "plain_op Op_NOP"
  by (simp_all add: plain_op_def)

lemma foldable_plain: "op_is_foldable_binary x \<or> op_is_foldable_unary x \<Longrightarrow> plain_op x"
  by (cases x) (simp_all add: plain_op_def)

lemma plain_pure: "plain_op x \<Longrightarrow> pure_op x"
  by (simp add: plain_op_def pure_op_def)

lemma exec_instr_plainI:
  assumes "result_id i = result_id j" "plain_op (op i)" "plain_op (op j)"
    and "pure_result E (op i) (map (eval_val E s) (operands i)) =
         pure_result E (op j) (map (eval_val E s) (operands j))"
  shows "exec_instr E s i = exec_instr E s j"
  using assms
  by (intro exec_instr_eqI) (auto simp: plain_op_def result_of_def memory_after_def events_of_def)

subsection \<open>Single assignment\<close>

definition ref_ids :: "Instruction \<Rightarrow> u32 list" where
  "ref_ids i = List.map_filter get_instrref (operands i)"

abbreviation ids :: "Instruction list \<Rightarrow> u32 set" where
  "ids is \<equiv> result_id ` set is"

lemma set_ref_ids: "j \<in> set (ref_ids i) \<longleftrightarrow> InstrRef j \<in> set (operands i)"
  by (force simp: ref_ids_def List.map_filter_def)

text \<open>
  An instruction list is in single-assignment form when no id is defined twice and an
  operand never names an id that is defined at or after its own instruction.
\<close>

fun ssa :: "Instruction list \<Rightarrow> bool" where
  "ssa [] = True"
| "ssa (i # is) =
     (list_all (\<lambda>k. result_id k \<noteq> result_id i) is
      \<and> list_all (\<lambda>j. list_all (\<lambda>k. result_id k \<noteq> j) (i # is)) (ref_ids i)
      \<and> ssa is)"

lemma ssa_Cons_iff:
  "ssa (i # is) \<longleftrightarrow> result_id i \<notin> ids is \<and> set (ref_ids i) \<inter> ids (i # is) = {} \<and> ssa is"
  by (auto simp: list_all_iff image_iff)

lemma ssa_append:
  "ssa (xs @ ys) \<longleftrightarrow> ssa xs \<and> ssa ys \<and> ids xs \<inter> ids ys = {} \<and> (\<forall>x \<in> set xs. set (ref_ids x) \<inter> ids ys = {})"
proof (induction xs)
  case (Cons x xs)
  then show ?case unfolding append_Cons ssa_Cons_iff by auto
qed simp

lemma eval_val_exec_instr:
  "v \<noteq> InstrRef (result_id i) \<Longrightarrow> eval_val E (exec_instr E s i) v = eval_val E s v"
  by (cases v) auto

lemma eval_val_exec:
  "(\<And>j. v = InstrRef j \<Longrightarrow> j \<notin> ids is) \<Longrightarrow> eval_val E (exec E s is) v = eval_val E s v"
proof (induction "is" arbitrary: s)
  case (Cons i "is")
  then have "eval_val E (exec E (exec_instr E s i) is) v = eval_val E (exec_instr E s i) v"
    by auto
  moreover have "v \<noteq> InstrRef (result_id i)" using Cons.prems by auto
  ultimately show ?case by (simp add: eval_val_exec_instr)
qed simp

definition settled :: "env \<Rightarrow> state \<Rightarrow> Instruction \<Rightarrow> bool" where
  "settled E s d \<longleftrightarrow>
     pure_op (op d) \<longrightarrow>
     vals s (result_id d) = pure_result E (op d) (map (eval_val E s) (operands d))"

lemma result_of_pure: "pure_op x \<Longrightarrow> result_of E m x vs = pure_result E x vs"
  by (simp add: pure_op_def result_of_def)

lemma settled_exec_instr_self:
  "result_id d \<notin> set (ref_ids d) \<Longrightarrow> settled E (exec_instr E s d) d"
proof -
  assume "result_id d \<notin> set (ref_ids d)"
  then have eq: "map (eval_val E (exec_instr E s d)) (operands d) = map (eval_val E s) (operands d)"
    by (intro map_cong refl eval_val_exec_instr) (auto simp: set_ref_ids)
  show ?thesis unfolding settled_def eq by (simp add: result_of_pure)
qed

lemma settled_exec_instr_other:
  assumes "settled E s d" "result_id i \<noteq> result_id d" "result_id i \<notin> set (ref_ids d)"
  shows "settled E (exec_instr E s i) d"
proof -
  have eq: "map (eval_val E (exec_instr E s i)) (operands d) = map (eval_val E s) (operands d)"
    using assms(3) by (intro map_cong refl eval_val_exec_instr) (auto simp: set_ref_ids)
  show ?thesis using assms(1,2) unfolding settled_def eq by simp
qed

text \<open>After a run of a list in single-assignment form every definition still holds.\<close>

lemma settled_exec: "ssa is \<Longrightarrow> d \<in> set is \<Longrightarrow> settled E (exec E s is) d"
proof (induction "is" rule: rev_induct)
  case (snoc i "is")
  then have i: "result_id i \<notin> ids is" "result_id i \<notin> set (ref_ids i)"
    and d: "\<And>x. x \<in> set is \<Longrightarrow> result_id i \<notin> set (ref_ids x)"
    by (auto simp: ssa_append ssa_Cons_iff simp del: ssa.simps)
  show ?case
  proof (cases "d = i")
    case True
    with i(2) show ?thesis by (simp add: settled_exec_instr_self)
  next
    case False
    with snoc.prems have "d \<in> set is" by simp
    moreover have "ssa is" using snoc.prems(1) by (simp add: ssa_append)
    moreover have "result_id i \<noteq> result_id d" using \<open>d \<in> set is\<close> i(1) by force
    ultimately show ?thesis using d snoc.IH by (simp add: settled_exec_instr_other)
  qed
qed simp

end
