(* ===== verification/Pass_Core.thy ===== *)
theory Pass_Core
  imports IR_Semantics
begin

section \<open>Definition lookup and the rewriting loop (src/passes/transforms.cpp)\<close>

text \<open>
  \<open>build_instr_map\<close> maps an id to the instruction that defines it; the C++ map holds
  pointers into the function's vector, so here it holds indices, and every lookup reads the
  vector as it is at that moment: the passes change instructions in place while they hold
  such a map. \<open>resolve\<close> follows \<^verbatim>\<open>PASSTHROUGH\<close> definitions; its C++ loop has no bound, so
  it is a partial function, and \<open>None\<close> is the run that never ends.
\<close>

definition build_instr_map :: "Instruction list \<Rightarrow> u32 \<Rightarrow> nat option" where
  "build_instr_map is =
     foldl (\<lambda>m k. m(result_id (is ! k) \<mapsto> k)) Map.empty [0..<length is]"

partial_function (option) resolve ::
  "Instruction list \<Rightarrow> (u32 \<Rightarrow> nat option) \<Rightarrow> Value \<Rightarrow> Value option" where
  "resolve vec by_id cur =
     (case get_instrref cur of
        None \<Rightarrow> Some cur
      | Some r \<Rightarrow>
         (case by_id r of
            None \<Rightarrow> Some cur
          | Some k \<Rightarrow>
             (let d = vec ! k in
              if (op d = Op_CONST \<or> op d = Op_CONST_PTR) \<and> operands d \<noteq> [] then
                (case get_const (operands d ! 0) of
                   Some (c, b) \<Rightarrow> Some (Const c b)
                 | None \<Rightarrow> Some cur)
              else if op d = Op_PASSTHROUGH \<and> length (operands d) = 1 then
                resolve vec by_id (operands d ! 0)
              else Some cur)))"

declare resolve.simps [code]

text \<open>
  The shape of every rewriting pass: \<^verbatim>\<open>for (auto& instr : f.instrs)\<close> with a
  \<^verbatim>\<open>changed\<close> flag. The step sees the instructions already rewritten, those still to
  come, and the current one.
\<close>

type_synonym rewrite_step =
  "(u32 \<Rightarrow> nat option) \<Rightarrow> Instruction list \<Rightarrow> Instruction list \<Rightarrow> Instruction \<Rightarrow> (Instruction \<times> bool) option"

fun for_each_instr ::
  "(Instruction list \<Rightarrow> Instruction list \<Rightarrow> Instruction \<Rightarrow> (Instruction \<times> bool) option)
   \<Rightarrow> Instruction list \<Rightarrow> Instruction list \<Rightarrow> bool \<Rightarrow> (Instruction list \<times> bool) option" where
  "for_each_instr step pre [] ch = Some (pre, ch)"
| "for_each_instr step pre (x # rest) ch =
     do { (x', c) \<leftarrow> step pre rest x;
          for_each_instr step (pre @ [x']) rest (ch \<or> c) }"

definition run_pass :: "rewrite_step \<Rightarrow> Function \<Rightarrow> (Function \<times> bool) option" where
  "run_pass step f =
     do { (is, ch) \<leftarrow> for_each_instr (step (build_instr_map (instrs f))) [] (instrs f) False;
          Some (f\<lparr>instrs := is\<rparr>, ch) }"

subsection \<open>Facts about the map\<close>

lemma build_instr_map_prefix_None:
  "n \<le> length is \<Longrightarrow>
   foldl (\<lambda>m k. m(result_id (is ! k) \<mapsto> k)) Map.empty [0..<n] j = None \<longleftrightarrow> j \<notin> ids (take n is)"
proof (induction n)
  case (Suc n)
  then have "take (Suc n) is = take n is @ [is ! n]" by (simp add: take_Suc_conv_app_nth)
  with Suc show ?case by simp
qed simp

lemma build_instr_map_prefix_Some:
  "foldl (\<lambda>m k. m(result_id (is ! k) \<mapsto> k)) Map.empty [0..<n] j = Some k \<Longrightarrow>
   k < n \<and> result_id (is ! k) = j"
proof (induction n)
  case (Suc n)
  then show ?case by (cases "j = result_id (is ! n)") (simp_all add: less_SucI)
qed simp

lemma build_instr_map_None: "build_instr_map is j = None \<longleftrightarrow> j \<notin> ids is"
  using build_instr_map_prefix_None [of "length is" "is" j] by (simp add: build_instr_map_def)

lemma build_instr_map_Some:
  "build_instr_map is j = Some k \<Longrightarrow> k < length is \<and> result_id (is ! k) = j"
  unfolding build_instr_map_def by (rule build_instr_map_prefix_Some)

lemma lookup_earlier:
  assumes "build_instr_map (d @ t) j = Some k" "j \<notin> ids t"
  shows "(d @ t) ! k \<in> set d \<and> result_id ((d @ t) ! k) = j"
proof -
  have k: "k < length (d @ t)" "result_id ((d @ t) ! k) = j"
    using build_instr_map_Some [OF assms(1)] by auto
  have "k < length d"
  proof (rule ccontr)
    assume "\<not> k < length d"
    then have "(d @ t) ! k \<in> set t" using k(1) by (simp add: nth_append)
    with k(2) assms(2) show False by auto
  qed
  with k(2) show ?thesis by (simp add: nth_append)
qed

lemma build_instr_map_cong:
  assumes "map result_id is = map result_id js"
  shows "build_instr_map is = build_instr_map js"
proof -
  have "length is = length js" using assms by (rule map_eq_imp_length_eq)
  moreover have "result_id (is ! k) = result_id (js ! k)" if "k < length js" for k
    using that assms \<open>length is = length js\<close> by (metis nth_map)
  ultimately show ?thesis
    unfolding build_instr_map_def by (intro foldl_cong) auto
qed

lemma ssa_distinct: "ssa is \<Longrightarrow> distinct (map result_id is)"
  by (induction "is") (auto simp: ssa_Cons_iff simp del: ssa.simps)

lemma ssa_replace:
  assumes "ssa (d @ x # r)" "result_id x' = result_id x"
    and new: "set (ref_ids x') \<subseteq> set (ref_ids x) \<union> (\<Union>y \<in> set d. set (ref_ids y))"
  shows "ssa (d @ x' # r)"
proof -
  have disj: "X \<subseteq> Y \<union> Z \<Longrightarrow> Y \<inter> I = {} \<Longrightarrow> Z \<inter> I = {} \<Longrightarrow> X \<inter> I = {}" for X Y Z I :: "u32 set"
    by blast
  have d: "ssa d" "ssa (x # r)" "ids d \<inter> ids (x # r) = {}"
      "\<forall>y \<in> set d. set (ref_ids y) \<inter> ids (x # r) = {}"
    using assms(1) unfolding ssa_append by blast+
  then have x: "result_id x \<notin> ids r" "set (ref_ids x) \<inter> ids (x # r) = {}" "ssa r"
    unfolding ssa_Cons_iff by blast+
  have same: "ids (x' # r) = ids (x # r)" using assms(2) by simp
  have "(\<Union>y \<in> set d. set (ref_ids y)) \<inter> ids (x # r) = {}" using d(4) by blast
  with new x(2) have "set (ref_ids x') \<inter> ids (x # r) = {}" by (rule disj)
  then have "ssa (x' # r)" using x(1,3) assms(2) by (simp only: ssa_Cons_iff same) simp
  with d same show ?thesis by (simp only: ssa_append)
qed

subsection \<open>Resolution in single-assignment form\<close>

definition val_refs :: "Value \<Rightarrow> u32 set" where
  "val_refs v = (case v of InstrRef j \<Rightarrow> {j} | _ \<Rightarrow> {})"

lemma val_refs_simps [simp]:
  "val_refs (Const c b) = {}" "val_refs (SymReg n) = {}" "val_refs (SymMem r b) = {}"
  "val_refs (InstrRef j) = {j}"
  by (simp_all add: val_refs_def)

lemma ref_ids_val_refs: "set (ref_ids i) = (\<Union>v \<in> set (operands i). val_refs v)"
  by (auto simp: set_ref_ids val_refs_def split: Value.splits)

lemma val_refs_operand: "v \<in> set (operands i) \<Longrightarrow> val_refs v \<subseteq> set (ref_ids i)"
  by (auto simp: ref_ids_val_refs)

abbreviation refs :: "Instruction list \<Rightarrow> u32 set" where
  "refs is \<equiv> (\<Union>i \<in> set is. set (ref_ids i))"

lemma ssa_ref_before:
  assumes "ssa vec" "k < length vec"
  shows "set (ref_ids (vec ! k)) \<inter> ids (drop k vec) = {}"
proof -
  have "vec = take k vec @ vec ! k # drop (Suc k) vec" using assms(2) by (rule id_take_nth_drop)
  then have "ssa (vec ! k # drop (Suc k) vec)" using assms(1) by (metis ssa_append)
  moreover have "drop k vec = vec ! k # drop (Suc k) vec" using assms(2) by (simp add: Cons_nth_drop_Suc)
  ultimately show ?thesis by (simp only: ssa_Cons_iff)
qed

lemma resolve_defined_below:
  assumes "ssa vec" "k \<le> length vec" "val_refs v \<inter> ids (drop k vec) = {}"
  shows "\<exists>w. resolve vec (build_instr_map vec) v = Some w"
  using assms(2,3)
proof (induction k arbitrary: v rule: less_induct)
  case (less k)
  show ?case
  proof (cases "\<exists>j p. v = InstrRef j \<and> build_instr_map vec j = Some p
      \<and> op (vec ! p) = Op_PASSTHROUGH \<and> length (operands (vec ! p)) = 1")
    case True
    then obtain j p where v: "v = InstrRef j" and p: "build_instr_map vec j = Some p"
      and pass: "op (vec ! p) = Op_PASSTHROUGH" "length (operands (vec ! p)) = 1" by blast
    from build_instr_map_Some [OF p] have p_bound: "p < length vec" "result_id (vec ! p) = j" by auto
    have "p < k"
    proof (rule ccontr)
      assume "\<not> p < k"
      then have "vec ! p \<in> set (drop k vec)"
        using p_bound by (auto simp: in_set_conv_nth intro!: exI [of _ "p - k"])
      with p_bound less.prems(2) v show False by auto
    qed
    moreover have "val_refs (operands (vec ! p) ! 0) \<inter> ids (drop p vec) = {}"
    proof -
      have "operands (vec ! p) ! 0 \<in> set (operands (vec ! p))" using pass(2) by simp
      then have "val_refs (operands (vec ! p) ! 0) \<subseteq> set (ref_ids (vec ! p))" by (rule val_refs_operand)
      with ssa_ref_before [OF assms(1) p_bound(1)] show ?thesis by blast
    qed
    ultimately have "\<exists>w. resolve vec (build_instr_map vec) (operands (vec ! p) ! 0) = Some w"
      using p_bound(1) by (intro less.IH) simp_all
    with v p pass show ?thesis by (subst resolve.simps) simp
  next
    case False
    then show ?thesis
      by (subst resolve.simps) (auto split: option.splits simp: Let_def)
  qed
qed

lemma resolve_defined [defined_intros]:
  "ssa vec \<Longrightarrow> \<exists>w. resolve vec (build_instr_map vec) v = Some w"
  by (rule resolve_defined_below [of vec "length vec"]) simp_all

text \<open>Resolution reads only definitions that hold, so the value does not change.\<close>

lemma resolve_sound:
  assumes "resolve (d @ t) im v = Some w"
    and "im = build_instr_map (d @ t)" "ssa (d @ t)" "val_refs v \<inter> ids t = {}"
    and "\<And>y. y \<in> set d \<Longrightarrow> settled E s y"
  shows "eval_val E s w = eval_val E s v \<and> val_refs w \<subseteq> val_refs v \<union> refs d"
proof -
  have "d @ t = d @ t \<longrightarrow> im = im \<longrightarrow> val_refs v \<inter> ids t = {} \<longrightarrow>
      eval_val E s w = eval_val E s v \<and> val_refs w \<subseteq> val_refs v \<union> refs d"
  proof (rule resolve.raw_induct [where P = "\<lambda>vec by_id cur res. vec = d @ t \<longrightarrow> by_id = im \<longrightarrow>
      val_refs cur \<inter> ids t = {} \<longrightarrow>
      eval_val E s res = eval_val E s cur \<and> val_refs res \<subseteq> val_refs cur \<union> refs d",
      OF _ assms(1)], intro impI)
    fix R vec by_id cur res
    assume IH: "\<And>vec by_id cur res. R vec by_id cur = Some res \<Longrightarrow> vec = d @ t \<longrightarrow> by_id = im \<longrightarrow>
        val_refs cur \<inter> ids t = {} \<longrightarrow>
        eval_val E s res = eval_val E s cur \<and> val_refs res \<subseteq> val_refs cur \<union> refs d"
      and eq: "(case get_instrref cur of None \<Rightarrow> Some cur
      | Some r \<Rightarrow> (case by_id r of None \<Rightarrow> Some cur
          | Some k \<Rightarrow> (let d = vec ! k in
              if (op d = Op_CONST \<or> op d = Op_CONST_PTR) \<and> operands d \<noteq> [] then
                (case get_const (operands d ! 0) of Some (c, b) \<Rightarrow> Some (Const c b) | None \<Rightarrow> Some cur)
              else if op d = Op_PASSTHROUGH \<and> length (operands d) = 1 then R vec by_id (operands d ! 0)
              else Some cur))) = Some res"
      and vec: "vec = d @ t" "by_id = im" and cur: "val_refs cur \<inter> ids t = {}"
    show "eval_val E s res = eval_val E s cur \<and> val_refs res \<subseteq> val_refs cur \<union> refs d"
    proof (cases "\<exists>j p. cur = InstrRef j \<and> im j = Some p")
      case False
      with eq vec have "res = cur" by (auto split: option.splits)
      then show ?thesis by simp
    next
      case True
      then obtain j p where j: "cur = InstrRef j" and p: "im j = Some p" by blast
      define y where "y = (d @ t) ! p"
      have "build_instr_map (d @ t) j = Some p" "j \<notin> ids t" using p assms(2) cur j by auto
      from lookup_earlier [OF this] have y: "y \<in> set d" "(d @ t) ! p = y" "result_id y = j"
        by (simp_all add: y_def)
      have st: "settled E s y" using assms(5) y(1) .
      from eq vec j p y(2) have eq': "(if (op y = Op_CONST \<or> op y = Op_CONST_PTR) \<and> operands y \<noteq> [] then
                (case get_const (operands y ! 0) of Some (c, b) \<Rightarrow> Some (Const c b) | None \<Rightarrow> Some cur)
              else if op y = Op_PASSTHROUGH \<and> length (operands y) = 1 then R vec by_id (operands y ! 0)
              else Some cur) = Some res"
        by (simp add: Let_def)
      consider (const) c b where "op y = Op_CONST \<or> op y = Op_CONST_PTR" "operands y \<noteq> []"
          "operands y ! 0 = Const c b" "res = Const c b"
        | (pass) "op y = Op_PASSTHROUGH" "length (operands y) = 1" "R vec by_id (operands y ! 0) = Some res"
        | (stop) "res = cur"
        using eq' by (auto split: if_splits option.splits)
      then show ?thesis
      proof cases
        case const
        then have "hd (map (eval_val E s) (operands y)) = c" by (cases "operands y") auto
        with const st y(3) j show ?thesis
          by (auto simp: settled_def pure_op_def pure_result_def)
      next
        case pass
        let ?v = "operands y ! 0"
        have mem: "?v \<in> set (operands y)" using pass(2) by simp
        have rr: "val_refs ?v \<subseteq> set (ref_ids y)" using mem by (rule val_refs_operand)
        have "set (ref_ids y) \<inter> ids t = {}" using assms(3) y(1) by (auto simp: ssa_append)
        with rr IH [OF pass(3)] vec
        have "eval_val E s res = eval_val E s ?v \<and> val_refs res \<subseteq> val_refs ?v \<union> refs d" by blast
        moreover have "eval_val E s ?v = eval_val E s cur"
          using pass(1,2) st y(3) j by (simp add: settled_def pure_op_def pure_result_def)
        moreover have "val_refs ?v \<subseteq> refs d" using rr y(1) by blast
        ultimately show ?thesis by auto
      qed simp
    qed
  qed
  with assms(4) show ?thesis by simp
qed

text \<open>What a pass owes: single assignment kept, every id defined where it was, and the same
  values, memory and trace from every start.\<close>

definition same_computation :: "Function \<Rightarrow> Function \<Rightarrow> bool" where
  "same_computation f f' \<longleftrightarrow>
     ssa (instrs f') \<and> map result_id (instrs f') = map result_id (instrs f)
     \<and> (\<forall>E s. exec E s (instrs f') = exec E s (instrs f))"

lemma same_computation_refl: "ssa (instrs f) \<Longrightarrow> same_computation f f"
  by (simp add: same_computation_def)

lemma same_computation_trans:
  "same_computation f g \<Longrightarrow> same_computation g h \<Longrightarrow> same_computation f h"
  by (simp add: same_computation_def)

lemma same_computation_ssa: "same_computation f g \<Longrightarrow> ssa (instrs g)"
  by (simp add: same_computation_def)

subsection \<open>The interface of a local rewriting pass\<close>

text \<open>
  A pass that rewrites one instruction at a time is correct when each step keeps the id,
  takes its new operands from the old ones or from operands of earlier instructions, and
  computes the same as the old instruction in every state in which the earlier definitions
  hold. The loop then keeps single assignment and the meaning of the whole function.
\<close>

locale rewrite_pass =
  fixes stp :: rewrite_step
  assumes step_id: "stp im d r x = Some (x', c) \<Longrightarrow> result_id x' = result_id x"
    and step_sound: "\<lbrakk>stp im d r x = Some (x', c); im = build_instr_map (d @ x # r); ssa (d @ x # r);
        \<And>y. y \<in> set d \<Longrightarrow> settled E s y\<rbrakk>
      \<Longrightarrow> exec_instr E s x' = exec_instr E s x \<and> set (ref_ids x') \<subseteq> set (ref_ids x) \<union> refs d"
    and step_unchanged: "stp im d r x = Some (x', False) \<Longrightarrow> x' = x"
begin

lemma loop_ids:
  "for_each_instr (stp im) d r ch = Some (is, ch') \<Longrightarrow> map result_id is = map result_id (d @ r)"
proof (induction "stp im" d r ch rule: for_each_instr.induct)
  case (2 d x r ch)
  then obtain x' c where "stp im d r x = Some (x', c)"
    "for_each_instr (stp im) (d @ [x']) r (ch \<or> c) = Some (is, ch')"
    by (auto elim!: bind_SomeE)
  with 2 show ?case by (auto dest: step_id)
qed simp

lemma step_ssa:
  assumes "stp im d r x = Some (x', c)" "im = build_instr_map (d @ x # r)" "ssa (d @ x # r)"
  shows "ssa ((d @ [x']) @ r)"
proof -
  have "ssa d" using assms(3) by (simp add: ssa_append)
  then have "set (ref_ids x') \<subseteq> set (ref_ids x) \<union> refs d"
    using step_sound [OF assms settled_exec] by simp
  then have "ssa (d @ x' # r)" by (rule ssa_replace [OF assms(3) step_id [OF assms(1)]])
  then show ?thesis by simp
qed

lemma loop_sound:
  "\<lbrakk>for_each_instr (stp im) d r ch = Some (is, ch'); im = build_instr_map (d @ r); ssa (d @ r)\<rbrakk>
   \<Longrightarrow> ssa is \<and> exec E (exec E s d) r = exec E s is"
proof (induction "stp im" d r ch arbitrary: "is" rule: for_each_instr.induct)
  case (2 d x r ch)
  then obtain x' c where step: "stp im d r x = Some (x', c)"
    and rest: "for_each_instr (stp im) (d @ [x']) r (ch \<or> c) = Some (is, ch')"
    by (auto elim!: bind_SomeE)
  have "ssa d" using "2.prems"(3) by (simp add: ssa_append)
  then have "exec_instr E (exec E s d) x' = exec_instr E (exec E s d) x"
    using step_sound [OF step "2.prems"(2,3) settled_exec] by simp
  moreover have "im = build_instr_map ((d @ [x']) @ r)"
    using "2.prems"(2) step_id [OF step] by (simp add: build_instr_map_cong)
  moreover have "ssa ((d @ [x']) @ r)" using step_ssa [OF step "2.prems"(2,3)] .
  ultimately show ?case using "2.hyps" [OF step refl rest] by simp
qed simp

lemma loop_unchanged:
  "for_each_instr (stp im) d r ch = Some (is, False) \<Longrightarrow> is = d @ r \<and> \<not> ch"
proof (induction "stp im" d r ch rule: for_each_instr.induct)
  case (2 d x r ch)
  then obtain x' c where step: "stp im d r x = Some (x', c)"
    "for_each_instr (stp im) (d @ [x']) r (ch \<or> c) = Some (is, False)"
    by (auto elim!: bind_SomeE)
  with "2.hyps" [OF step(1) refl] have "is = (d @ [x']) @ r" "\<not> (ch \<or> c)" by auto
  with step step_unchanged show ?case by auto
qed simp

lemma pass_sound:
  assumes "run_pass stp f = Some (f', ch)" "ssa (instrs f)"
  shows "same_computation f f'"
proof -
  from assms(1) obtain js where js: "f' = f\<lparr>instrs := js\<rparr>"
    "for_each_instr (stp (build_instr_map (instrs f))) [] (instrs f) False = Some (js, ch)"
    by (auto simp: run_pass_def elim!: bind_SomeE)
  from loop_sound [OF js(2)] loop_ids [OF js(2)] assms(2) js(1) show ?thesis
    by (simp add: same_computation_def)
qed

lemma pass_unchanged: "run_pass stp f = Some (f', False) \<Longrightarrow> f' = f"
  by (auto simp: run_pass_def elim!: bind_SomeE dest: loop_unchanged)

end

text \<open>A pass whose step always has a defined result on functions in single-assignment form.\<close>

locale total_rewrite_pass = rewrite_pass +
  assumes step_defined: "\<lbrakk>im = build_instr_map (d @ x # r); ssa (d @ x # r)\<rbrakk> \<Longrightarrow> \<exists>res. stp im d r x = Some res"
begin

lemma loop_defined:
  "\<lbrakk>im = build_instr_map (d @ r); ssa (d @ r)\<rbrakk> \<Longrightarrow> \<exists>res. for_each_instr (stp im) d r ch = Some res"
proof (induction r arbitrary: d ch)
  case (Cons x r)
  then obtain x' c where step: "stp im d r x = Some (x', c)" using step_defined by force
  have "im = build_instr_map ((d @ [x']) @ r)"
    using Cons.prems(1) step_id [OF step] by (simp add: build_instr_map_cong)
  moreover have "ssa ((d @ [x']) @ r)" using step_ssa [OF step Cons.prems] .
  ultimately have "\<exists>res. for_each_instr (stp im) (d @ [x']) r (ch \<or> c) = Some res" by (rule Cons.IH)
  with step show ?case by simp
qed simp

lemma pass_defined: "ssa (instrs f) \<Longrightarrow> \<exists>f' ch. run_pass stp f = Some (f', ch)"
  using loop_defined [of _ "[]" "instrs f" False] by (force simp: run_pass_def)

end

end
