(* ===== verification/Pass_Fold.thy ===== *)
theory Pass_Fold
  imports Pass_Core
begin

section \<open>Constant promotion, constant folding, branch folding (src/passes/transforms.cpp)\<close>

text \<open>
  Three of the local passes: operands that resolve to something simpler are replaced,
  operations on constants are evaluated, conditional jumps on a constant become jumps or
  disappear. The evaluation functions are modelled with the undefined behaviour of C++
  written out: a shift by 64 and the negation of the least \<^verbatim>\<open>int64_t\<close> are \<open>None\<close>.
\<close>

subsection \<open>Pass 1: constant promotion\<close>

text \<open>The inner loop rewrites the operands one by one, and each resolution reads the
  instruction with the operands already rewritten.\<close>

fun promote_operands ::
  "(u32 \<Rightarrow> nat option) \<Rightarrow> Instruction list \<Rightarrow> Instruction list \<Rightarrow> Instruction
   \<Rightarrow> Value list \<Rightarrow> Value list \<Rightarrow> bool \<Rightarrow> (Instruction \<times> bool) option" where
  "promote_operands im pre rest i seen [] ch = Some (i\<lparr>operands := seen\<rparr>, ch)"
| "promote_operands im pre rest i seen (v # vs) ch =
     (if \<not> is_instrref v then promote_operands im pre rest i (seen @ [v]) vs ch
      else do { resolved \<leftarrow> resolve (pre @ i\<lparr>operands := seen @ v # vs\<rparr> # rest) im v;
                if resolved \<noteq> v then promote_operands im pre rest i (seen @ [resolved]) vs True
                else promote_operands im pre rest i (seen @ [v]) vs ch })"

definition const_promote_step :: rewrite_step where
  "const_promote_step im pre rest i = promote_operands im pre rest i [] (operands i) False"

definition const_promote_pass :: "Function \<Rightarrow> (Function \<times> bool) option" where
  "const_promote_pass f = run_pass const_promote_step f"

lemma promote_operands_id:
  "promote_operands im d r i seen vs ch = Some (i', c) \<Longrightarrow> result_id i' = result_id i \<and> op i' = op i
     \<and> annotations i' = annotations i \<and> length (operands i') = length seen + length vs"
  by (induction im d r i seen vs ch rule: promote_operands.induct)
    (auto split: if_splits elim!: bind_SomeE)

lemma promote_operands_unchanged:
  "promote_operands im d r i seen vs ch = Some (i', False) \<Longrightarrow> i' = i\<lparr>operands := seen @ vs\<rparr> \<and> \<not> ch"
  by (induction im d r i seen vs ch rule: promote_operands.induct)
    (auto split: if_splits elim!: bind_SomeE)

lemma promote_operands_sound:
  assumes "promote_operands im d r i seen vs ch = Some (i', c)"
    and "im = build_instr_map (d @ i # r)" "ssa (d @ i\<lparr>operands := seen @ vs\<rparr> # r)"
    and "\<And>y. y \<in> set d \<Longrightarrow> settled E s y"
  shows "map (eval_val E s) (operands i') = map (eval_val E s) (seen @ vs)
    \<and> set (ref_ids i') \<subseteq> set (ref_ids (i\<lparr>operands := seen @ vs\<rparr>)) \<union> refs d"
  using assms
proof (induction im d r i seen vs ch rule: promote_operands.induct)
  case (2 im pre rest i seen v vs ch)
  let ?i = "i\<lparr>operands := seen @ v # vs\<rparr>"
  show ?case
  proof (cases "is_instrref v")
    case False
    with 2 show ?thesis by simp
  next
    case True
    with "2.prems"(1) obtain w where w: "resolve (pre @ ?i # rest) im v = Some w"
      and rest: "promote_operands im pre rest i (seen @ [w]) vs (w \<noteq> v \<or> ch) = Some (i', c)"
      by (auto elim!: bind_SomeE split: if_splits)
    have im: "im = build_instr_map (pre @ ?i # rest)"
      using "2.prems"(2) by (simp add: build_instr_map_cong)
    have "v \<in> set (operands ?i)" by simp
    then have vr: "val_refs v \<subseteq> set (ref_ids ?i)" by (rule val_refs_operand)
    have "ssa (?i # rest)" using "2.prems"(3) by (simp only: ssa_append)
    then have "set (ref_ids ?i) \<inter> ids (?i # rest) = {}" by (simp only: ssa_Cons_iff)
    with vr have "val_refs v \<inter> ids (?i # rest) = {}" by blast
    from resolve_sound [OF w im "2.prems"(3) this "2.prems"(4)]
    have ew: "eval_val E s w = eval_val E s v" and rw: "val_refs w \<subseteq> val_refs v \<union> refs pre" by auto
    let ?j = "i\<lparr>operands := (seen @ [w]) @ vs\<rparr>"
    have rj: "set (ref_ids ?j) \<subseteq> set (ref_ids ?i) \<union> refs pre"
      using rw by (auto simp: ref_ids_val_refs)
    have ssaj: "ssa (pre @ ?j # rest)"
      by (rule ssa_replace [OF "2.prems"(3) _ rj]) simp
    have "map (eval_val E s) (operands i') = map (eval_val E s) ((seen @ [w]) @ vs) \<and>
        set (ref_ids i') \<subseteq> set (ref_ids ?j) \<union> refs pre"
    proof (cases "w = v")
      case True
      with rest w \<open>is_instrref v\<close> "2.IH"(3) [of w] "2.prems"(2,4) ssaj show ?thesis by simp
    next
      case False
      with rest w \<open>is_instrref v\<close> "2.IH"(2) [of w] "2.prems"(2,4) ssaj show ?thesis by simp
    qed
    with ew rj show ?thesis by auto
  qed
qed auto

lemma promote_operands_defined:
  assumes "im = build_instr_map (d @ i # r)" "ssa (d @ i\<lparr>operands := seen @ vs\<rparr> # r)"
  shows "\<exists>res. promote_operands im d r i seen vs ch = Some res"
  using assms
proof (induction vs arbitrary: seen ch)
  case (Cons v vs)
  let ?i = "i\<lparr>operands := seen @ v # vs\<rparr>"
  show ?case
  proof (cases "is_instrref v")
    case False
    with Cons.IH [of "seen @ [v]" ch] Cons.prems show ?thesis by simp
  next
    case True
    have im: "im = build_instr_map (d @ ?i # r)"
      using Cons.prems(1) by (simp add: build_instr_map_cong)
    obtain w where w: "resolve (d @ ?i # r) im v = Some w"
      using resolve_defined [OF Cons.prems(2)] im by blast
    have "v \<in> set (operands ?i)" by simp
    then have vr: "val_refs v \<subseteq> set (ref_ids ?i)" by (rule val_refs_operand)
    have sp: "ssa d" "ssa (?i # r)" using Cons.prems(2) by (simp_all only: ssa_append)
    then have "set (ref_ids ?i) \<inter> ids (?i # r) = {}" by (simp only: ssa_Cons_iff)
    with vr have "val_refs v \<inter> ids (?i # r) = {}" by blast
    from resolve_sound [OF w im Cons.prems(2) this settled_exec [OF sp(1)]]
    have rw: "val_refs w \<subseteq> val_refs v \<union> refs d" by auto
    let ?j = "i\<lparr>operands := (seen @ [w]) @ vs\<rparr>"
    have "set (ref_ids ?j) \<subseteq> set (ref_ids ?i) \<union> refs d"
      using rw by (auto simp: ref_ids_val_refs)
    then have "ssa (d @ ?j # r)"
      by (intro ssa_replace [OF Cons.prems(2)]) simp_all
    from Cons.IH [OF Cons.prems(1) this] w True show ?thesis by auto
  qed
qed simp

interpretation promote: total_rewrite_pass const_promote_step
proof unfold_locales
  fix im d r x x' c E s
  show "const_promote_step im d r x = Some (x', c) \<Longrightarrow> result_id x' = result_id x"
    by (auto simp: const_promote_step_def dest: promote_operands_id)
  show "const_promote_step im d r x = Some (x', False) \<Longrightarrow> x' = x"
    by (auto simp: const_promote_step_def dest: promote_operands_unchanged)
  assume im: "im = build_instr_map (d @ x # r)" and ssa: "ssa (d @ x # r)"
  show "\<exists>res. const_promote_step im d r x = Some res"
    using promote_operands_defined [OF im, of "[]" "operands x" False] ssa
    by (simp add: const_promote_step_def)
  assume step: "const_promote_step im d r x = Some (x', c)"
    and st: "\<And>y. y \<in> set d \<Longrightarrow> settled E s y"
  have "map (eval_val E s) (operands x') = map (eval_val E s) (operands x)
      \<and> set (ref_ids x') \<subseteq> set (ref_ids x) \<union> refs d"
    using promote_operands_sound [OF step [unfolded const_promote_step_def] im _ st] ssa by simp
  moreover from step have "result_id x' = result_id x \<and> op x' = op x"
    by (auto simp: const_promote_step_def dest: promote_operands_id)
  ultimately show "exec_instr E s x' = exec_instr E s x \<and> set (ref_ids x') \<subseteq> set (ref_ids x) \<union> refs d"
    by (simp add: exec_instr_def)
qed

subsection \<open>Pass 2: constant folding\<close>

text \<open>A shift of a 64-bit value by 64 or more is undefined in C++.\<close>

definition shl64 :: "u64 \<Rightarrow> u64 \<Rightarrow> u64 option" where
  "shl64 v n = (if n < 64 then Some (push_bit (unat n) v) else None)"

definition shr64 :: "u64 \<Rightarrow> u64 \<Rightarrow> u64 option" where
  "shr64 v n = (if n < 64 then Some (drop_bit (unat n) v) else None)"

definition rol64 :: "u64 \<Rightarrow> u64 \<Rightarrow> u64 option" where
  "rol64 v n0 = (let n = n0 AND 63 in
     do { hi \<leftarrow> shl64 v n; lo \<leftarrow> shr64 v (64 - n); Some (hi OR lo) })"

definition ror64 :: "u64 \<Rightarrow> u64 \<Rightarrow> u64 option" where
  "ror64 v n0 = (let n = n0 AND 63 in
     do { lo \<leftarrow> shr64 v n; hi \<leftarrow> shl64 v (64 - n); Some (lo OR hi) })"

definition sar64 :: "u64 \<Rightarrow> u64 \<Rightarrow> u64 option" where
  "sar64 v n0 = (let n = n0 AND 63 in
     if v AND push_bit 63 1 \<noteq> 0
     then do { lo \<leftarrow> shr64 v n; hi \<leftarrow> shl64 (- 1) (64 - n); Some (lo OR hi) }
     else shr64 v n)"

definition bswap64 :: "u64 \<Rightarrow> u64" where
  "bswap64 v = byte_swap v"

text \<open>\<^verbatim>\<open>-static_cast<int64_t>(a)\<close> overflows for the least value.\<close>

definition neg64 :: "u64 \<Rightarrow> u64 option" where
  "neg64 a = (if sint a = - (2 ^ 63) then None else Some (word_of_int (- sint a)))"

definition fold_binary :: "Op \<Rightarrow> u64 \<Rightarrow> u64 \<Rightarrow> u64 option option" where
  "fold_binary x a b = (case x of
     Op_ADD \<Rightarrow> Some (Some (a + b))
   | Op_SUB \<Rightarrow> Some (Some (a - b))
   | Op_MUL \<Rightarrow> Some (Some (a * b))
   | Op_XOR \<Rightarrow> Some (Some (a XOR b))
   | Op_AND \<Rightarrow> Some (Some (a AND b))
   | Op_OR \<Rightarrow> Some (Some (a OR b))
   | Op_SHL \<Rightarrow> map_option Some (shl64 a (b AND 63))
   | Op_SHR \<Rightarrow> map_option Some (shr64 a (b AND 63))
   | Op_SAR \<Rightarrow> map_option Some (sar64 a b)
   | Op_ROL \<Rightarrow> map_option Some (rol64 a b)
   | Op_ROR \<Rightarrow> map_option Some (ror64 a b)
   | _ \<Rightarrow> Some None)"

definition fold_unary :: "Op \<Rightarrow> u64 \<Rightarrow> u64 option option" where
  "fold_unary x a = (case x of
     Op_NOT \<Rightarrow> Some (Some (NOT a))
   | Op_NEG \<Rightarrow> map_option Some (neg64 a)
   | Op_BSWAP \<Rightarrow> Some (Some (bswap64 a))
   | _ \<Rightarrow> Some None)"

definition const_fold_step :: rewrite_step where
  "const_fold_step im pre rest i =
     (if op_is_foldable_binary (op i) \<and> length (operands i) = 2 then
        (case (get_const (operands i ! 0), get_const (operands i ! 1)) of
           (Some (a, abits), Some (b, bbits)) \<Rightarrow>
             do { folded \<leftarrow> fold_binary (op i) a b;
                  Some (case folded of
                     Some v \<Rightarrow> ((emplace_ann ''folded_from'' (op_name (op i)) i)
                                  \<lparr>op := Op_CONST, operands := [Const v (max abits bbits)]\<rparr>, True)
                   | None \<Rightarrow> (i, False)) }
         | _ \<Rightarrow> Some (i, False))
      else if op_is_foldable_unary (op i) \<and> length (operands i) = 1 then
        (case get_const (operands i ! 0) of
           Some (a, abits) \<Rightarrow>
             do { folded \<leftarrow> fold_unary (op i) a;
                  Some (case folded of
                     Some v \<Rightarrow> ((emplace_ann ''folded_from'' (op_name (op i)) i)
                                  \<lparr>op := Op_CONST, operands := [Const v abits]\<rparr>, True)
                   | None \<Rightarrow> (i, False)) }
         | None \<Rightarrow> Some (i, False))
      else if op i = Op_SELECT \<and> length (operands i) = 3 then
        (case get_const (operands i ! 0) of
           Some (c, _) \<Rightarrow>
             (let chosen = (if c \<noteq> 0 then operands i ! 1 else operands i ! 2)
              in Some ((emplace_ann ''folded_from'' ''SELECT'' i)
                         \<lparr>op := Op_PASSTHROUGH, operands := [chosen]\<rparr>, True))
         | None \<Rightarrow> Some (i, False))
      else Some (i, False))"

definition const_fold_pass :: "Function \<Rightarrow> (Function \<times> bool) option" where
  "const_fold_pass f = run_pass const_fold_step f"

subsection \<open>The evaluation functions compute the reference operations\<close>

lemma unat_and_63: "unat ((b :: u64) AND 63) < 64"
proof -
  have "b AND 63 \<le> 63" by (rule word_and_le1)
  then show ?thesis by (simp add: word_le_nat_alt)
qed

lemma and_63_less: "(b :: u64) AND 63 < 64"
  using unat_and_63 [of b] by (simp add: word_less_nat_alt)

lemma unat_64_minus:
  assumes "(b :: u64) AND 63 \<noteq> 0"
  shows "unat (64 - (b AND 63)) = 64 - unat (b AND 63)"
  using and_63_less [of b] by (simp add: unat_sub order_less_imp_le)

lemma shr64_and_63: "shr64 v (b AND 63) = Some (drop_bit (unat (b AND 63)) v)"
  by (simp add: shr64_def and_63_less)

lemma shl64_and_63: "shl64 v (b AND 63) = Some (push_bit (unat (b AND 63)) v)"
  by (simp add: shl64_def and_63_less)

lemma complement_shift:
  "64 - ((b :: u64) AND 63) < 64 \<longleftrightarrow> b AND 63 \<noteq> 0"
proof (cases "b AND 63 = 0")
  case False
  then have "unat (b AND 63) \<noteq> 0" by (simp add: unat_eq_zero)
  with False unat_64_minus [of b] unat_and_63 [of b] show ?thesis by (simp add: word_less_nat_alt)
qed simp

lemma word_rotl_shifts:
  assumes "0 < n" "n < 64"
  shows "word_rotl n (v :: u64) = push_bit n v OR drop_bit (64 - n) v"
proof (rule bit_word_eqI)
  fix k assume "k < LENGTH(64)"
  then have k: "k < 64" by simp
  show "bit (word_rotl n v) k \<longleftrightarrow> bit (push_bit n v OR drop_bit (64 - n) v) k"
  proof (cases "n \<le> k")
    case True
    then have "(k + (64 - n)) mod 64 = k - n" using assms k by (simp add: mod_if)
    moreover have "\<not> bit v (64 - n + k)" using True assms by (auto dest: bit_imp_le_length)
    ultimately show ?thesis using True k assms by (simp add: bit_word_rotl_iff bit_simps)
  next
    case False
    then have "(k + (64 - n)) mod 64 = 64 - n + k" using assms k by simp
    with False show ?thesis using k assms by (simp add: bit_word_rotl_iff bit_simps)
  qed
qed

lemma word_rotr_shifts:
  assumes "0 < n" "n < 64"
  shows "word_rotr n (v :: u64) = drop_bit n v OR push_bit (64 - n) v"
proof (rule bit_word_eqI)
  fix k assume "k < LENGTH(64)"
  then have k: "k < 64" by simp
  show "bit (word_rotr n v) k \<longleftrightarrow> bit (drop_bit n v OR push_bit (64 - n) v) k"
  proof (cases "k + n < 64")
    case True
    then have "\<not> 64 - n \<le> k" by simp
    with True show ?thesis using k assms by (simp add: bit_word_rotr_iff bit_simps add.commute)
  next
    case False
    then have "(k + n) mod 64 = k - (64 - n)" using assms k by (simp add: mod_if)
    moreover have "\<not> bit v (n + k)" using False by (auto dest: bit_imp_le_length)
    moreover have "64 - n \<le> k" using False by simp
    ultimately show ?thesis using False k assms by (simp add: bit_word_rotr_iff bit_simps)
  qed
qed

lemma and_sign_bit: "(v :: u64) AND push_bit 63 1 \<noteq> 0 \<longleftrightarrow> bit v 63"
  by (simp only: bit_iff_and_push_bit_not_eq_0)

lemma signed_drop_bit_shifts:
  assumes "n < 64"
  shows "signed_drop_bit n (v :: u64) =
     (if bit v 63 then drop_bit n v OR push_bit (64 - n) (- 1) else drop_bit n v)"
proof (rule bit_word_eqI)
  fix k assume "k < LENGTH(64)"
  then have k: "k < 64" by simp
  show "bit (signed_drop_bit n v) k \<longleftrightarrow>
      bit (if bit v 63 then drop_bit n v OR push_bit (64 - n) (- 1) else drop_bit n v) k"
    using k assms by (auto simp: bit_signed_drop_bit_iff bit_simps dest: bit_imp_le_length)
qed

lemma neg64_eq: "neg64 a = (if a = push_bit 63 1 then None else Some (- a))"
proof -
  have "sint a = - (2 ^ 63) \<longleftrightarrow> a = push_bit 63 1"
  proof
    assume "sint a = - (2 ^ 63)"
    then have "(word_of_int (sint a) :: u64) = word_of_int (- (2 ^ 63))" by simp
    then show "a = push_bit 63 1" by simp
  qed simp
  then show ?thesis by (simp add: neg64_def)
qed

text \<open>Where evaluating the operation has no defined result.\<close>

definition fold_undefined :: "Op \<Rightarrow> u64 \<Rightarrow> u64 \<Rightarrow> bool" where
  "fold_undefined x a b \<longleftrightarrow>
     b AND 63 = 0 \<and> (x = Op_ROL \<or> x = Op_ROR \<or> x = Op_SAR \<and> bit a 63)"

lemma fold_binary_eq:
  "fold_binary x a b =
     (if \<not> op_is_foldable_binary x then Some None
      else if fold_undefined x a b then None
      else Some (Some (binop_sem x a b)))"
proof -
  let ?n = "unat (b AND 63)"
  have n: "0 < ?n \<longleftrightarrow> b AND 63 \<noteq> 0" by (simp add: unat_gt_0)
  have rol: "rol64 a b = (if b AND 63 = 0 then None else Some (word_rotl ?n a))"
    using n word_rotl_shifts [OF _ unat_and_63, of b a]
    by (simp add: rol64_def shl64_and_63) (simp add: shr64_def complement_shift unat_64_minus Let_def)
  have ror: "ror64 a b = (if b AND 63 = 0 then None else Some (word_rotr ?n a))"
    using n word_rotr_shifts [OF _ unat_and_63, of b a]
    by (simp add: ror64_def shr64_and_63) (simp add: shl64_def complement_shift unat_64_minus Let_def)
  have sar: "sar64 a b = (if b AND 63 = 0 \<and> bit a 63 then None else Some (signed_drop_bit ?n a))"
    unfolding sar64_def and_sign_bit Let_def shr64_and_63 shl64_def complement_shift
    using signed_drop_bit_shifts [OF unat_and_63, of b a] by (simp add: unat_64_minus)
  show ?thesis
    by (cases x) (simp_all add: fold_binary_def fold_undefined_def binop_sem_def rol ror sar shl64_and_63 shr64_and_63)
qed

lemma fold_unary_eq:
  "fold_unary x a =
     (if \<not> op_is_foldable_unary x then Some None
      else if x = Op_NEG \<and> a = push_bit 63 1 then None
      else Some (Some (unop_sem x a)))"
  by (cases x) (simp_all add: fold_unary_def neg64_eq bswap64_def unop_sem_def)

subsection \<open>Constant folding keeps the meaning\<close>

text \<open>An instruction whose evaluation is undefined in C++.\<close>

definition fold_stuck :: "Instruction \<Rightarrow> bool" where
  "fold_stuck i =
     (case operands i of
        [Const a _, Const b _] \<Rightarrow> fold_undefined (op i) a b
      | [Const a _] \<Rightarrow> op i = Op_NEG \<and> a = push_bit 63 1
      | _ \<Rightarrow> False)"

lemma length_2_conv: "length xs = 2 \<longleftrightarrow> (\<exists>a b. xs = [a, b])"
  by (auto simp: length_Suc_conv numeral_eq_Suc)

lemma length_3_conv: "length xs = 3 \<longleftrightarrow> (\<exists>a b c. xs = [a, b, c])"
  by (auto simp: length_Suc_conv numeral_eq_Suc)

lemma length_1_conv: "length xs = Suc 0 \<longleftrightarrow> (\<exists>a. xs = [a])"
  by (auto simp: length_Suc_conv)

lemma const_fold_step_cases:
  assumes "const_fold_step im d r i = res"
  obtains (same) "res = Some (i, False)" "\<not> fold_stuck i"
  | (stuck) "res = None" "fold_stuck i"
  | (binary) a ab b bb where "op_is_foldable_binary (op i)" "operands i = [Const a ab, Const b bb]"
      "res = Some ((emplace_ann ''folded_from'' (op_name (op i)) i)
         \<lparr>op := Op_CONST, operands := [Const (binop_sem (op i) a b) (max ab bb)]\<rparr>, True)" "\<not> fold_stuck i"
  | (unary) a ab where "op_is_foldable_unary (op i)" "operands i = [Const a ab]"
      "res = Some ((emplace_ann ''folded_from'' (op_name (op i)) i)
         \<lparr>op := Op_CONST, operands := [Const (unop_sem (op i) a) ab]\<rparr>, True)" "\<not> fold_stuck i"
  | (select) c cb a b where "op i = Op_SELECT" "operands i = [Const c cb, a, b]"
      "res = Some ((emplace_ann ''folded_from'' ''SELECT'' i)
         \<lparr>op := Op_PASSTHROUGH, operands := [if c \<noteq> 0 then a else b]\<rparr>, True)" "\<not> fold_stuck i"
proof (cases "op_is_foldable_binary (op i) \<and> length (operands i) = 2")
  case True
  then obtain u v where uv: "operands i = [u, v]" by (auto simp: length_2_conv)
  show ?thesis
  proof (cases "\<exists>a ab b bb. u = Const a ab \<and> v = Const b bb")
    case False
    then have "res = Some (i, False)" "\<not> fold_stuck i"
      using assms True uv
      by (auto simp: const_fold_step_def fold_stuck_def split: option.splits prod.splits Value.splits)
    then show ?thesis by (rule same)
  next
    case True': True
    then obtain a ab b bb where c: "u = Const a ab" "v = Const b bb" by blast
    show ?thesis
    proof (cases "fold_undefined (op i) a b")
      case True'': True
      with assms True uv c show ?thesis
        by (intro stuck) (auto simp: const_fold_step_def fold_stuck_def fold_binary_eq)
    next
      case False
      with assms True uv c show ?thesis
        by (intro binary [of a ab b bb]) (auto simp: const_fold_step_def fold_stuck_def fold_binary_eq)
    qed
  qed
next
  case not_bin: False
  show ?thesis
  proof (cases "op_is_foldable_unary (op i) \<and> length (operands i) = 1")
    case True
    then obtain u where u: "operands i = [u]" by (auto simp: length_1_conv)
    show ?thesis
    proof (cases "\<exists>a ab. u = Const a ab")
      case False
      then have "res = Some (i, False)" "\<not> fold_stuck i"
        using assms True u not_bin
        by (auto simp: const_fold_step_def fold_stuck_def split: option.splits Value.splits)
      then show ?thesis by (rule same)
    next
      case True': True
      then obtain a ab where c: "u = Const a ab" by blast
      show ?thesis
      proof (cases "op i = Op_NEG \<and> a = push_bit 63 1")
        case True'': True
        with assms True u c show ?thesis
          by (intro stuck) (auto simp: const_fold_step_def fold_stuck_def fold_unary_eq)
      next
        case False
        with assms True u c not_bin show ?thesis
          by (intro unary [of a ab]) (auto simp: const_fold_step_def fold_stuck_def fold_unary_eq)
      qed
    qed
  next
    case not_un: False
    have nf: "\<not> fold_stuck i"
      using not_bin not_un
      by (auto simp: fold_stuck_def fold_undefined_def split: list.splits Value.splits)
    show ?thesis
    proof (cases "\<exists>c cb a b. op i = Op_SELECT \<and> operands i = [Const c cb, a, b]")
      case True
      then obtain c cb a b where sel: "op i = Op_SELECT" "operands i = [Const c cb, a, b]" by blast
      with assms nf show ?thesis
        by (intro select [of c cb a b]) (auto simp: const_fold_step_def Let_def)
    next
      case False
      then have "res = Some (i, False)"
        using assms not_bin not_un
        by (auto simp: const_fold_step_def length_3_conv split: option.splits)
      with nf show ?thesis by (intro same)
    qed
  qed
qed

interpretation fold: rewrite_pass const_fold_step
proof unfold_locales
  fix im d r x x' c E s
  show "const_fold_step im d r x = Some (x', c) \<Longrightarrow> result_id x' = result_id x"
    by (erule const_fold_step_cases) auto
  show "const_fold_step im d r x = Some (x', False) \<Longrightarrow> x' = x"
    by (erule const_fold_step_cases) auto
  assume step: "const_fold_step im d r x = Some (x', c)"
  show "exec_instr E s x' = exec_instr E s x \<and> set (ref_ids x') \<subseteq> set (ref_ids x) \<union> refs d"
    using step
  proof (cases rule: const_fold_step_cases)
    case (binary a ab b bb)
    then have "exec_instr E s x' = exec_instr E s x"
      by (intro exec_instr_plainI) (auto simp: foldable_plain pure_result_def)
    with binary show ?thesis by (simp add: ref_ids_val_refs)
  next
    case (unary a ab)
    then have "exec_instr E s x' = exec_instr E s x"
      by (intro exec_instr_plainI) (auto simp: foldable_plain pure_result_def)
    with unary show ?thesis by (simp add: ref_ids_val_refs)
  next
    case (select cc cb a b)
    then have "exec_instr E s x' = exec_instr E s x"
      by (intro exec_instr_plainI) (auto simp: pure_result_def)
    with select show ?thesis by (auto simp: ref_ids_val_refs)
  qed auto
qed

lemma const_fold_step_stuck: "const_fold_step im d r i = None \<longleftrightarrow> fold_stuck i"
  by (rule const_fold_step_cases [of im d r i, OF refl]) auto

lemma for_each_const_fold_stuck:
  "for_each_instr (const_fold_step im) d r ch = None \<longleftrightarrow> list_ex fold_stuck r"
proof (induction r arbitrary: d ch)
  case (Cons x r)
  show ?case
  proof (cases "const_fold_step im d r x")
    case None
    then show ?thesis using const_fold_step_stuck [of im d r x] by simp
  next
    case (Some res)
    obtain x' c where "res = (x', c)" by force
    with Some Cons.IH const_fold_step_stuck [of im d r x] show ?thesis by simp
  qed
qed simp

lemma const_fold_pass_stuck: "const_fold_pass f = None \<longleftrightarrow> list_ex fold_stuck (instrs f)"
  using for_each_const_fold_stuck [of _ "[]" "instrs f" False]
  by (cases "for_each_instr (const_fold_step (build_instr_map (instrs f))) [] (instrs f) False")
    (auto simp: const_fold_pass_def run_pass_def)

subsection \<open>Pass 7: branch folding\<close>

definition branch_fold_step :: rewrite_step where
  "branch_fold_step im pre rest i =
     (if op i = Op_CJMP \<and> operands i \<noteq> [] then
        (case get_const (operands i ! 0) of
           Some (c, _) \<Rightarrow>
             Some (i\<lparr>op := if c \<noteq> 0 then Op_JMP else Op_NOP, operands := tl (operands i)\<rparr>, True)
         | None \<Rightarrow> Some (i, False))
      else Some (i, False))"

definition branch_fold_pass :: "Function \<Rightarrow> (Function \<times> bool) option" where
  "branch_fold_pass f = run_pass branch_fold_step f"

lemma branch_fold_step_cases:
  assumes "branch_fold_step im d r i = res"
  obtains (same) "res = Some (i, False)"
  | (fold) c b vs where "op i = Op_CJMP" "operands i = Const c b # vs"
      "res = Some (i\<lparr>op := if c \<noteq> 0 then Op_JMP else Op_NOP, operands := vs\<rparr>, True)"
proof (cases "\<exists>c b vs. op i = Op_CJMP \<and> operands i = Const c b # vs")
  case True
  then obtain c b vs where "op i = Op_CJMP" "operands i = Const c b # vs" by blast
  with assms show ?thesis by (intro fold [of c b vs]) (auto simp: branch_fold_step_def)
next
  case False
  with assms have "res = Some (i, False)"
    by (cases "operands i") (auto simp: branch_fold_step_def split: option.splits)
  then show ?thesis by (rule same)
qed

interpretation branch: total_rewrite_pass branch_fold_step
proof unfold_locales
  fix im d r x x' c E s
  show "branch_fold_step im d r x = Some (x', c) \<Longrightarrow> result_id x' = result_id x"
    by (erule branch_fold_step_cases) auto
  show "branch_fold_step im d r x = Some (x', False) \<Longrightarrow> x' = x"
    by (erule branch_fold_step_cases) auto
  show "\<exists>res. branch_fold_step im d r x = Some res"
    by (rule branch_fold_step_cases [of im d r x, OF refl]) auto
  assume step: "branch_fold_step im d r x = Some (x', c)"
  show "exec_instr E s x' = exec_instr E s x \<and> set (ref_ids x') \<subseteq> set (ref_ids x) \<union> refs d"
    using step
  proof (cases rule: branch_fold_step_cases)
    case (fold k b vs)
    then have "exec_instr E s x' = exec_instr E s x"
      by (intro exec_instr_eqI) (auto simp: result_of_def pure_result_def memory_after_def events_of_def)
    with fold show ?thesis by (auto simp: ref_ids_val_refs)
  qed simp
qed

subsection \<open>Properties\<close>

text \<open>Property C15. The evaluation of the folder agrees with the 64-bit meaning of every foldable
  opcode, masking shift counts to six bits, exactly where C++ defines it: a rotate by a
  multiple of 64, an arithmetic shift of a negative value by one, and the negation of the
  least 64-bit integer are undefined, every other opcode is left unfolded.\<close>

theorem fold_evaluation_correct:
  "fold_binary x a b =
     (if \<not> op_is_foldable_binary x then Some None
      else if fold_undefined x a b then None
      else Some (Some (binop_sem x a b)))
   \<and> fold_unary x a =
     (if \<not> op_is_foldable_unary x then Some None
      else if x = Op_NEG \<and> a = push_bit 63 1 then None
      else Some (Some (unop_sem x a)))"
  using fold_binary_eq fold_unary_eq by blast

text \<open>Constant promotion always ends with a defined result on single-assignment
  functions, and the result keeps the ids, single assignment, and from every start the final
  values, memory and trace.\<close>

theorem const_promote_correct:
  assumes "ssa (instrs f)"
  shows "\<exists>f' ch. const_promote_pass f = Some (f', ch) \<and> same_computation f f' \<and> (\<not> ch \<longrightarrow> f' = f)"
  using promote.pass_defined [OF assms] promote.pass_sound [OF _ assms] promote.pass_unchanged
  unfolding const_promote_pass_def by (metis (full_types))

theorem const_promote_correct_witness:
  "\<exists>f'. const_promote_pass \<lparr>fn_name = ''f'', instrs = [instr0 Op_CONST [Const64 5] 0,
            instr0 Op_PASSTHROUGH [InstrRef 0] 1, instr0 Op_ADD [InstrRef 1, SymReg ''rax''] 2], next_id = 3\<rparr>
       = Some (f', True) \<and> operands (instrs f' ! 2) = [Const64 5, SymReg ''rax'']"
proof -
  let ?f = "\<lparr>fn_name = ''f'', instrs = [instr0 Op_CONST [Const64 5] 0,
      instr0 Op_PASSTHROUGH [InstrRef 0] 1, instr0 Op_ADD [InstrRef 1, SymReg ''rax''] 2], next_id = 3\<rparr>"
  have "ssa (instrs ?f)" by code_simp
  from const_promote_correct [OF this] obtain f' ch where "const_promote_pass ?f = Some (f', ch)" by blast
  moreover have "map_option (\<lambda>(f', ch). (operands (instrs f' ! 2), ch)) (const_promote_pass ?f)
      = Some ([Const64 5, SymReg ''rax''], True)" by code_simp
  ultimately show ?thesis by simp
qed

text \<open>Constant folding has an undefined result exactly when some instruction of the
  function evaluates an undefined case on constant operands; where it is defined, it keeps the
  ids, single assignment, and the final values, memory and trace of every run.\<close>

theorem const_fold_correct:
  "(const_fold_pass f = None \<longleftrightarrow> list_ex fold_stuck (instrs f))
   \<and> (ssa (instrs f) \<longrightarrow> (\<forall>f' ch. const_fold_pass f = Some (f', ch) \<longrightarrow> same_computation f f'))"
  using const_fold_pass_stuck [of f] fold.pass_sound by (auto simp: const_fold_pass_def)

theorem const_fold_correct_witness:
  "\<exists>f'. const_fold_pass \<lparr>fn_name = ''f'', instrs = [instr0 Op_SHL [Const64 1, Const64 65] 0], next_id = 1\<rparr>
       = Some (f', True) \<and> operands (instrs f' ! 0) = [Const64 2]
       \<and> (\<forall>E s. vals (exec E s (instrs f')) 0 = push_bit 1 1)
     \<and> const_fold_pass \<lparr>fn_name = ''f'', instrs = [instr0 Op_NEG [Const64 0x8000000000000000] 0], next_id = 1\<rparr> = None"
proof -
  let ?f = "\<lparr>fn_name = ''f'', instrs = [instr0 Op_SHL [Const64 1, Const64 65] 0], next_id = 1\<rparr>"
  have run: "map_option (\<lambda>(f', ch). (operands (instrs f' ! 0), ch)) (const_fold_pass ?f) = Some ([Const64 2], True)"
    by code_simp
  then obtain f' where f': "const_fold_pass ?f = Some (f', True)" "operands (instrs f' ! 0) = [Const64 2]"
    by auto
  have "ssa (instrs ?f)" by code_simp
  with const_fold_correct [of ?f] f' have "exec E s (instrs f') = exec E s (instrs ?f)" for E s
    by (auto simp: same_computation_def)
  then have "vals (exec E s (instrs f')) 0 = push_bit 1 1" for E s
    by (simp add: result_of_def pure_result_def binop_sem_def)
  moreover have "const_fold_pass \<lparr>fn_name = ''f'', instrs = [instr0 Op_NEG [Const64 0x8000000000000000] 0], next_id = 1\<rparr> = None"
    using const_fold_correct [of "\<lparr>fn_name = ''f'', instrs = [instr0 Op_NEG [Const64 0x8000000000000000] 0], next_id = 1\<rparr>"]
    by (simp add: fold_stuck_def)
  ultimately show ?thesis using f' by blast
qed

text \<open>Branch folding turns a conditional jump on a nonzero constant into a jump to
  its target and one on zero into nothing, and every run of a single-assignment function ends
  in the same state with the same trace.\<close>

theorem branch_fold_correct:
  assumes "ssa (instrs f)"
  shows "\<exists>f' ch. branch_fold_pass f = Some (f', ch) \<and> same_computation f f' \<and> (\<not> ch \<longrightarrow> f' = f)"
  using branch.pass_defined [OF assms] branch.pass_sound [OF _ assms] branch.pass_unchanged
  unfolding branch_fold_pass_def by (metis (full_types))

theorem branch_fold_correct_witness:
  "\<exists>f'. branch_fold_pass \<lparr>fn_name = ''f'', instrs = [instr0 Op_CJMP [Const64 0, Const64 7] 0,
            instr0 Op_CJMP [Const64 9, Const64 7] 1], next_id = 2\<rparr>
       = Some (f', True) \<and> map op (instrs f') = [Op_NOP, Op_JMP]
       \<and> (\<forall>E s. trace (exec E s (instrs f')) = trace s @ [E_Jump [7]])"
proof -
  let ?f = "\<lparr>fn_name = ''f'', instrs = [instr0 Op_CJMP [Const64 0, Const64 7] 0,
            instr0 Op_CJMP [Const64 9, Const64 7] 1], next_id = 2\<rparr>"
  have "ssa (instrs ?f)" by code_simp
  from branch_fold_correct [OF this] obtain f' ch where
    f': "branch_fold_pass ?f = Some (f', ch)" "same_computation ?f f'" by blast
  have "map_option (\<lambda>(f', ch). (map op (instrs f'), ch)) (branch_fold_pass ?f) = Some ([Op_NOP, Op_JMP], True)"
    by code_simp
  with f' show ?thesis by (simp add: same_computation_def events_of_def)
qed

end
