(* ===== verification/Pass_Combine.thy ===== *)
theory Pass_Combine
  imports Pass_Fold
begin

section \<open>Instruction combination (src/passes/transforms.cpp, pass 6)\<close>

text \<open>
  Algebraic identities on one instruction and, through the definition map, on the
  instructions its operands name: neutral and absorbing constants, \<open>x XOR x\<close>, double
  negations, and the mixed boolean-arithmetic pattern \<open>((x AND y) XOR y) OR y = y\<close>. The
  C++ \<^verbatim>\<open>continue\<close> after a rewrite of the first group is the \<open>Some\<close> of
  \<open>combine_identity\<close>; the later groups fall through in order.
\<close>

definition combine_identity :: "Value \<Rightarrow> Instruction \<Rightarrow> Instruction option" where
  "combine_identity rb i =
     (let a = operands i ! 0; b = operands i ! 1; x = op i;
          cb = map_option fst (get_const rb)
      in if (x = Op_XOR \<or> x = Op_SUB) \<and> a = b then
           Some (i\<lparr>op := Op_CONST, operands := [Const64 0]\<rparr>)
         else if cb = Some 0 \<and> (x = Op_AND \<or> x = Op_MUL) then
           Some (i\<lparr>op := Op_CONST, operands := [Const64 0]\<rparr>)
         else if cb = Some (- 1) \<and> x = Op_AND then
           Some (i\<lparr>op := Op_PASSTHROUGH, operands := [a]\<rparr>)
         else if cb = Some 1 \<and> x = Op_MUL then
           Some (i\<lparr>op := Op_PASSTHROUGH, operands := [a]\<rparr>)
         else if cb = Some 0 \<and> x \<in> {Op_ADD, Op_SUB, Op_XOR, Op_OR, Op_SHL, Op_SHR, Op_SAR, Op_ROL, Op_ROR} then
           Some (i\<lparr>op := Op_PASSTHROUGH, operands := [a]\<rparr>)
         else None)"

text \<open>\<^verbatim>\<open>im.find(ref->id)\<close> for an operand, read in the current vector.\<close>

definition find_def :: "(u32 \<Rightarrow> nat option) \<Rightarrow> Instruction list \<Rightarrow> Value \<Rightarrow> Instruction option" where
  "find_def im vec v =
     (case get_instrref v of None \<Rightarrow> None | Some r \<Rightarrow> map_option (\<lambda>k. vec ! k) (im r))"

definition combine_double_unary ::
  "(u32 \<Rightarrow> nat option) \<Rightarrow> Instruction list \<Rightarrow> Instruction \<Rightarrow> Instruction \<times> bool" where
  "combine_double_unary im vec i =
     (if length (operands i) = 1 then
        (case find_def im vec (operands i ! 0) of
           Some inner \<Rightarrow>
             if op inner = op i \<and> length (operands inner) = 1
                \<and> (op i = Op_NOT \<or> op i = Op_NEG \<or> op i = Op_BSWAP)
             then (i\<lparr>op := Op_PASSTHROUGH, operands := [operands inner ! 0]\<rparr>, True)
             else (i, False)
         | None \<Rightarrow> (i, False))
      else (i, False))"

text \<open>\<open>or_a\<close> is defined by an \<^verbatim>\<open>XOR\<close> of \<open>or_b\<close> with an \<^verbatim>\<open>AND\<close> that has \<open>or_b\<close> as
  an operand.\<close>

definition mba_match ::
  "(u32 \<Rightarrow> nat option) \<Rightarrow> Instruction list \<Rightarrow> Value \<Rightarrow> Value \<Rightarrow> bool" where
  "mba_match im vec or_a or_b =
     (case find_def im vec or_a of
        None \<Rightarrow> False
      | Some xor_instr \<Rightarrow>
          op xor_instr = Op_XOR \<and> length (operands xor_instr) = 2 \<and>
          (let xor_b_idx = (if operands xor_instr ! 1 = or_b then Some 1
                            else if operands xor_instr ! 0 = or_b then Some 0 else (None :: nat option))
           in case xor_b_idx of
                None \<Rightarrow> False
              | Some k \<Rightarrow>
                  (case find_def im vec (operands xor_instr ! (1 - k)) of
                     None \<Rightarrow> False
                   | Some and_instr \<Rightarrow>
                       op and_instr = Op_AND \<and> length (operands and_instr) = 2
                       \<and> (operands and_instr ! 0 = or_b \<or> operands and_instr ! 1 = or_b))))"

definition combine_mba ::
  "(u32 \<Rightarrow> nat option) \<Rightarrow> Instruction list \<Rightarrow> Instruction \<Rightarrow> Instruction \<times> bool" where
  "combine_mba im vec i =
     (if op i = Op_OR \<and> length (operands i) = 2 then
        (let a = operands i ! 0; b = operands i ! 1;
             keep = (\<lambda>v. set_ann ''mba_simplified'' ''and_xor_or''
                           (i\<lparr>op := Op_PASSTHROUGH, operands := [v]\<rparr>))
         in if mba_match im vec a b then (keep b, True)
            else if mba_match im vec b a then (keep a, True)
            else (i, False))
      else (i, False))"

definition combine_or_self :: "Instruction \<Rightarrow> Instruction \<times> bool" where
  "combine_or_self i =
     (if op i = Op_OR \<and> length (operands i) = 2 \<and> operands i ! 0 = operands i ! 1
      then (i\<lparr>op := Op_PASSTHROUGH, operands := [operands i ! 1]\<rparr>, True)
      else (i, False))"

text \<open>The groups after the first, in the order of the code. Each later group reads the
  instruction as the earlier ones left it.\<close>

definition combine_rest ::
  "(u32 \<Rightarrow> nat option) \<Rightarrow> Instruction list \<Rightarrow> Instruction list \<Rightarrow> Instruction \<Rightarrow> Instruction \<times> bool" where
  "combine_rest im pre rest i =
     (let (i1, c1) = combine_double_unary im (pre @ i # rest) i;
          (i2, c2) = combine_mba im (pre @ i1 # rest) i1;
          (i3, c3) = combine_or_self i2
      in (i3, c1 \<or> c2 \<or> c3))"

definition insn_combine_step :: rewrite_step where
  "insn_combine_step im pre rest i =
     (if length (operands i) = 2 then
        do { rb \<leftarrow> resolve (pre @ i # rest) im (operands i ! 1);
             Some (case combine_identity rb i of
                     Some i' \<Rightarrow> (i', True)
                   | None \<Rightarrow> combine_rest im pre rest i) }
      else Some (combine_rest im pre rest i))"

definition insn_combine_pass :: "Function \<Rightarrow> (Function \<times> bool) option" where
  "insn_combine_pass f = run_pass insn_combine_step f"

subsection \<open>The identities\<close>

lemma byte_swap_byte_swap: "byte_swap (byte_swap w) = w"
proof -
  have "le_bytes (length (rev (le_bytes 8 w))) (of_le_bytes (rev (le_bytes 8 w)) :: u64) = rev (le_bytes 8 w)"
    by (rule le_bytes_of_le_bytes) simp
  then show ?thesis by (simp add: byte_swap_def of_le_bytes_le_bytes)
qed

lemma unop_sem_involution:
  "x = Op_NOT \<or> x = Op_NEG \<or> x = Op_BSWAP \<Longrightarrow> unop_sem x (unop_sem x a) = a"
  by (auto simp: unop_sem_def byte_swap_byte_swap)

lemma mba_identity: "((x AND y) XOR y) OR y = (y :: u64)"
  by (rule bit_word_eqI) (auto simp: bit_simps)

lemma word_rot_0: "word_rotl 0 (a :: u64) = a" "word_rotr 0 (a :: u64) = a"
  by (rule bit_word_eqI, simp add: bit_word_rotl_iff bit_word_rotr_iff)+

lemma binop_sem_neutral:
  "x \<in> {Op_ADD, Op_SUB, Op_XOR, Op_OR, Op_SHL, Op_SHR, Op_SAR, Op_ROL, Op_ROR} \<Longrightarrow> binop_sem x a 0 = a"
  by (auto simp: binop_sem_def word_rot_0)

lemma pure_result_binary:
  "op_is_foldable_binary x \<Longrightarrow> pure_result E x [a, b] = binop_sem x a b"
  by (cases x) (simp_all add: pure_result_def)

lemma pure_result_unary:
  "op_is_foldable_unary x \<Longrightarrow> pure_result E x [a] = unop_sem x a"
  by (cases x) (simp_all add: pure_result_def)

lemma pure_result_passthrough [simp]: "pure_result E Op_PASSTHROUGH [a] = a"
  by (simp add: pure_result_def)

lemma pure_result_const [simp]: "pure_result E Op_CONST [a] = a"
  by (simp add: pure_result_def)

lemma find_def_earlier:
  assumes "find_def im (d @ t) v = Some y" "im = build_instr_map (d @ t)" "val_refs v \<inter> ids t = {}"
  shows "y \<in> set d \<and> v = InstrRef (result_id y)"
proof -
  from assms(1) obtain j k where j: "v = InstrRef j" "im j = Some k" "y = (d @ t) ! k"
    by (auto simp: find_def_def split: option.splits)
  with assms(3) have "j \<notin> ids t" by simp
  with j assms(2) lookup_earlier [of d t j k] show ?thesis by auto
qed

lemma settled_value:
  assumes "settled E s y" "v = InstrRef (result_id y)" "pure_op (op y)"
  shows "eval_val E s v = pure_result E (op y) (map (eval_val E s) (operands y))"
  using assms by (simp add: settled_def)

text \<open>What a group may do: keep the id and the meaning, and draw its operands from the
  instruction or from earlier ones.\<close>

definition good_rewrite :: "env \<Rightarrow> state \<Rightarrow> Instruction list \<Rightarrow> Instruction \<Rightarrow> Instruction \<Rightarrow> bool" where
  "good_rewrite E s d i i' \<longleftrightarrow> result_id i' = result_id i \<and> exec_instr E s i' = exec_instr E s i
     \<and> set (ref_ids i') \<subseteq> set (ref_ids i) \<union> refs d"

lemma good_rewrite_refl [simp]: "good_rewrite E s d i i"
  by (simp add: good_rewrite_def)

lemma good_rewrite_trans:
  "good_rewrite E s d i j \<Longrightarrow> good_rewrite E s d j k \<Longrightarrow> good_rewrite E s d i k"
  by (auto simp: good_rewrite_def)

lemma good_rewriteI:
  assumes "result_id i' = result_id i" "plain_op (op i)" "plain_op (op i')"
    and "pure_result E (op i') (map (eval_val E s) (operands i')) =
         pure_result E (op i) (map (eval_val E s) (operands i))"
    and "set (ref_ids i') \<subseteq> set (ref_ids i) \<union> refs d"
  shows "good_rewrite E s d i i'"
  using assms exec_instr_plainI [of i' i E s] by (simp add: good_rewrite_def)

lemma combine_identity_good:
  assumes "combine_identity rb i = Some i'" "operands i = [a, b]"
    and "eval_val E s rb = eval_val E s b"
  shows "good_rewrite E s d i i'"
proof -
  have zero: "a AND 0 = (0 :: u64)" for a by simp
  have rb: "get_const rb = Some (k, w) \<Longrightarrow> eval_val E s b = k" for k w
    using assms(3) by simp
  from assms(1,2) consider
      (same) "op i = Op_XOR \<or> op i = Op_SUB" "a = b" "i' = i\<lparr>op := Op_CONST, operands := [Const64 0]\<rparr>"
    | (absorb) w where "op i = Op_AND \<or> op i = Op_MUL" "rb = Const 0 w"
        "i' = i\<lparr>op := Op_CONST, operands := [Const64 0]\<rparr>"
    | (ones) w where "op i = Op_AND" "rb = Const (- 1) w" "i' = i\<lparr>op := Op_PASSTHROUGH, operands := [a]\<rparr>"
    | (one) w where "op i = Op_MUL" "rb = Const 1 w" "i' = i\<lparr>op := Op_PASSTHROUGH, operands := [a]\<rparr>"
    | (neutral) w where "op i \<in> {Op_ADD, Op_SUB, Op_XOR, Op_OR, Op_SHL, Op_SHR, Op_SAR, Op_ROL, Op_ROR}"
        "rb = Const 0 w" "i' = i\<lparr>op := Op_PASSTHROUGH, operands := [a]\<rparr>"
    by (auto simp: combine_identity_def Let_def split: if_splits)
  then show ?thesis
  proof cases
    case same
    with assms(2) show ?thesis
      by (intro good_rewriteI)
        (auto simp: plain_op_def pure_result_binary binop_sem_def ref_ids_val_refs)
  next
    case absorb
    with assms(2,3) show ?thesis
      by (intro good_rewriteI)
        (auto simp: plain_op_def pure_result_binary binop_sem_def ref_ids_val_refs)
  next
    case ones
    then have "eval_val E s b = - 1" using assms(3) by simp
    with ones assms(2) show ?thesis
      by (intro good_rewriteI)
        (auto simp: plain_op_def pure_result_binary binop_sem_def ref_ids_val_refs)
  next
    case one
    with assms(2,3) show ?thesis
      by (intro good_rewriteI)
        (auto simp: plain_op_def pure_result_binary binop_sem_def ref_ids_val_refs)
  next
    case neutral
    then have fb: "op_is_foldable_binary (op i)" by auto
    have "pure_result E (op i) [eval_val E s a, eval_val E s b] = eval_val E s a"
      using neutral assms(3) binop_sem_neutral [OF neutral(1)] by (simp add: pure_result_binary [OF fb])
    with neutral assms(2) fb show ?thesis
      by (intro good_rewriteI) (auto simp: foldable_plain ref_ids_val_refs)
  qed
qed


lemma combine_double_unary_good:
  assumes "combine_double_unary im (d @ i # r) i = (i', c)"
    and "im = build_instr_map (d @ i # r)" "ssa (d @ i # r)" "\<And>y. y \<in> set d \<Longrightarrow> settled E s y"
  shows "good_rewrite E s d i i' \<and> (\<not> c \<longrightarrow> i' = i)"
proof (cases "i' = i \<and> \<not> c")
  case False
  have len: "length (operands i) = 1"
    using assms(1) False by (auto simp: combine_double_unary_def split: if_splits)
  obtain inner where inner: "find_def im (d @ i # r) (operands i ! 0) = Some inner"
    using assms(1) False len
    by (cases "find_def im (d @ i # r) (operands i ! 0)") (auto simp: combine_double_unary_def)
  have c: "op inner = op i" "length (operands inner) = 1"
      "op i = Op_NOT \<or> op i = Op_NEG \<or> op i = Op_BSWAP"
      "i' = i\<lparr>op := Op_PASSTHROUGH, operands := [operands inner ! 0]\<rparr>" "c"
    using assms(1) False len inner by (simp_all add: combine_double_unary_def split: if_splits)
  obtain v where v: "operands i = [v]" using len by (auto simp: length_Suc_conv)
  obtain u where u: "operands inner = [u]" using c(2) by (auto simp: length_Suc_conv)
  have "ssa (i # r)" using assms(3) by (simp only: ssa_append)
  then have "set (ref_ids i) \<inter> ids (i # r) = {}" by (simp only: ssa_Cons_iff)
  then have "val_refs v \<inter> ids (i # r) = {}" using v by (auto simp: ref_ids_val_refs)
  with inner assms(2) v have e: "inner \<in> set d" "v = InstrRef (result_id inner)"
    using find_def_earlier [of im d "i # r" v inner] by auto
  have fu: "op_is_foldable_unary (op i)" using c(3) by auto
  have "eval_val E s v = unop_sem (op i) (eval_val E s u)"
    using settled_value [OF assms(4) [OF e(1)] e(2)] fu c(1) u
    by (simp add: pure_result_unary foldable_plain plain_pure)
  then have "good_rewrite E s d i i'"
    using c(4) v u fu unop_sem_involution [OF c(3)] e(1)
    by (intro good_rewriteI) (auto simp: foldable_plain pure_result_unary ref_ids_val_refs)
  with c(5) show ?thesis by simp
qed simp

lemma either_index:
  "(case (if p then Some 1 else if q then Some 0 else (None :: nat option)) of None \<Rightarrow> False | Some k \<Rightarrow> F k)
   \<Longrightarrow> \<exists>k. (k = 0 \<and> q \<or> k = 1 \<and> p) \<and> F k"
  by (auto split: if_splits)

lemma mba_match_value:
  assumes "mba_match im (d @ i # r) a b"
    and "im = build_instr_map (d @ i # r)" "ssa (d @ i # r)" "\<And>y. y \<in> set d \<Longrightarrow> settled E s y"
    and "val_refs a \<inter> ids (i # r) = {}"
  shows "eval_val E s a OR eval_val E s b = eval_val E s b"
proof -
  from assms(1) obtain xi where xi: "find_def im (d @ i # r) a = Some xi"
    by (cases "find_def im (d @ i # r) a") (simp_all add: mba_match_def)
  with assms(1) have xop: "op xi = Op_XOR" "length (operands xi) = 2"
    and idx: "(case (if operands xi ! 1 = b then Some 1
                     else if operands xi ! 0 = b then Some 0 else (None :: nat option)) of
        None \<Rightarrow> False
      | Some k \<Rightarrow> (case find_def im (d @ i # r) (operands xi ! (1 - k)) of None \<Rightarrow> False
                 | Some ai \<Rightarrow> op ai = Op_AND \<and> length (operands ai) = 2
                     \<and> (operands ai ! 0 = b \<or> operands ai ! 1 = b)))"
    unfolding mba_match_def xi option.case Let_def by blast+
  from either_index [OF idx] obtain k where k: "k = 0 \<or> k = 1" "operands xi ! k = b"
    and found: "(case find_def im (d @ i # r) (operands xi ! (1 - k)) of None \<Rightarrow> False
                 | Some ai \<Rightarrow> op ai = Op_AND \<and> length (operands ai) = 2
                     \<and> (operands ai ! 0 = b \<or> operands ai ! 1 = b))"
    by blast
  from found obtain ai where ai: "find_def im (d @ i # r) (operands xi ! (1 - k)) = Some ai" "op ai = Op_AND"
      "length (operands ai) = 2" "operands ai ! 0 = b \<or> operands ai ! 1 = b"
    by (cases "find_def im (d @ i # r) (operands xi ! (1 - k))") auto
  from find_def_earlier [OF xi assms(2,5)] have x: "xi \<in> set d" "a = InstrRef (result_id xi)" by auto
  obtain p q where pq: "operands xi = [p, q]" using xop(2) by (auto simp: length_2_conv)
  define w where "w = operands xi ! (1 - k)"
  have "w \<in> set (operands xi)" using pq k(1) by (auto simp: w_def nth_Cons')
  then have "val_refs w \<subseteq> set (ref_ids xi)" by (rule val_refs_operand)
  moreover have "set (ref_ids xi) \<inter> ids (i # r) = {}" using assms(3) x(1) unfolding ssa_append by blast
  ultimately have "val_refs w \<inter> ids (i # r) = {}" by blast
  from find_def_earlier [OF ai(1) [folded w_def] assms(2) this]
  have y: "ai \<in> set d" "w = InstrRef (result_id ai)" by auto
  obtain m n where mn: "operands ai = [m, n]" using ai(3) by (auto simp: length_2_conv)
  have aw: "eval_val E s w = eval_val E s m AND eval_val E s n"
    using settled_value [OF assms(4) [OF y(1)] y(2)] ai(2) mn
    by (simp add: pure_op_def pure_result_binary binop_sem_def)
  have xw: "eval_val E s a = eval_val E s p XOR eval_val E s q"
    using settled_value [OF assms(4) [OF x(1)] x(2)] xop(1) pq
    by (simp add: pure_op_def pure_result_binary binop_sem_def)
  have "eval_val E s a = eval_val E s w XOR eval_val E s b"
    using xw pq k by (auto simp: w_def xor.commute)
  with aw ai(4) mn show ?thesis
    using mba_identity [of "eval_val E s m" "eval_val E s b"] mba_identity [of "eval_val E s n" "eval_val E s b"]
    by (auto simp: and.commute)
qed

lemma combine_mba_good:
  assumes "combine_mba im (d @ i # r) i = (i', c)"
    and "im = build_instr_map (d @ i # r)" "ssa (d @ i # r)" "\<And>y. y \<in> set d \<Longrightarrow> settled E s y"
  shows "good_rewrite E s d i i' \<and> (\<not> c \<longrightarrow> i' = i)"
proof (cases "i' = i \<and> \<not> c")
  case False
  with assms(1) have op: "op i = Op_OR" "length (operands i) = 2" and c
    by (auto simp: combine_mba_def Let_def split: if_splits)
  then obtain a b where ab: "operands i = [a, b]" by (auto simp: length_2_conv)
  have "ssa (i # r)" using assms(3) by (simp only: ssa_append)
  then have "set (ref_ids i) \<inter> ids (i # r) = {}" by (simp only: ssa_Cons_iff)
  then have early: "val_refs a \<inter> ids (i # r) = {}" "val_refs b \<inter> ids (i # r) = {}"
    using ab by (auto simp: ref_ids_val_refs)
  from assms(1) False op ab consider
      (ab) "mba_match im (d @ i # r) a b" "i' = set_ann ''mba_simplified'' ''and_xor_or'' (i\<lparr>op := Op_PASSTHROUGH, operands := [b]\<rparr>)"
    | (ba) "mba_match im (d @ i # r) b a" "i' = set_ann ''mba_simplified'' ''and_xor_or'' (i\<lparr>op := Op_PASSTHROUGH, operands := [a]\<rparr>)"
    by (auto simp: combine_mba_def Let_def split: if_splits)
  then have "good_rewrite E s d i i'"
  proof cases
    case ab': ab
    from mba_match_value [OF ab'(1) assms(2-4) early(1)] ab' op(1) ab show ?thesis
      by (intro good_rewriteI)
        (auto simp: plain_op_def pure_result_binary binop_sem_def ref_ids_val_refs)
  next
    case ba
    from mba_match_value [OF ba(1) assms(2-4) early(2)] ba op(1) ab show ?thesis
      by (intro good_rewriteI)
        (auto simp: plain_op_def pure_result_binary binop_sem_def ref_ids_val_refs or.commute)
  qed
  with \<open>c\<close> show ?thesis by simp
qed simp

lemma combine_or_self_good:
  assumes "combine_or_self i = (i', c)"
  shows "good_rewrite E s d i i' \<and> (\<not> c \<longrightarrow> i' = i)"
proof (cases "i' = i \<and> \<not> c")
  case False
  with assms have op: "op i = Op_OR" "length (operands i) = 2" "operands i ! 0 = operands i ! 1"
      "i' = i\<lparr>op := Op_PASSTHROUGH, operands := [operands i ! 1]\<rparr>" "c"
    by (auto simp: combine_or_self_def split: if_splits)
  obtain a where "operands i = [a, a]" using op(2,3) by (auto simp: length_2_conv)
  with op show ?thesis
    by (auto intro!: good_rewriteI simp: plain_op_def pure_result_binary binop_sem_def ref_ids_val_refs)
qed simp

lemma good_rewrite_context:
  assumes "good_rewrite E s d i i'" "im = build_instr_map (d @ i # r)" "ssa (d @ i # r)"
  shows "im = build_instr_map (d @ i' # r)" "ssa (d @ i' # r)"
  using assms ssa_replace [OF assms(3), of i'] by (auto simp: good_rewrite_def intro: build_instr_map_cong)

lemma combine_rest_good:
  assumes "combine_rest im d r i = (i', c)"
    and "im = build_instr_map (d @ i # r)" "ssa (d @ i # r)" "\<And>y. y \<in> set d \<Longrightarrow> settled E s y"
  shows "good_rewrite E s d i i' \<and> (\<not> c \<longrightarrow> i' = i)"
proof -
  obtain i1 c1 where s1: "combine_double_unary im (d @ i # r) i = (i1, c1)" by force
  obtain i2 c2 where s2: "combine_mba im (d @ i1 # r) i1 = (i2, c2)" by force
  obtain i3 c3 where s3: "combine_or_self i2 = (i3, c3)" by force
  from assms(1) s1 s2 s3 have res: "i' = i3" "c = (c1 \<or> c2 \<or> c3)" by (auto simp: combine_rest_def)
  from combine_double_unary_good [OF s1 assms(2-4)]
  have g1: "good_rewrite E s d i i1" "\<not> c1 \<longrightarrow> i1 = i" by auto
  from combine_mba_good [OF s2 good_rewrite_context [OF g1(1) assms(2,3)] assms(4)]
  have g2: "good_rewrite E s d i1 i2" "\<not> c2 \<longrightarrow> i2 = i1" by auto
  from combine_or_self_good [OF s3]
  have g3: "good_rewrite E s d i2 i3" "\<not> c3 \<longrightarrow> i3 = i2" by auto
  show ?thesis using g1 g2 g3 res by (blast intro: good_rewrite_trans)
qed

lemma combine_rest_frame:
  assumes "combine_rest im d r i = (i', c)"
  shows "result_id i' = result_id i \<and> (\<not> c \<longrightarrow> i' = i)"
proof -
  obtain i1 c1 where s1: "combine_double_unary im (d @ i # r) i = (i1, c1)" by force
  obtain i2 c2 where s2: "combine_mba im (d @ i1 # r) i1 = (i2, c2)" by force
  obtain i3 c3 where s3: "combine_or_self i2 = (i3, c3)" by force
  have "result_id i1 = result_id i \<and> (\<not> c1 \<longrightarrow> i1 = i)"
    using s1 by (auto simp: combine_double_unary_def split: if_splits option.splits)
  moreover have "result_id i2 = result_id i1 \<and> (\<not> c2 \<longrightarrow> i2 = i1)"
    using s2 by (auto simp: combine_mba_def Let_def split: if_splits)
  moreover have "result_id i3 = result_id i2 \<and> (\<not> c3 \<longrightarrow> i3 = i2)"
    using s3 by (auto simp: combine_or_self_def split: if_splits)
  ultimately show ?thesis using assms s1 s2 s3 by (auto simp: combine_rest_def)
qed

lemma combine_identity_frame: "combine_identity rb i = Some i' \<Longrightarrow> result_id i' = result_id i"
  by (auto simp: combine_identity_def Let_def split: if_splits)

interpretation combine: total_rewrite_pass insn_combine_step
proof unfold_locales
  fix im d r x x' c E s
  show "insn_combine_step im d r x = Some (x', c) \<Longrightarrow> result_id x' = result_id x"
    by (auto simp: insn_combine_step_def split: if_splits option.splits elim!: bind_SomeE
        dest: combine_rest_frame combine_identity_frame)
  show "insn_combine_step im d r x = Some (x', False) \<Longrightarrow> x' = x"
    by (auto simp: insn_combine_step_def split: if_splits option.splits elim!: bind_SomeE
        dest: combine_rest_frame)
  assume im: "im = build_instr_map (d @ x # r)" and ssa: "ssa (d @ x # r)"
  show "\<exists>res. insn_combine_step im d r x = Some res"
    using resolve_defined [OF ssa, of "operands x ! 1"] im by (auto simp: insn_combine_step_def)
  assume step: "insn_combine_step im d r x = Some (x', c)"
    and st: "\<And>y. y \<in> set d \<Longrightarrow> settled E s y"
  have "good_rewrite E s d x x'"
  proof (cases "length (operands x) = 2")
    case False
    with step have "combine_rest im d r x = (x', c)" by (simp add: insn_combine_step_def)
    from combine_rest_good [OF this im ssa st] show ?thesis by simp
  next
    case True
    then obtain a b where ab: "operands x = [a, b]" by (auto simp: length_2_conv)
    from step True ab obtain rb where rb: "resolve (d @ x # r) im b = Some rb"
      and res: "(case combine_identity rb x of Some i' \<Rightarrow> (i', True) | None \<Rightarrow> combine_rest im d r x) = (x', c)"
      by (auto simp: insn_combine_step_def elim!: bind_SomeE)
    have "ssa (x # r)" using ssa by (simp only: ssa_append)
    then have "set (ref_ids x) \<inter> ids (x # r) = {}" by (simp only: ssa_Cons_iff)
    then have "val_refs b \<inter> ids (x # r) = {}" using ab by (auto simp: ref_ids_val_refs)
    from resolve_sound [OF rb im ssa this st] have e: "eval_val E s rb = eval_val E s b" by simp
    show ?thesis
    proof (cases "combine_identity rb x")
      case None
      with res combine_rest_good [OF _ im ssa st] show ?thesis by simp
    next
      case (Some i')
      with res combine_identity_good [OF Some ab e] show ?thesis by simp
    qed
  qed
  then show "exec_instr E s x' = exec_instr E s x \<and> set (ref_ids x') \<subseteq> set (ref_ids x) \<union> refs d"
    by (simp add: good_rewrite_def)
qed

subsection \<open>Properties\<close>

text \<open>Property C6. Instruction combination always ends with a defined result on single-assignment
  functions, and every algebraic rewrite it makes (neutral and absorbing constants, equal
  operands, double negation, the boolean-arithmetic pattern) keeps the ids, single assignment,
  and the final values, memory and trace of every run.\<close>

theorem insn_combine_correct:
  assumes "ssa (instrs f)"
  shows "\<exists>f' ch. insn_combine_pass f = Some (f', ch) \<and> same_computation f f' \<and> (\<not> ch \<longrightarrow> f' = f)"
  using combine.pass_defined [OF assms] combine.pass_sound [OF _ assms] combine.pass_unchanged
  unfolding insn_combine_pass_def by (metis (full_types))

theorem insn_combine_correct_witness:
  "\<exists>f'. insn_combine_pass \<lparr>fn_name = ''f'', instrs = [instr0 Op_AND [SymReg ''a'', SymReg ''b''] 0,
            instr0 Op_XOR [InstrRef 0, SymReg ''b''] 1, instr0 Op_OR [InstrRef 1, SymReg ''b''] 2], next_id = 3\<rparr>
       = Some (f', True) \<and> op (instrs f' ! 2) = Op_PASSTHROUGH \<and> operands (instrs f' ! 2) = [SymReg ''b'']
       \<and> (\<forall>E s. exec E s (instrs f') = exec E s [instr0 Op_AND [SymReg ''a'', SymReg ''b''] 0,
            instr0 Op_XOR [InstrRef 0, SymReg ''b''] 1, instr0 Op_OR [InstrRef 1, SymReg ''b''] 2])"
proof -
  let ?f = "\<lparr>fn_name = ''f'', instrs = [instr0 Op_AND [SymReg ''a'', SymReg ''b''] 0,
            instr0 Op_XOR [InstrRef 0, SymReg ''b''] 1, instr0 Op_OR [InstrRef 1, SymReg ''b''] 2], next_id = 3\<rparr>"
  have "ssa (instrs ?f)" by code_simp
  from insn_combine_correct [OF this] obtain f' ch where
    f': "insn_combine_pass ?f = Some (f', ch)" "same_computation ?f f'" by blast
  have "map_option (\<lambda>(f', ch). (op (instrs f' ! 2), operands (instrs f' ! 2), ch)) (insn_combine_pass ?f)
      = Some (Op_PASSTHROUGH, [SymReg ''b''], True)"
    by code_simp
  with f' show ?thesis by (simp add: same_computation_def)
qed

end
