(* ===== verification/Pass_Memory.thy ===== *)
theory Pass_Memory
  imports Pass_Core
begin

section \<open>Memory forwarding and dead stores (src/passes/transforms.cpp, passes 3 and 4)\<close>

text \<open>
  The two passes over memory operations. Forwarding remembers the last value stored under a
  constant address or under a reference used as address, and turns a load from the same
  constant or reference into that value. It never forgets an entry: neither a store whose
  address overlaps nor a call invalidates one, so it is correct for runs in which the
  stores do not overlap unless they name the same slot. Dead store elimination walks
  backwards over the operations annotated \<^verbatim>\<open>vm_private\<close>.
\<close>

subsection \<open>Pass 3: memory forwarding\<close>

definition forward_load :: "Value \<Rightarrow> Instruction \<Rightarrow> Instruction" where
  "forward_load v i =
     set_ann ''forwarded'' ''1''
       (i\<lparr>op := if is_const v then Op_CONST else Op_PASSTHROUGH, operands := [v]\<rparr>)"

fun mem_forward_loop ::
  "(u64 \<Rightarrow> Value option) \<Rightarrow> (u32 \<Rightarrow> Value option) \<Rightarrow> Instruction list \<Rightarrow> Instruction list \<times> bool" where
  "mem_forward_loop last_store_const last_store_ref [] = ([], False)"
| "mem_forward_loop last_store_const last_store_ref (i # is) =
     (if op i = Op_STORE \<and> length (operands i) = 2 then
        (let (is', ch) =
           (case get_const (operands i ! 0) of
              Some (addr, _) \<Rightarrow>
                mem_forward_loop (last_store_const(addr \<mapsto> operands i ! 1)) last_store_ref is
            | None \<Rightarrow>
                (case get_instrref (operands i ! 0) of
                   Some r \<Rightarrow> mem_forward_loop last_store_const (last_store_ref(r \<mapsto> operands i ! 1)) is
                 | None \<Rightarrow> mem_forward_loop last_store_const last_store_ref is))
         in (i # is', ch))
      else if op i = Op_LOAD \<and> length (operands i) = 1 then
        (let hit = (case get_const (operands i ! 0) of
                      Some (addr, _) \<Rightarrow> last_store_const addr
                    | None \<Rightarrow>
                        (case get_instrref (operands i ! 0) of
                           Some r \<Rightarrow> last_store_ref r
                         | None \<Rightarrow> None));
             (is', ch) = mem_forward_loop last_store_const last_store_ref is
         in case hit of
              Some v \<Rightarrow> (forward_load v i # is', True)
            | None \<Rightarrow> (i # is', ch))
      else (let (is', ch) = mem_forward_loop last_store_const last_store_ref is in (i # is', ch)))"

definition mem_forward_pass :: "Function \<Rightarrow> Function \<times> bool" where
  "mem_forward_pass f =
     (let (is, ch) = mem_forward_loop Map.empty Map.empty (instrs f) in (f\<lparr>instrs := is\<rparr>, ch))"

subsection \<open>Runs whose stores do not overlap\<close>

definition is_store :: "Instruction \<Rightarrow> bool" where
  "is_store i \<longleftrightarrow> op i = Op_STORE \<and> length (operands i) = 2"

definition store_addrs :: "Instruction list \<Rightarrow> Value list" where
  "store_addrs is = map (\<lambda>i. operands i ! 0) (filter is_store is)"

text \<open>Two address operands under which the pass keeps one and the same entry (or none).\<close>

definition same_slot :: "Value \<Rightarrow> Value \<Rightarrow> bool" where
  "same_slot a b \<longleftrightarrow> a = b \<or> (\<exists>c v w. a = Const c v \<and> b = Const c w)"

definition stores_separate :: "env \<Rightarrow> state \<Rightarrow> Instruction list \<Rightarrow> bool" where
  "stores_separate E s is \<longleftrightarrow>
     (let t = exec E s is
      in \<forall>a \<in> set (store_addrs is). \<forall>b \<in> set (store_addrs is).
           same_slot a b \<or> apart 8 (eval_val E t a) 8 (eval_val E t b))"

definition no_calls :: "Instruction list \<Rightarrow> bool" where
  "no_calls is \<longleftrightarrow> list_all (\<lambda>i. op i \<noteq> Op_CALL) is"

lemma store_addrs_simps [simp]:
  "store_addrs [] = []"
  "store_addrs (i # is) = (if is_store i then operands i ! 0 # store_addrs is else store_addrs is)"
  "store_addrs (is @ js) = store_addrs is @ store_addrs js"
  by (simp_all add: store_addrs_def)

lemma same_slot_eval: "same_slot a b \<Longrightarrow> eval_val E s a = eval_val E s b"
  by (auto simp: same_slot_def)

definition slot_lookup :: "(u64 \<Rightarrow> Value option) \<Rightarrow> (u32 \<Rightarrow> Value option) \<Rightarrow> Value \<Rightarrow> Value option" where
  "slot_lookup cm rm a =
     (case get_const a of
        Some (addr, _) \<Rightarrow> cm addr
      | None \<Rightarrow> (case get_instrref a of Some r \<Rightarrow> rm r | None \<Rightarrow> None))"

definition slot_update ::
  "(u64 \<Rightarrow> Value option) \<Rightarrow> (u32 \<Rightarrow> Value option) \<Rightarrow> Value \<Rightarrow> Value
   \<Rightarrow> (u64 \<Rightarrow> Value option) \<times> (u32 \<Rightarrow> Value option)" where
  "slot_update cm rm a v =
     (case get_const a of
        Some (addr, _) \<Rightarrow> (cm(addr \<mapsto> v), rm)
      | None \<Rightarrow> (case get_instrref a of Some r \<Rightarrow> (cm, rm(r \<mapsto> v)) | None \<Rightarrow> (cm, rm)))"

lemma slot_lookup_update:
  "slot_update cm rm a v = (cm', rm') \<Longrightarrow> slot_lookup cm' rm' b = Some w \<Longrightarrow>
     same_slot b a \<and> w = v \<or> \<not> same_slot b a \<and> slot_lookup cm rm b = Some w"
  by (cases a; cases b) (auto simp: slot_update_def slot_lookup_def same_slot_def split: if_splits)

lemma mem_forward_loop_Cons:
  "mem_forward_loop cm rm (i # is) =
     (if is_store i then
        (let (cm', rm') = slot_update cm rm (operands i ! 0) (operands i ! 1);
             (is', ch) = mem_forward_loop cm' rm' is
         in (i # is', ch))
      else if op i = Op_LOAD \<and> length (operands i) = 1 then
        (let (is', ch) = mem_forward_loop cm rm is
         in case slot_lookup cm rm (operands i ! 0) of
              Some v \<Rightarrow> (forward_load v i # is', True)
            | None \<Rightarrow> (i # is', ch))
      else (let (is', ch) = mem_forward_loop cm rm is in (i # is', ch)))"
  by (cases "operands i ! 0")
    (simp_all add: is_store_def slot_update_def slot_lookup_def split: option.splits)

declare mem_forward_loop.simps(2) [simp del]

text \<open>What the two maps say about the memory after the instructions already passed.\<close>

definition forward_inv ::
  "env \<Rightarrow> state \<Rightarrow> Instruction list \<Rightarrow> (u64 \<Rightarrow> Value option) \<Rightarrow> (u32 \<Rightarrow> Value option) \<Rightarrow> bool" where
  "forward_inv E s pre cm rm \<longleftrightarrow>
     (\<forall>a v. slot_lookup cm rm a = Some v \<longrightarrow>
        (\<exists>b \<in> set (store_addrs pre). same_slot a b)
        \<and> rd64 (mem (exec E s pre)) (eval_val E (exec E s pre) a) = eval_val E (exec E s pre) v
        \<and> val_refs a \<subseteq> refs pre \<and> val_refs v \<subseteq> refs pre)"

lemma eval_early:
  assumes "ssa (pre @ i # r)" "val_refs v \<subseteq> refs pre"
  shows "eval_val E (exec_instr E s i) v = eval_val E s v"
proof (rule eval_val_exec_instr)
  have "refs pre \<inter> ids (i # r) = {}" using assms(1) unfolding ssa_append by blast
  with assms(2) show "v \<noteq> InstrRef (result_id i)" by auto
qed

lemma eval_early_all:
  assumes "ssa (pre @ r)" "val_refs v \<subseteq> refs pre"
  shows "eval_val E (exec E s r) v = eval_val E s v"
proof (rule eval_val_exec)
  fix j assume "v = InstrRef j"
  moreover have "refs pre \<inter> ids r = {}" using assms(1) unfolding ssa_append by blast
  ultimately show "j \<notin> ids r" using assms(2) by auto
qed

lemma forward_inv_frame:
  assumes inv: "forward_inv E s pre cm rm" and ssa: "ssa (pre @ i # r)"
    and quiet: "\<not> is_store i" "op i \<noteq> Op_CALL"
  shows "forward_inv E s (pre @ [i]) cm rm"
  unfolding forward_inv_def
proof (intro allI impI)
  fix a v assume "slot_lookup cm rm a = Some v"
  with inv have a: "\<exists>b \<in> set (store_addrs pre). same_slot a b"
      "rd64 (mem (exec E s pre)) (eval_val E (exec E s pre) a) = eval_val E (exec E s pre) v"
      "val_refs a \<subseteq> refs pre" "val_refs v \<subseteq> refs pre"
    by (auto simp: forward_inv_def)
  have "mem (exec_instr E (exec E s pre) i) = mem (exec E s pre)"
    using quiet by (auto simp: memory_after_def is_store_def)
  with a eval_early [OF ssa a(3)] eval_early [OF ssa a(4)]
  show "(\<exists>b \<in> set (store_addrs (pre @ [i])). same_slot a b)
      \<and> rd64 (mem (exec E s (pre @ [i]))) (eval_val E (exec E s (pre @ [i])) a) = eval_val E (exec E s (pre @ [i])) v
      \<and> val_refs a \<subseteq> refs (pre @ [i]) \<and> val_refs v \<subseteq> refs (pre @ [i])"
    by auto
qed

lemma forward_inv_store:
  assumes inv: "forward_inv E s pre cm rm" and ssa: "ssa (pre @ i # r)" and st: "is_store i"
    and sep: "stores_separate E s (pre @ i # r)"
    and upd: "slot_update cm rm (operands i ! 0) (operands i ! 1) = (cm', rm')"
  shows "forward_inv E s (pre @ [i]) cm' rm'"
  unfolding forward_inv_def
proof (intro allI impI)
  let ?s = "exec E s pre" and ?t = "exec E s (pre @ [i])"
  fix b w assume b: "slot_lookup cm' rm' b = Some w"
  obtain x y where xy: "operands i = [x, y]" and op: "op i = Op_STORE"
    using st by (auto simp: is_store_def length_Suc_conv numeral_eq_Suc)
  have ri: "val_refs x \<subseteq> set (ref_ids i)" "val_refs y \<subseteq> set (ref_ids i)"
    using xy by (auto simp: ref_ids_val_refs)
  have "ssa (i # r)" using ssa by (simp only: ssa_append)
  then have "result_id i \<notin> set (ref_ids i)" unfolding ssa_Cons_iff by auto
  then have ex: "eval_val E ?t x = eval_val E ?s x" "eval_val E ?t y = eval_val E ?s y"
    using ri by (auto intro!: eval_val_exec_instr)
  have m: "mem ?t = wr64 (mem ?s) (eval_val E ?s x) (eval_val E ?s y)"
    using op xy by (simp add: memory_after_def)
  from slot_lookup_update [OF upd [unfolded xy, simplified] b] consider
      (here) "same_slot b x" "w = y" | (other) "\<not> same_slot b x" "slot_lookup cm rm b = Some w"
    by auto
  then show "(\<exists>b' \<in> set (store_addrs (pre @ [i])). same_slot b b')
      \<and> rd64 (mem ?t) (eval_val E ?t b) = eval_val E ?t w
      \<and> val_refs b \<subseteq> refs (pre @ [i]) \<and> val_refs w \<subseteq> refs (pre @ [i])"
  proof cases
    case here
    have "val_refs b \<subseteq> val_refs x" using here(1) by (auto simp: same_slot_def)
    with here ri st xy m ex same_slot_eval [OF here(1)] show ?thesis
      by (auto simp: rd64_wr64)
  next
    case other
    with inv have o: "\<exists>b' \<in> set (store_addrs pre). same_slot b b'"
        "rd64 (mem ?s) (eval_val E ?s b) = eval_val E ?s w"
        "val_refs b \<subseteq> refs pre" "val_refs w \<subseteq> refs pre"
      by (auto simp: forward_inv_def)
    then obtain b' where b': "b' \<in> set (store_addrs pre)" "same_slot b b'" by blast
    let ?f = "exec E s (pre @ i # r)"
    have "\<not> same_slot x b'" using other(1) b'(2) by (auto simp: same_slot_def)
    then have "apart 8 (eval_val E ?f x) 8 (eval_val E ?f b')"
      using sep b'(1) st xy by (auto simp: stores_separate_def Let_def)
    moreover have "eval_val E ?f x = eval_val E ?s x"
    proof -
      have "ssa ((pre @ [i]) @ r)" using ssa by simp
      from eval_early_all [OF this, of x E ?t] ri(1) ex(1) show ?thesis by auto
    qed
    moreover have "eval_val E ?f b' = eval_val E ?s b"
      using eval_early_all [OF ssa o(3), of E ?s] same_slot_eval [OF b'(2), of E ?f] by simp
    ultimately have "rd64 (mem ?t) (eval_val E ?s b) = rd64 (mem ?s) (eval_val E ?s b)"
      by (simp only: m rd64_wr64)
    with o eval_early [OF ssa o(3)] eval_early [OF ssa o(4)] show ?thesis by auto
  qed
qed


lemma forward_load_ids [simp]: "result_id (forward_load v i) = result_id i"
  by (simp add: forward_load_def)

lemma ref_ids_forward_load: "set (ref_ids (forward_load v i)) = val_refs v"
  by (simp add: ref_ids_val_refs forward_load_def)

lemma forward_load_not_store [simp]: "\<not> is_store (forward_load v i)"
  by (simp add: forward_load_def is_store_def)

lemma forward_load_not_call [simp]: "op (forward_load v i) \<noteq> Op_CALL"
  by (simp add: forward_load_def)

lemma exec_forward_load:
  assumes "op i = Op_LOAD" "operands i = [a]" "rd64 (mem s) (eval_val E s a) = eval_val E s v"
  shows "exec_instr E s (forward_load v i) = exec_instr E s i"
  using assms
  by (intro exec_instr_eqI)
    (simp_all add: forward_load_def result_of_def pure_result_def memory_after_def events_of_def)

text \<open>
  The loop over the rest \<open>r\<close> of the list, with \<open>d\<close> the instructions already passed in the
  form the pass gave them.
\<close>

lemma mem_forward_loop_sound:
  assumes "mem_forward_loop cm rm r = (r', ch)"
    and "ssa (d @ r)" "stores_separate E s (d @ r)" "no_calls r" "forward_inv E s d cm rm"
  shows "exec E s (d @ r') = exec E s (d @ r) \<and> ssa (d @ r')
    \<and> map result_id r' = map result_id r"
  using assms
proof (induction r arbitrary: d cm rm r' ch)
  case (Cons i r)
  have calls: "op i \<noteq> Op_CALL" "no_calls r" using Cons.prems(4) by (simp_all add: no_calls_def)
  have step: "exec E s (d @ x # js) = exec E s (d @ i # r) \<and> ssa (d @ x # js)
      \<and> map result_id (x # js) = map result_id (i # r)"
    if "mem_forward_loop cm' rm' r = (js, c)" "forward_inv E s (d @ [x]) cm' rm'"
       "exec_instr E (exec E s d) x = exec_instr E (exec E s d) i" "result_id x = result_id i"
       "ssa (d @ x # r)" "is_store x = is_store i" "is_store i \<Longrightarrow> x = i"
    for x cm' rm' js c
  proof -
    have run: "exec E s ((d @ [x]) @ r) = exec E s (d @ i # r)" using that(3) by simp
    have "store_addrs ((d @ [x]) @ r) = store_addrs (d @ i # r)" using that(6,7) by auto
    with run Cons.prems(3) have "stores_separate E s ((d @ [x]) @ r)"
      by (simp only: stores_separate_def)
    with that(1,2,5) calls(2)
    have "exec E s ((d @ [x]) @ js) = exec E s ((d @ [x]) @ r) \<and> ssa ((d @ [x]) @ js)
        \<and> map result_id js = map result_id r"
      by (intro Cons.IH) simp_all
    with run that(4) show ?thesis by simp
  qed
  show ?case
  proof (cases "is_store i")
    case True
    then obtain cm' rm' js where
        upd: "slot_update cm rm (operands i ! 0) (operands i ! 1) = (cm', rm')"
      and loop: "mem_forward_loop cm' rm' r = (js, ch)" and r': "r' = i # js"
      using Cons.prems(1) by (auto simp: mem_forward_loop_Cons split: prod.splits)
    have "forward_inv E s (d @ [i]) cm' rm'"
      using forward_inv_store [OF Cons.prems(5,2) True Cons.prems(3) upd] .
    from step [OF loop this refl refl Cons.prems(2)] r' show ?thesis by simp
  next
    case no_store: False
    obtain js c where loop: "mem_forward_loop cm rm r = (js, c)" by force
    have keep: "exec E s (d @ i # js) = exec E s (d @ i # r) \<and> ssa (d @ i # js)
        \<and> map result_id (i # js) = map result_id (i # r)"
      using forward_inv_frame [OF Cons.prems(5,2) no_store calls(1)] loop Cons.prems(2)
      by (intro step) simp_all
    show ?thesis
    proof (cases "op i = Op_LOAD \<and> length (operands i) = 1
        \<and> (\<exists>v. slot_lookup cm rm (operands i ! 0) = Some v)")
      case False
      then have "r' = i # js"
        using Cons.prems(1) no_store loop by (auto simp: mem_forward_loop_Cons split: if_splits)
      with keep show ?thesis by simp
    next
      case True
      then obtain a v where a: "op i = Op_LOAD" "operands i = [a]" "slot_lookup cm rm a = Some v"
        by (auto simp: length_Suc_conv)
      with Cons.prems(1) no_store loop have r': "r' = forward_load v i # js"
        by (simp add: mem_forward_loop_Cons)
      have v: "rd64 (mem (exec E s d)) (eval_val E (exec E s d) a) = eval_val E (exec E s d) v"
          "val_refs v \<subseteq> refs d"
        using Cons.prems(5) a(3) by (auto simp: forward_inv_def)
      have ssa': "ssa (d @ forward_load v i # r)"
        using v(2) by (intro ssa_replace [OF Cons.prems(2)]) (auto simp: ref_ids_forward_load)
      have "forward_inv E s (d @ [forward_load v i]) cm rm"
        by (rule forward_inv_frame [OF Cons.prems(5) ssa']) simp_all
      from step [OF loop this exec_forward_load [OF a(1,2) v(1)] _ ssa'] no_store r'
      show ?thesis by simp
    qed
  qed
qed simp

lemma mem_forward_pass_sound:
  assumes "mem_forward_pass f = (f', ch)" "ssa (instrs f)"
    "stores_separate E s (instrs f)" "no_calls (instrs f)"
  shows "exec E s (instrs f') = exec E s (instrs f) \<and> ssa (instrs f')
    \<and> map result_id (instrs f') = map result_id (instrs f)"
proof -
  obtain js where js: "mem_forward_loop Map.empty Map.empty (instrs f) = (js, ch)"
      "f' = f\<lparr>instrs := js\<rparr>"
    using assms(1) by (auto simp: mem_forward_pass_def split: prod.splits)
  have "forward_inv E s [] Map.empty Map.empty"
    by (simp add: forward_inv_def slot_lookup_def split: option.splits)
  from mem_forward_loop_sound [OF js(1) _ _ assms(4) this] assms(2,3) js(2) show ?thesis by simp
qed


subsection \<open>Pass 4: dead store elimination\<close>

definition private_store :: "Instruction \<Rightarrow> u64 option" where
  "private_store i =
     (if op i = Op_STORE \<and> has_ann i ''vm_private'' ''1'' \<and> length (operands i) \<ge> 2
      then map_option fst (get_const (operands i ! 0)) else None)"

definition private_load :: "Instruction \<Rightarrow> u64 option" where
  "private_load i =
     (if op i = Op_LOAD \<and> has_ann i ''vm_private'' ''1'' \<and> operands i \<noteq> []
      then map_option fst (get_const (operands i ! 0)) else None)"

text \<open>
  The walk runs from the last instruction to the first: the recursion handles the rest of
  the list before the current instruction.
\<close>

fun dead_store_walk :: "Instruction list \<Rightarrow> u64 set \<times> bool list" where
  "dead_store_walk [] = ({}, [])"
| "dead_store_walk (i # is) =
     (let (live, keep) = dead_store_walk is
      in case private_load i of
           Some c \<Rightarrow> (insert c live, True # keep)
         | None \<Rightarrow>
             (case private_store i of
                Some c \<Rightarrow> if c \<in> live then (live - {c}, True # keep) else (live, False # keep)
              | None \<Rightarrow> (live, True # keep)))"

definition select_kept :: "Instruction list \<Rightarrow> bool list \<Rightarrow> Instruction list" where
  "select_kept is keep = map fst (filter snd (zip is keep))"

definition dead_store_elim_pass :: "Function \<Rightarrow> Function \<times> bool" where
  "dead_store_elim_pass f =
     (let keep = snd (dead_store_walk (instrs f));
          any_drop = list_ex Not keep
      in (if any_drop then f\<lparr>instrs := select_kept (instrs f) keep\<rparr> else f, any_drop))"

lemma select_kept_simps [simp]:
  "select_kept [] keep = []"
  "select_kept (i # is) (b # keep) = (if b then i # select_kept is keep else select_kept is keep)"
  by (simp_all add: select_kept_def)

lemma select_kept_all: "length keep = length is \<Longrightarrow> \<not> list_ex Not keep \<Longrightarrow> select_kept is keep = is"
  by (induction "is" keep rule: list_induct2') auto

lemma dead_store_walk_length: "length (snd (dead_store_walk is)) = length is"
  by (induction "is") (auto split: prod.splits option.splits)

lemma dead_store_elim_instrs:
  "instrs (fst (dead_store_elim_pass f)) = select_kept (instrs f) (snd (dead_store_walk (instrs f)))"
  by (simp add: dead_store_elim_pass_def Let_def select_kept_all dead_store_walk_length)

text \<open>
  Two states that agree on every id outside \<open>X\<close>, on the trace, and on every byte outside
  the 8-byte slots at the addresses \<open>S\<close>.
\<close>

definition slot_bytes :: "u64 set \<Rightarrow> u64 set" where
  "slot_bytes S = {x. \<exists>c \<in> S. unat (x - c) < 8}"

definition agree :: "u32 set \<Rightarrow> u64 set \<Rightarrow> state \<Rightarrow> state \<Rightarrow> bool" where
  "agree X B t t' \<longleftrightarrow>
     (\<forall>j. j \<notin> X \<longrightarrow> vals t j = vals t' j) \<and> trace t = trace t' \<and> (\<forall>x. x \<notin> B \<longrightarrow> mem t x = mem t' x)"

lemma agree_refl [simp]: "agree X B t t"
  by (simp add: agree_def)

lemma agree_mono: "agree X B t t' \<Longrightarrow> X \<subseteq> Y \<Longrightarrow> B \<subseteq> C \<Longrightarrow> agree Y C t t'"
  unfolding agree_def by blast

lemma agree_operands:
  "agree X B t t' \<Longrightarrow> set (ref_ids i) \<inter> X = {} \<Longrightarrow>
   map (eval_val E t') (operands i) = map (eval_val E t) (operands i)"
proof (rule map_cong [OF refl])
  fix v assume "agree X B t t'" "set (ref_ids i) \<inter> X = {}" "v \<in> set (operands i)"
  then show "eval_val E t' v = eval_val E t v"
    by (cases v) (auto simp: agree_def set_ref_ids disjoint_iff)
qed

lemma rd64_cong: "(\<And>x. unat (x - a) < 8 \<Longrightarrow> m x = m' x) \<Longrightarrow> rd64 m a = rd64 m' a"
  unfolding rd64_def by (intro arg_cong [of _ _ of_le_bytes] map_cong) (auto simp: unat_of_nat)

lemma agree_step:
  assumes ag: "agree X B t t'" and refs: "set (ref_ids i) \<inter> X = {}" and "op i \<noteq> Op_CALL"
    and load: "\<lbrakk>op i = Op_LOAD; length (operands i) = 1\<rbrakk>
       \<Longrightarrow> {x. unat (x - eval_val E t (operands i ! 0)) < 8} \<inter> B = {}"
    and B': "B' = (if is_store i then B - slot_bytes {eval_val E t (operands i ! 0)} else B)"
  shows "agree X B' (exec_instr E t i) (exec_instr E t' i)"
proof -
  let ?vs = "map (eval_val E t) (operands i)"
  note ops = agree_operands [OF ag refs, of E]
  have "result_of E (mem t) (op i) ?vs = result_of E (mem t') (op i) ?vs"
  proof (cases "op i = Op_LOAD \<and> length (operands i) = 1")
    case True
    then have "rd64 (mem t) (?vs ! 0) = rd64 (mem t') (?vs ! 0)"
      using load ag by (intro rd64_cong) (auto simp: agree_def)
    with True show ?thesis by (simp add: result_of_def)
  qed (use \<open>op i \<noteq> Op_CALL\<close> in \<open>auto simp: result_of_def\<close>)
  moreover have "memory_after E (mem t) (op i) ?vs x = memory_after E (mem t') (op i) ?vs x"
    if "x \<notin> B'" for x
    using that ag B' \<open>op i \<noteq> Op_CALL\<close>
    by (auto simp: memory_after_def is_store_def agree_def wr64_def slot_bytes_def)
  ultimately show ?thesis using ag unfolding agree_def exec_instr_sel ops by simp
qed


text \<open>
  When the private slots are really private: a load of a private slot names it by a constant
  under the annotation, and reads no byte of another private slot; any other load reads no
  byte of a private slot at all. Private stores have two operands, and no operand names
  the result of one.
\<close>

definition private_slots :: "Instruction list \<Rightarrow> u64 list" where
  "private_slots is = List.map_filter private_store is"

definition private_loads_ok :: "env \<Rightarrow> state \<Rightarrow> u64 list \<Rightarrow> Instruction list \<Rightarrow> bool" where
  "private_loads_ok E t P is =
     list_all (\<lambda>i. op i = Op_LOAD \<and> length (operands i) = 1 \<longrightarrow>
       list_all (\<lambda>c. private_load i = Some c \<or> apart 8 (eval_val E t (operands i ! 0)) 8 c) P) is"

definition private_isolated :: "env \<Rightarrow> state \<Rightarrow> Instruction list \<Rightarrow> bool" where
  "private_isolated E s is \<longleftrightarrow>
     private_loads_ok E (exec E s is) (private_slots is) is
     \<and> list_all (\<lambda>i. private_store i = None \<or> is_store i \<and> list_all (\<lambda>k. result_id i \<notin> set (ref_ids k)) is) is"

lemma apart_disjoint: "apart 8 a 8 b \<Longrightarrow> {x. unat (x - a) < 8} \<inter> {x. unat (x - b) < 8} = {}"
proof -
  assume ap: "apart 8 a 8 b"
  have "\<not> unat (x - b) < 8" if "unat (x - a) < 8" for x
    using apart_neq [OF ap that, of "unat (x - b)"] by auto
  then show ?thesis by blast
qed

lemma private_store_Some:
  "private_store i = Some c \<Longrightarrow> op i = Op_STORE \<and> (\<exists>b. operands i ! 0 = Const c b)"
  by (auto simp: private_store_def split: if_splits)

lemma private_load_Some:
  "private_load i = Some c \<Longrightarrow> op i = Op_LOAD \<and> (\<exists>b. operands i ! 0 = Const c b)"
  by (auto simp: private_load_def split: if_splits)

text \<open>Skipping a private store makes the two runs differ in its slot and its id only.\<close>

lemma agree_skip:
  assumes ag: "agree X B t t'" and st: "private_store i = Some c"
    and "result_id i \<in> X" "slot_bytes {c} \<subseteq> B"
  shows "agree X B (exec_instr E t i) t'"
proof -
  obtain b where "op i = Op_STORE" "operands i ! 0 = Const c b"
    using private_store_Some [OF st] by blast
  moreover from this have "memory_after E m (op i) (map (eval_val E t) (operands i)) x = m x"
    if "x \<notin> B" for m x
    using that assms(4) by (auto simp: memory_after_def wr64_def slot_bytes_def)
  ultimately show ?thesis using assms by (auto simp: agree_def events_of_def)
qed

lemma dead_store_walk_sim:
  assumes "dead_store_walk r = (live, keep)" "agree X (slot_bytes (set P - live)) t t'"
    and "ssa r" "no_calls r" "private_loads_ok E (exec E t r) P r"
    and "\<forall>i \<in> set r. set (ref_ids i) \<inter> X = {}"
    and "\<forall>i \<in> set r. \<forall>c. private_store i = Some c \<longrightarrow> is_store i \<and> result_id i \<in> X \<and> c \<in> set P"
  shows "agree X (slot_bytes (set P)) (exec E t r) (exec E t' (select_kept r keep))"
  using assms
proof (induction r arbitrary: t t' live keep)
  case Nil
  then show ?case by simp
next
  case (Cons i r)
  obtain live' keep' where w: "dead_store_walk r = (live', keep')" by force
  have ssa: "ssa r" "set (ref_ids i) \<inter> ids (i # r) = {}" using Cons.prems(3) unfolding ssa_Cons_iff by auto
  have i: "set (ref_ids i) \<inter> X = {}" "op i \<noteq> Op_CALL" using Cons.prems(4,6) by (auto simp: no_calls_def)
  have rest: "agree X (slot_bytes (set P)) (exec E (exec_instr E t i) r) (exec E u (select_kept r keep'))"
    if "agree X (slot_bytes (set P - live')) (exec_instr E t i) u" for u
    using Cons.prems that w ssa(1) by (intro Cons.IH) (auto simp: no_calls_def private_loads_ok_def)
  show ?case
  proof (cases "\<exists>c. private_store i = Some c \<and> c \<notin> live'")
    case True
    then obtain c where c: "private_store i = Some c" "c \<notin> live'" by blast
    have "private_load i = None"
      using private_store_Some [OF c(1)] by (simp add: private_load_def)
    with w c Cons.prems(1) have eq: "live = live'" "keep = False # keep'" by auto
    have "result_id i \<in> X" "slot_bytes {c} \<subseteq> slot_bytes (set P - live')"
      using Cons.prems(7) c by (auto simp: slot_bytes_def)
    from agree_skip [OF _ c(1) this] Cons.prems(2) eq rest show ?thesis by simp
  next
    case False
    have keep: "keep = True # keep'"
      using Cons.prems(1) w False by (auto split: option.splits if_splits)
    have "agree X (slot_bytes (set P - live')) (exec_instr E t i) (exec_instr E t' i)"
    proof (rule agree_mono [OF agree_step [OF Cons.prems(2) i _ refl] subset_refl])
      assume ld: "op i = Op_LOAD" "length (operands i) = 1"
      then obtain a where a: "operands i = [a]" by (auto simp: length_Suc_conv)
      have "eval_val E (exec E t (i # r)) a = eval_val E t a"
        using ssa(2) a by (intro eval_val_exec) (auto simp: set_ref_ids)
      moreover have "private_load i = Some c \<or> apart 8 (eval_val E (exec E t (i # r)) a) 8 c"
        if "c \<in> set P" for c
        using Cons.prems(5) ld a that by (auto simp: private_loads_ok_def list_all_iff)
      ultimately have "apart 8 (eval_val E t a) 8 c" if "c \<in> set P" "c \<notin> live" for c
        using that Cons.prems(1) w by (fastforce split: prod.splits)
      then show "{x. unat (x - eval_val E t (operands i ! 0)) < 8} \<inter> slot_bytes (set P - live) = {}"
        using a apart_disjoint by (fastforce simp: slot_bytes_def)
    next
      show "(if is_store i then slot_bytes (set P - live) - slot_bytes {eval_val E t (operands i ! 0)}
          else slot_bytes (set P - live)) \<subseteq> slot_bytes (set P - live')"
      proof (cases "private_store i")
        case None
        with Cons.prems(1) w have "live' \<subseteq> live" by (auto split: option.splits)
        then show ?thesis by (auto simp: slot_bytes_def)
      next
        case (Some c)
        then obtain b where "private_load i = None" "is_store i" "operands i ! 0 = Const c b"
          using private_store_Some [OF Some] Cons.prems(7) by (auto simp: private_load_def)
        with Some False Cons.prems(1) w show ?thesis by (auto simp: slot_bytes_def)
      qed
    qed
    with rest keep show ?thesis by simp
  qed
qed

definition dropped_ids :: "Instruction list \<Rightarrow> u32 set" where
  "dropped_ids is = {j. \<exists>i \<in> set is. private_store i \<noteq> None \<and> result_id i = j}"

lemma select_kept_subset: "set (select_kept is keep) \<subseteq> set is"
  by (auto simp: select_kept_def dest: set_zip_leftD)

lemma ssa_select_kept: "ssa is \<Longrightarrow> ssa (select_kept is keep)"
proof (induction "is" keep rule: list_induct2')
  case (4 x xs y ys)
  then show ?case using select_kept_subset [of xs ys]
    unfolding ssa_Cons_iff select_kept_simps by (auto simp del: ssa.simps simp: ssa_Cons_iff)
qed (simp_all add: select_kept_def)

lemma dead_store_elim_pass_sound:
  assumes "dead_store_elim_pass f = (f', ch)" "ssa (instrs f)" "no_calls (instrs f)"
    "private_isolated E s (instrs f)"
  shows "agree (dropped_ids (instrs f)) (slot_bytes (set (private_slots (instrs f))))
           (exec E s (instrs f)) (exec E s (instrs f')) \<and> ssa (instrs f')"
proof -
  obtain live keep where w: "dead_store_walk (instrs f) = (live, keep)" by force
  have f': "instrs f' = select_kept (instrs f) keep"
    using dead_store_elim_instrs [of f] assms(1) w by simp
  have "\<forall>i \<in> set (instrs f). set (ref_ids i) \<inter> dropped_ids (instrs f) = {}"
    using assms(4) by (fastforce simp: private_isolated_def dropped_ids_def list_all_iff)
  moreover have "\<forall>i \<in> set (instrs f). \<forall>c. private_store i = Some c \<longrightarrow>
      is_store i \<and> result_id i \<in> dropped_ids (instrs f) \<and> c \<in> set (private_slots (instrs f))"
    using assms(4) by (force simp: private_isolated_def dropped_ids_def private_slots_def
        List.map_filter_def list_all_iff)
  ultimately have "agree (dropped_ids (instrs f)) (slot_bytes (set (private_slots (instrs f))))
      (exec E s (instrs f)) (exec E s (select_kept (instrs f) keep))"
    using assms(2-4) by (intro dead_store_walk_sim [OF w agree_refl]) (auto simp: private_isolated_def)
  with f' assms(2) show ?thesis by (simp add: ssa_select_kept)
qed


subsection \<open>Properties\<close>

abbreviation private_instr :: "Op \<Rightarrow> Value list \<Rightarrow> u32 \<Rightarrow> Instruction" where
  "private_instr x vs r \<equiv>
     \<lparr>op = x, operands = vs, result_id = r, annotations = [(''vm_private'', ''1'')]\<rparr>"


definition forward_example :: Function where
  "forward_example =
     \<lparr>fn_name = ''f'',
      instrs = [instr0 Op_STORE [Const64 0x1000, SymReg ''rax''] 0,
                instr0 Op_STORE [Const64 0x1008, Const64 7] 1,
                instr0 Op_LOAD [Const64 0x1000] 2,
                instr0 Op_ADD [InstrRef 2, Const64 1] 3],
      next_id = 4\<rparr>"


text \<open>Property C14. Without that condition forwarding is wrong: after a store at 0x1000 and one
  at 0x1004 the pass turns a load at 0x1000 into the first stored value, while the run of
  the original reads the bytes of both stores.\<close>

definition overlap_example :: Function where
  "overlap_example =
     \<lparr>fn_name = ''f'',
      instrs = [instr0 Op_STORE [Const64 0x1000, Const64 1] 0,
                instr0 Op_STORE [Const64 0x1004, Const64 2] 1,
                instr0 Op_LOAD [Const64 0x1000] 2],
      next_id = 3\<rparr>"

theorem mem_forward_overlap:
  "snd (mem_forward_pass overlap_example)
   \<and> vals (exec E s (instrs overlap_example)) 2 = 0x200000001
   \<and> vals (exec E s (instrs (fst (mem_forward_pass overlap_example)))) 2 = 1"
proof -
  have pass: "mem_forward_pass overlap_example =
      (overlap_example\<lparr>instrs := butlast (instrs overlap_example)
          @ [forward_load (Const64 1) (last (instrs overlap_example))]\<rparr>, True)"
    by (simp add: overlap_example_def mem_forward_pass_def mem_forward_loop_Cons
        is_store_def slot_update_def slot_lookup_def)
  have rd: "rd64 (wr64 (wr64 m 0x1000 1) 0x1004 2) 0x1000 = 0x200000001" for m
    by (simp add: rd64_def wr64_def upt_rec le_byte_def unsigned_minus_1_eq_mask mask_eq_exp_minus_1)
  show ?thesis
    by (simp add: pass) (simp add: overlap_example_def forward_load_def result_of_def
        memory_after_def pure_result_def rd)
qed

text \<open>Dead store elimination is correct when the private slots are private (every
  load that reads a byte of one names it by a constant under the annotation): the run of the
  rewritten function has the same trace, the same values of all ids but those of private
  stores, and the same memory outside the private slots.\<close>

theorem dead_store_elim_correct:
  assumes "ssa (instrs f)" "no_calls (instrs f)" "private_isolated E s (instrs f)"
  shows "ssa (instrs (fst (dead_store_elim_pass f)))
    \<and> agree (dropped_ids (instrs f)) (slot_bytes (set (private_slots (instrs f))))
           (exec E s (instrs f)) (exec E s (instrs (fst (dead_store_elim_pass f))))"
  using dead_store_elim_pass_sound [of f _ _ E s] assms by (cases "dead_store_elim_pass f") auto

definition dead_store_example :: Function where
  "dead_store_example =
     \<lparr>fn_name = ''f'',
      instrs = [private_instr Op_STORE [Const64 0x1000, Const64 1] 0,
                private_instr Op_STORE [Const64 0x1000, Const64 2] 1,
                private_instr Op_LOAD [Const64 0x1000] 2,
                private_instr Op_STORE [Const64 0x1000, Const64 3] 3,
                instr0 Op_LOAD [Const64 0x2000] 4],
      next_id = 5\<rparr>"

theorem dead_store_elim_correct_witness:
  "map result_id (instrs (fst (dead_store_elim_pass dead_store_example))) = [1, 2, 4]
   \<and> (\<forall>E s. agree {0, 1, 3} (slot_bytes {0x1000}) (exec E s (instrs dead_store_example))
         (exec E s (instrs (fst (dead_store_elim_pass dead_store_example)))))"
proof -
  let ?is = "instrs dead_store_example"
  have e: "ssa ?is" "no_calls ?is" "map private_store ?is = [Some 0x1000, Some 0x1000, None, Some 0x1000, None]"
      "map private_load ?is = [None, None, Some 0x1000, None, None]"
    by (simp_all add: dead_store_example_def ref_ids_def List.map_filter_def no_calls_def
        private_store_def private_load_def has_ann_def)
  have "private_slots ?is = [0x1000, 0x1000, 0x1000]" "dropped_ids ?is = {0, 1, 3}"
    by (auto simp: dead_store_example_def private_slots_def dropped_ids_def
        private_store_def has_ann_def List.map_filter_def)
  moreover from this(1) have "private_isolated E s ?is" for E s
    by (simp add: private_isolated_def private_loads_ok_def)
      (simp add: dead_store_example_def set_ref_ids is_store_def
        private_store_def private_load_def has_ann_def apart_def)
  moreover have "map result_id (instrs (fst (dead_store_elim_pass dead_store_example))) = [1, 2, 4]"
    by (simp add: dead_store_elim_pass_def dead_store_example_def
        private_store_def private_load_def has_ann_def Let_def)
  ultimately show ?thesis using dead_store_elim_correct [of dead_store_example] e(1,2) by simp
qed

end
