(* ===== verification/Pass_Dead.thy ===== *)
theory Pass_Dead
  imports Pass_Memory
begin

section \<open>Dead dependencies and stack addresses (src/passes/transforms.cpp, passes 5, 8 and 9)\<close>

text \<open>
  Elimination of the instructions whose result no operand names, the analysis that keeps
  only what the side-effectful instructions need, and the annotation of constant stack
  addresses by their offset from the initial stack pointer. The register sets that
  \<open>dead_dep_analysis\<close> and \<open>dead_dep_analysis_pass\<close> take do not influence what they do.
\<close>

subsection \<open>Dropping instructions nobody needs\<close>

text \<open>With equal memories a step keeps two states in agreement, calls included.\<close>

lemma agree_step_same:
  assumes ag: "agree X {} t t'" and refs: "set (ref_ids i) \<inter> X = {}"
  shows "agree X {} (exec_instr E t i) (exec_instr E t' i)"
proof -
  have "mem t' = mem t" using ag by (auto simp: agree_def)
  with ag show ?thesis unfolding agree_def exec_instr_sel agree_operands [OF ag refs] by simp
qed

lemma agree_drop:
  assumes "agree X {} t t'" "\<not> op_is_side_effectful (op i)" "result_id i \<in> X"
  shows "agree X {} (exec_instr E t i) t'"
proof -
  have "memory_after E (mem t) (op i) vs = mem t" "events_of (op i) vs = []" for vs
    using assms(2) by (cases "op i"; simp add: memory_after_def events_of_def)+
  with assms(1,3) show ?thesis by (auto simp: agree_def)
qed

lemma exec_filter_agree:
  assumes "\<forall>i \<in> set is. op_is_side_effectful (op i) \<longrightarrow> K i"
    and "\<forall>i \<in> set is. K i \<longrightarrow> set (ref_ids i) \<inter> X = {}"
    and "\<forall>i \<in> set is. \<not> K i \<longrightarrow> result_id i \<in> X"
    and "agree X {} t t'"
  shows "agree X {} (exec E t is) (exec E t' (filter K is))"
  using assms
proof (induction "is" arbitrary: t t')
  case (Cons i "is")
  show ?case
  proof (cases "K i")
    case True
    with Cons.prems have "agree X {} (exec_instr E t i) (exec_instr E t' i)"
      by (intro agree_step_same) auto
    with Cons True show ?thesis by simp
  next
    case False
    with Cons.prems have "agree X {} (exec_instr E t i) t'"
      by (intro agree_drop) auto
    with Cons False show ?thesis by simp
  qed
qed simp

lemma ssa_filter: "ssa is \<Longrightarrow> ssa (filter K is)"
proof (induction "is")
  case (Cons i "is")
  have "ids (filter K is) \<subseteq> ids is" by auto
  with Cons show ?case unfolding ssa_Cons_iff by (auto simp del: ssa.simps simp: ssa_Cons_iff)
qed simp

text \<open>The tail both passes share: rebuild the vector when something is dropped.\<close>

definition drop_unkept :: "(Instruction \<Rightarrow> bool) \<Rightarrow> Function \<Rightarrow> Function \<times> bool" where
  "drop_unkept keep f =
     (let changed = list_ex (\<lambda>i. \<not> keep i) (instrs f)
      in (if changed then f\<lparr>instrs := filter keep (instrs f)\<rparr> else f, changed))"

lemma drop_unkept_instrs: "instrs (fst (drop_unkept K f)) = filter K (instrs f)"
  by (auto simp: drop_unkept_def Let_def list_ex_iff intro: filter_True [symmetric])

lemma drop_unkept_changed: "snd (drop_unkept K f) \<longleftrightarrow> \<not> list_all K (instrs f)"
  by (simp add: drop_unkept_def Let_def list_ex_iff list_all_iff)

subsection \<open>Pass 5: dead dependency elimination\<close>

definition referenced :: "Instruction list \<Rightarrow> u32 set" where
  "referenced is = foldl (\<lambda>R i. foldl (\<lambda>R v. case get_instrref v of Some r \<Rightarrow> insert r R | None \<Rightarrow> R)
     R (operands i)) {} is"

definition dead_dep_elim_pass :: "Function \<Rightarrow> Function \<times> bool" where
  "dead_dep_elim_pass f =
     drop_unkept (\<lambda>i. op_is_side_effectful (op i) \<or> result_id i \<in> referenced (instrs f)) f"

lemma referenced_operands:
  "foldl (\<lambda>R v. case get_instrref v of Some r \<Rightarrow> insert r R | None \<Rightarrow> R) R vs
     = R \<union> (\<Union>v \<in> set vs. val_refs v)"
proof (induction vs arbitrary: R)
  case (Cons v vs)
  then show ?case by (cases v) auto
qed simp

lemma referenced_refs: "referenced is = refs is"
proof -
  have "foldl (\<lambda>R i. foldl (\<lambda>R v. case get_instrref v of Some r \<Rightarrow> insert r R | None \<Rightarrow> R) R (operands i)) R is
      = R \<union> refs is" for R
    by (induction "is" arbitrary: R) (simp_all add: referenced_operands ref_ids_val_refs Un_assoc)
  then show ?thesis by (simp add: referenced_def)
qed

lemma dead_dep_elim_pass_sound:
  assumes "dead_dep_elim_pass f = (f', ch)"
  shows "agree (- refs (instrs f)) {} (exec E s (instrs f)) (exec E s (instrs f'))"
proof -
  have f': "instrs f' = filter (\<lambda>i. op_is_side_effectful (op i) \<or> result_id i \<in> refs (instrs f)) (instrs f)"
    using assms drop_unkept_instrs [of _ f] by (metis dead_dep_elim_pass_def fst_conv referenced_refs)
  show ?thesis unfolding f' by (rule exec_filter_agree) auto
qed

lemma dead_dep_elim_pass_ssa:
  "dead_dep_elim_pass f = (f', ch) \<Longrightarrow> ssa (instrs f) \<Longrightarrow> ssa (instrs f')"
  using drop_unkept_instrs [of _ f] by (metis dead_dep_elim_pass_def fst_conv ssa_filter)

subsection \<open>Pass 8: dead dependency analysis\<close>

definition dead_dep_analysis :: "Function \<Rightarrow> string set \<Rightarrow> string set" where
  "dead_dep_analysis f all_regs = all_regs"

definition push_refs :: "u32 set \<Rightarrow> u32 list \<Rightarrow> Value list \<Rightarrow> u32 set \<times> u32 list" where
  "push_refs reachable worklist vs =
     foldl (\<lambda>(R, W) v. case get_instrref v of
               Some r \<Rightarrow> if r \<in> R then (R, W) else (insert r R, r # W)
             | None \<Rightarrow> (R, W)) (reachable, worklist) vs"

lemma push_refs_simps [simp]:
  "push_refs R W [] = (R, W)"
  "push_refs R W (v # vs) =
     (case get_instrref v of
        Some r \<Rightarrow> if r \<in> R then push_refs R W vs else push_refs (insert r R) (r # W) vs
      | None \<Rightarrow> push_refs R W vs)"
  by (simp_all add: push_refs_def split: option.split)

lemma push_refs_sets:
  "push_refs R W vs = (R', W') \<Longrightarrow> R' = R \<union> (\<Union>v \<in> set vs. val_refs v) \<and> set W' = set W \<union> (R' - R)"
proof (induction vs arbitrary: R W)
  case (Cons v vs)
  show ?case
  proof (cases "\<exists>r. v = InstrRef r \<and> r \<notin> R")
    case True
    then obtain r where r: "v = InstrRef r" "r \<notin> R" by blast
    with Cons.prems Cons.IH [of "insert r R" "r # W"] show ?thesis by auto
  next
    case False
    then have "val_refs v \<subseteq> R" "push_refs R W (v # vs) = push_refs R W vs"
      by (cases v; auto)+
    with Cons.prems Cons.IH [of R W] show ?thesis by auto
  qed
qed simp

lemma push_refs_measure:
  "push_refs R W vs = (R', W') \<Longrightarrow> card (- R') + length W' = card (- R) + length W"
proof (induction vs arbitrary: R W)
  case (Cons v vs)
  have "card (- insert r R) + length (r # W) = card (- R) + length W" if "r \<notin> R" for r
  proof -
    have "- R = insert r (- insert r R)" using that by auto
    then have "card (- R) = Suc (card (- insert r R))" by (metis ComplD card_insert_disjoint finite insertI1)
    then show ?thesis by simp
  qed
  with Cons show ?case by (cases v) (auto split: if_splits)
qed simp

text \<open>The head of the list is the back of the C++ vector.\<close>

function reach_loop ::
  "Instruction list \<Rightarrow> (u32 \<Rightarrow> nat option) \<Rightarrow> u32 set \<Rightarrow> u32 list \<Rightarrow> u32 set" where
  "reach_loop is im reachable [] = reachable"
| "reach_loop is im reachable (i # worklist) =
     (case im i of
        None \<Rightarrow> reach_loop is im reachable worklist
      | Some k \<Rightarrow>
          (let (reachable', worklist') = push_refs reachable worklist (operands (is ! k))
           in reach_loop is im reachable' worklist'))"
  by pat_completeness auto
termination
proof (relation "measure (\<lambda>(is, im, R, W). card (- R) + length W)", goal_cases)
  case (3 "is" im R i W k p R' W')
  then have "push_refs R W (operands (is ! k)) = (R', W')" by simp
  from push_refs_measure [OF this] show ?case by simp
qed simp_all

definition reachable_ids :: "Instruction list \<Rightarrow> u32 set" where
  "reachable_ids is =
     (let roots = map result_id (filter (\<lambda>i. op_is_side_effectful (op i)) is)
      in reach_loop is (build_instr_map is) (set roots) (rev roots))"

definition dead_dep_analysis_pass :: "Function \<Rightarrow> string set \<Rightarrow> Function \<times> bool" where
  "dead_dep_analysis_pass f live_regs =
     (let reachable = reachable_ids (instrs f)
      in drop_unkept (\<lambda>i. op_is_side_effectful (op i) \<or> result_id i \<in> reachable) f)"

text \<open>What the worklist computes: the ids needed by a side-effectful instruction.\<close>

inductive_set needed :: "Instruction list \<Rightarrow> u32 set" for "is" where
  needed_root: "i \<in> set is \<Longrightarrow> op_is_side_effectful (op i) \<Longrightarrow> result_id i \<in> needed is"
| needed_ref: "j \<in> needed is \<Longrightarrow> build_instr_map is j = Some k \<Longrightarrow> r \<in> set (ref_ids (is ! k))
    \<Longrightarrow> r \<in> needed is"

lemma reach_loop_needed:
  assumes "im = build_instr_map is" "R \<subseteq> needed is" "set W \<subseteq> R"
    and "\<forall>j \<in> R - set W. \<forall>k. im j = Some k \<longrightarrow> set (ref_ids (is ! k)) \<subseteq> R"
  shows "R \<subseteq> reach_loop is im R W \<and> reach_loop is im R W \<subseteq> needed is
    \<and> (\<forall>j \<in> reach_loop is im R W. \<forall>k. im j = Some k \<longrightarrow> set (ref_ids (is ! k)) \<subseteq> reach_loop is im R W)"
  using assms
proof (induction "is" im R W rule: reach_loop.induct)
  case (2 "is" im R i W)
  show ?case
  proof (cases "im i")
    case None
    with "2.prems" have "\<forall>j \<in> R - set W. \<forall>k. im j = Some k \<longrightarrow> set (ref_ids (is ! k)) \<subseteq> R" by fastforce
    with "2.IH"(1) [OF None] "2.prems" None show ?thesis by simp
  next
    case (Some k)
    obtain R' W' where push: "push_refs R W (operands (is ! k)) = (R', W')" by force
    note sets = push_refs_sets [OF push, folded ref_ids_val_refs]
    have "i \<in> needed is" using "2.prems"(2,3) by auto
    then have "set (ref_ids (is ! k)) \<subseteq> needed is"
      using needed_ref Some "2.prems"(1) by blast
    with sets "2.prems" have 1: "R' \<subseteq> needed is" "set W' \<subseteq> R'" by auto
    have "\<forall>j \<in> R' - set W'. \<forall>k. im j = Some k \<longrightarrow> set (ref_ids (is ! k)) \<subseteq> R'"
    proof (intro ballI allI impI)
      fix j k' assume j: "j \<in> R' - set W'" "im j = Some k'"
      show "set (ref_ids (is ! k')) \<subseteq> R'"
      proof (cases "j = i")
        case True
        with j(2) Some sets show ?thesis by auto
      next
        case False
        with j(1) sets have "j \<in> R - set (i # W)" by auto
        with "2.prems"(4) j(2) sets show ?thesis by blast
      qed
    qed
    with "2.IH"(2) [OF Some push [symmetric] refl] "2.prems"(1) 1 Some push sets show ?thesis by auto
  qed
qed auto

lemma reachable_ids_needed: "reachable_ids is = needed is"
proof -
  define roots where "roots = map result_id (filter (\<lambda>i. op_is_side_effectful (op i)) is)"
  define R where "R = reachable_ids is"
  have "set roots \<subseteq> needed is" by (auto simp: roots_def intro: needed_root)
  then have R: "set roots \<subseteq> R" "R \<subseteq> needed is"
      "\<forall>j \<in> R. \<forall>k. build_instr_map is j = Some k \<longrightarrow> set (ref_ids (is ! k)) \<subseteq> R"
    using reach_loop_needed [of "build_instr_map is" "is" "set roots" "rev roots"]
    by (auto simp: R_def reachable_ids_def roots_def Let_def)
  have "j \<in> R" if "j \<in> needed is" for j
    using that
  proof induction
    case (needed_root i)
    with R(1) show ?case by (auto simp: roots_def)
  next
    case (needed_ref j k r)
    with R(3) show ?case by blast
  qed
  with R(2) show ?thesis by (auto simp: R_def)
qed

lemma needed_closed:
  assumes "ssa is" "i \<in> set is" "result_id i \<in> needed is"
  shows "set (ref_ids i) \<subseteq> needed is"
proof -
  have "build_instr_map is (result_id i) \<noteq> None" using assms(2) by (simp add: build_instr_map_None)
  then obtain k where k: "build_instr_map is (result_id i) = Some k" by blast
  from build_instr_map_Some [OF k] have k': "k < length is" "result_id (is ! k) = result_id i" by auto
  obtain m where m: "m < length is" "is ! m = i" using assms(2) by (auto simp: in_set_conv_nth)
  have "k = m"
    using ssa_distinct [OF assms(1)] k' m by (auto simp: distinct_conv_nth)
  with m k assms(3) show ?thesis by (auto intro: needed_ref)
qed

lemma dead_dep_analysis_pass_instrs:
  "instrs (fst (dead_dep_analysis_pass f live_regs)) = filter (\<lambda>i. result_id i \<in> needed (instrs f)) (instrs f)"
  by (auto simp: dead_dep_analysis_pass_def drop_unkept_instrs reachable_ids_needed
      intro: needed_root filter_cong)

lemma dead_dep_analysis_pass_sound:
  assumes "ssa (instrs f)"
  shows "agree (- needed (instrs f)) {} (exec E s (instrs f))
    (exec E s (instrs (fst (dead_dep_analysis_pass f live_regs))))"
  unfolding dead_dep_analysis_pass_instrs
  using needed_closed [OF assms] by (intro exec_filter_agree) (auto intro: needed_root)

subsection \<open>Pass 9: stack addresses\<close>

definition int_to_string :: "int \<Rightarrow> string" where
  "int_to_string n = (if n < 0 then ''-'' @ to_string (nat (- n)) else to_string (nat n))"

text \<open>Signed 64-bit subtraction: a result outside the range is undefined.\<close>

definition sub_i64 :: "u64 \<Rightarrow> u64 \<Rightarrow> int option" where
  "sub_i64 a b =
     (let d = sint a - sint b in if - (2 ^ 63) \<le> d \<and> d < 2 ^ 63 then Some d else None)"

definition stack_rewrite_instr :: "u64 \<Rightarrow> Instruction \<Rightarrow> (Instruction \<times> bool) option" where
  "stack_rewrite_instr init_rsp i =
     (if op i \<noteq> Op_LOAD \<and> op i \<noteq> Op_STORE then Some (i, False)
      else if operands i = [] then Some (i, False)
      else (case get_const (operands i ! 0) of
              None \<Rightarrow> Some (i, False)
            | Some (addr, _) \<Rightarrow>
                do { offset \<leftarrow> sub_i64 addr init_rsp;
                     Some (if - 0x10000 \<le> offset \<and> offset \<le> 0x100
                           then (set_ann ''rsp_relative'' ''1'' (set_ann ''stack_offset'' (int_to_string offset) i), True)
                           else (i, False)) }))"

fun stack_rewrite_instrs :: "Instruction list \<Rightarrow> u64 \<Rightarrow> (Instruction list \<times> bool) option" where
  "stack_rewrite_instrs [] init_rsp = Some ([], False)"
| "stack_rewrite_instrs (i # is) init_rsp =
     do { (i', c) \<leftarrow> stack_rewrite_instr init_rsp i;
          (is', c') \<leftarrow> stack_rewrite_instrs is init_rsp;
          Some (i' # is', c \<or> c') }"

definition stack_rewrite_pass :: "Function \<Rightarrow> u64 \<Rightarrow> (Function \<times> bool) option" where
  "stack_rewrite_pass f init_rsp =
     do { (is, ch) \<leftarrow> stack_rewrite_instrs (instrs f) init_rsp; Some (f\<lparr>instrs := is\<rparr>, ch) }"

text \<open>The constant address an instruction accesses, and the specification of the pass.\<close>

definition const_access :: "Instruction \<Rightarrow> u64 option" where
  "const_access i =
     (if (op i = Op_LOAD \<or> op i = Op_STORE) \<and> operands i \<noteq> []
      then map_option fst (get_const (operands i ! 0)) else None)"

definition in_stack_window :: "u64 \<Rightarrow> u64 \<Rightarrow> bool" where
  "in_stack_window init_rsp a \<longleftrightarrow> - 0x10000 \<le> sint a - sint init_rsp \<and> sint a - sint init_rsp \<le> 0x100"

definition mark_stack :: "u64 \<Rightarrow> Instruction \<Rightarrow> Instruction" where
  "mark_stack init_rsp i =
     (case const_access i of
        Some a \<Rightarrow>
          if in_stack_window init_rsp a
          then set_ann ''rsp_relative'' ''1'' (set_ann ''stack_offset'' (int_to_string (sint a - sint init_rsp)) i)
          else i
      | None \<Rightarrow> i)"

definition overflows :: "u64 \<Rightarrow> Instruction \<Rightarrow> bool" where
  "overflows init_rsp i =
     (case const_access i of
        Some a \<Rightarrow> sint a - sint init_rsp < - (2 ^ 63) \<or> 2 ^ 63 \<le> sint a - sint init_rsp
      | None \<Rightarrow> False)"

lemma stack_rewrite_instr_spec:
  "stack_rewrite_instr init_rsp i =
     (if overflows init_rsp i then None
      else Some (mark_stack init_rsp i,
                 case const_access i of Some a \<Rightarrow> in_stack_window init_rsp a | None \<Rightarrow> False))"
  by (auto simp: stack_rewrite_instr_def const_access_def overflows_def mark_stack_def
      in_stack_window_def sub_i64_def Let_def split: option.splits)

lemma stack_rewrite_instrs_spec:
  "stack_rewrite_instrs is init_rsp =
     (if list_ex (overflows init_rsp) is then None
      else Some (map (mark_stack init_rsp) is,
                 list_ex (\<lambda>i. case const_access i of Some a \<Rightarrow> in_stack_window init_rsp a | None \<Rightarrow> False) is))"
  by (induction "is") (auto simp: stack_rewrite_instr_spec)

lemma mark_stack_frame [simp]:
  "op (mark_stack r i) = op i" "operands (mark_stack r i) = operands i" "result_id (mark_stack r i) = result_id i"
  by (simp_all add: mark_stack_def split: option.split)

lemma exec_mark_stack: "exec E s (map (mark_stack r) is) = exec E s is"
proof (induction "is" arbitrary: s)
  case (Cons i "is")
  have "exec_instr E s (mark_stack r i) = exec_instr E s i"
    by (rule exec_instr_eqI) simp_all
  then show ?case unfolding list.map exec_simps by (simp only: Cons.IH)
qed simp

lemma int_to_string_inject: "int_to_string m = int_to_string n \<longleftrightarrow> m = n"
proof -
  have head: "hd (to_string k) \<noteq> CHR ''-''" for k
  proof (induction "10 :: nat" k rule: show_base.induct)
    case (1 k)
    have "digit_char d \<noteq> CHR ''-''" if "d < 10" for d
    proof -
      have "d \<in> set [0..<10]" using that by simp
      moreover have "\<forall>d \<in> set [0..<10]. digit_char d \<noteq> CHR ''-''" by code_simp
      ultimately show ?thesis by blast
    qed
    with 1 show ?case by (subst show_base.simps) simp
  qed
  have "to_string k \<noteq> CHR ''-'' # s \<and> CHR ''-'' # s \<noteq> to_string k" for k s
    using head [of k] by (metis list.sel(1))
  then show ?thesis by (auto simp: int_to_string_def to_string_inject [of "nat _" "nat _"])
qed

lemma user_space_no_overflow:
  fixes a r :: u64
  assumes "a < 2 ^ 63" "r < 2 ^ 63"
  shows "- (2 ^ 63) \<le> sint a - sint r \<and> sint a - sint r < 2 ^ 63"
proof -
  have "0 \<le> sint x \<and> sint x < 2 ^ 63" if "x < 2 ^ 63" for x :: u64
  proof -
    have "uint x < 2 ^ 63" using that by (simp add: word_less_alt)
    then have "signed_take_bit 63 (uint x) = uint x"
      by (intro signed_take_bit_int_eq_self) (simp_all add: order_trans [of _ 0])
    then have "sint x = uint x" by (simp add: sint_uint)
    with \<open>uint x < 2 ^ 63\<close> show ?thesis by simp
  qed
  from this [OF assms(1)] this [OF assms(2)] show ?thesis by linarith
qed

subsection \<open>Properties\<close>

text \<open>Property C18. Dead dependency elimination never changes what a function does: on every
  start, in or out of single-assignment form, the rewritten function has the same trace, the
  same memory and the same value of every id an operand of the original names; and the pass
  reports a change exactly when some instruction without side effects is unreferenced.\<close>

theorem dead_dep_elim_correct:
  "agree (- referenced (instrs f)) {} (exec E s (instrs f)) (exec E s (instrs (fst (dead_dep_elim_pass f))))
   \<and> snd (dead_dep_elim_pass f) =
       list_ex (\<lambda>i. \<not> op_is_side_effectful (op i) \<and> result_id i \<notin> referenced (instrs f)) (instrs f)"
  using dead_dep_elim_pass_sound [of f _ _ E s, OF surjective_pairing]
  by (auto simp: referenced_refs dead_dep_elim_pass_def drop_unkept_def Let_def list_ex_iff)

text \<open>The worklist of the dead dependency analysis ends and keeps exactly the
  instructions whose id a side-effectful instruction needs through any chain of operands,
  and on single-assignment functions the kept ones compute the same trace, memory and
  needed values.\<close>

theorem dead_dep_analysis_correct:
  assumes "ssa (instrs f)"
  shows "instrs (fst (dead_dep_analysis_pass f live_regs))
      = filter (\<lambda>i. result_id i \<in> needed (instrs f)) (instrs f)
    \<and> agree (- needed (instrs f)) {} (exec E s (instrs f))
        (exec E s (instrs (fst (dead_dep_analysis_pass f live_regs))))"
  using dead_dep_analysis_pass_instrs dead_dep_analysis_pass_sound [OF assms] by blast

definition dead_example :: Function where
  "dead_example =
     \<lparr>fn_name = ''f'',
      instrs = [instr0 Op_ADD [SymReg ''rax'', Const64 1] 0,
                instr0 Op_ADD [InstrRef 0, Const64 1] 1,
                instr0 Op_ADD [InstrRef 1, Const64 1] 2,
                instr0 Op_JMP [InstrRef 0] 3],
      next_id = 4\<rparr>"

theorem dead_dep_analysis_correct_witness:
  "map result_id (instrs (fst (dead_dep_analysis_pass dead_example {}))) = [0, 3]
   \<and> map result_id (instrs (fst (dead_dep_elim_pass dead_example))) = [0, 1, 3]
   \<and> filter (\<lambda>i. result_id i \<in> needed (instrs dead_example)) (instrs dead_example)
       = [instrs dead_example ! 0, instrs dead_example ! 3]"
proof -
  have "ssa (instrs dead_example)"
    by (simp add: dead_example_def ref_ids_def List.map_filter_def)
  from dead_dep_analysis_correct [OF this, of "{}"]
  have "filter (\<lambda>i. result_id i \<in> needed (instrs dead_example)) (instrs dead_example)
      = instrs (fst (dead_dep_analysis_pass dead_example {}))" by simp
  moreover have "reachable_ids (instrs dead_example) = {0, 3}"
    by (auto simp: dead_example_def reachable_ids_def build_instr_map_def)
  then have "instrs (fst (dead_dep_analysis_pass dead_example {}))
      = [instrs dead_example ! 0, instrs dead_example ! 3]"
    by (simp add: dead_dep_analysis_pass_def drop_unkept_instrs) (simp add: dead_example_def)
  moreover have "map result_id (instrs (fst (dead_dep_elim_pass dead_example))) = [0, 1, 3]"
    by (simp add: dead_dep_elim_pass_def drop_unkept_instrs referenced_def dead_example_def)
  ultimately show ?thesis by (simp add: dead_example_def)
qed

text \<open>The stack rewrite marks exactly the loads and stores whose constant address
  lies between 0x10000 bytes below and 0x100 bytes above the initial stack pointer, the mark
  determines the offset, and nothing else changes; it has no defined result exactly when a
  signed difference of two 64-bit addresses overflows, which needs an address of 2^63 or
  more.\<close>

theorem stack_rewrite_correct:
  "(stack_rewrite_pass f init_rsp = None \<longleftrightarrow> list_ex (overflows init_rsp) (instrs f))
   \<and> (\<forall>f' ch. stack_rewrite_pass f init_rsp = Some (f', ch) \<longrightarrow>
        instrs f' = map (mark_stack init_rsp) (instrs f) \<and> exec E s (instrs f') = exec E s (instrs f)
        \<and> ch = list_ex (\<lambda>i. case const_access i of Some a \<Rightarrow> in_stack_window init_rsp a | None \<Rightarrow> False) (instrs f))
   \<and> (init_rsp < 2 ^ 63 \<longrightarrow> overflows init_rsp i \<longrightarrow> (\<exists>a. const_access i = Some a \<and> 2 ^ 63 \<le> a))
   \<and> (const_access i = Some a \<longrightarrow> in_stack_window init_rsp a \<longrightarrow>
        map_of (annotations (mark_stack init_rsp i)) ''stack_offset'' = Some (int_to_string n) \<longrightarrow>
        n = sint a - sint init_rsp)"
proof -
  have "\<exists>a. const_access i = Some a \<and> 2 ^ 63 \<le> a" if "init_rsp < 2 ^ 63" "overflows init_rsp i"
  proof -
    from that(2) obtain a where a: "const_access i = Some a"
        "sint a - sint init_rsp < - (2 ^ 63) \<or> 2 ^ 63 \<le> sint a - sint init_rsp"
      by (auto simp: overflows_def split: option.splits)
    with user_space_no_overflow [OF _ that(1), of a] have "\<not> a < 2 ^ 63" by linarith
    with a(1) show ?thesis by (auto simp: not_less)
  qed
  moreover have "n = sint a - sint init_rsp"
    if "const_access i = Some a" "in_stack_window init_rsp a"
      "map_of (annotations (mark_stack init_rsp i)) ''stack_offset'' = Some (int_to_string n)"
    using that by (simp add: mark_stack_def set_ann_def map_of_update int_to_string_inject)
  ultimately show ?thesis
    by (auto simp: stack_rewrite_pass_def stack_rewrite_instrs_spec exec_mark_stack)
qed

theorem stack_rewrite_correct_witness:
  "stack_rewrite_pass (\<lparr>fn_name = ''f'', instrs = [instr0 Op_LOAD [Const64 0x7FFFFFFFCFF8] 0], next_id = 1\<rparr>)
       0x7FFFFFFFD000
     = Some (\<lparr>fn_name = ''f'', instrs = [\<lparr>op = Op_LOAD, operands = [Const64 0x7FFFFFFFCFF8], result_id = 0,
              annotations = [(''stack_offset'', ''-8''), (''rsp_relative'', ''1'')]\<rparr>], next_id = 1\<rparr>, True)
   \<and> stack_rewrite_pass (\<lparr>fn_name = ''f'', instrs = [instr0 Op_LOAD [Const64 0x8000000000000000] 0], next_id = 1\<rparr>)
       0x7FFFFFFFD000 = None"
proof -
  let ?f = "\<lparr>fn_name = ''f'', instrs = [instr0 Op_LOAD [Const64 0x8000000000000000] 0], next_id = 1\<rparr>"
  have "stack_rewrite_pass ?f 0x7FFFFFFFD000 = None"
    using stack_rewrite_correct [of ?f "0x7FFFFFFFD000"] by (simp add: overflows_def const_access_def)
  moreover have "to_string 8 = ''8''"
    by (subst show_base.simps) (simp add: digit_char_def)
  ultimately show ?thesis
    by (simp add: stack_rewrite_pass_def stack_rewrite_instrs_spec overflows_def const_access_def
        mark_stack_def in_stack_window_def set_ann_def int_to_string_def)
qed

end
