(* ===== verification/Convergence.thy ===== *)
theory Convergence
  imports Pass_Combine Pass_Dead
begin

section \<open>The convergence driver (src/passes/transforms.cpp, run_to_convergence)\<close>

text \<open>
  The two pass tables and the loops that run a table until a round changes nothing. The
  pipeline is proved correct as a whole on runs whose stores do not overlap; the two locales
  state what a table of passes owes, and are interpreted on both tables of the code.
\<close>

type_synonym pass = "Function \<Rightarrow> (Function \<times> bool) option"

definition ALL_PASSES :: "(string \<times> pass) list" where
  "ALL_PASSES =
     [(''const_promote'', const_promote_pass),
      (''mem_forward'', \<lambda>f. Some (mem_forward_pass f)),
      (''const_promote'', const_promote_pass),
      (''const_fold'', const_fold_pass),
      (''insn_combine'', insn_combine_pass),
      (''dead_store_elim'', \<lambda>f. Some (dead_store_elim_pass f)),
      (''dead_dep_elim'', \<lambda>f. Some (dead_dep_elim_pass f)),
      (''branch_fold'', branch_fold_pass)]"

definition FOLD_PASSES :: "(string \<times> pass) list" where
  "FOLD_PASSES =
     [(''const_promote'', const_promote_pass),
      (''mem_forward'', \<lambda>f. Some (mem_forward_pass f)),
      (''const_promote'', const_promote_pass),
      (''const_fold'', const_fold_pass),
      (''insn_combine'', insn_combine_pass),
      (''branch_fold'', branch_fold_pass)]"

record ConvergenceReport =
  iterations :: int
  pass_hits :: "(string \<times> int) list"

definition count_hit :: "string \<Rightarrow> (string \<times> int) list \<Rightarrow> (string \<times> int) list" where
  "count_hit n hits = AList.update n ((case map_of hits n of Some k \<Rightarrow> k | None \<Rightarrow> 0) + 1) hits"

fun run_round ::
  "(string \<times> pass) list \<Rightarrow> Function \<Rightarrow> (string \<times> int) list \<Rightarrow> bool
   \<Rightarrow> (Function \<times> (string \<times> int) list \<times> bool) option" where
  "run_round [] f hits any = Some (f, hits, any)"
| "run_round ((n, fn) # ps) f hits any =
     do { (f', changed) \<leftarrow> fn f;
          if changed then run_round ps f' (count_hit n hits) True
          else run_round ps f' hits any }"

function converge_loop ::
  "(string \<times> pass) list \<Rightarrow> int \<Rightarrow> int \<Rightarrow> Function \<Rightarrow> ConvergenceReport
   \<Rightarrow> (Function \<times> ConvergenceReport) option" where
  "converge_loop ps max_iters it f report =
     (if it < max_iters then
        do { (f', hits, any) \<leftarrow> run_round ps f (pass_hits report) False;
             let report' = \<lparr>iterations = it + 1, pass_hits = hits\<rparr>
             in if \<not> any then Some (f', report')
                else converge_loop ps max_iters (it + 1) f' report' }
      else Some (f, report))"
  by pat_completeness auto
termination
  by (relation "measure (\<lambda>(ps, max_iters, it, f, r). nat (max_iters - it))") auto

declare converge_loop.simps [simp del]

definition run_to_convergence :: "Function \<Rightarrow> int \<Rightarrow> (Function \<times> ConvergenceReport) option" where
  "run_to_convergence f max_iters =
     converge_loop ALL_PASSES max_iters 0 f \<lparr>iterations = 0, pass_hits = []\<rparr>"

definition run_fold_convergence :: "Function \<Rightarrow> int \<Rightarrow> (Function \<times> ConvergenceReport) option" where
  "run_fold_convergence f max_iters =
     converge_loop FOLD_PASSES max_iters 0 f \<lparr>iterations = 0, pass_hits = []\<rparr>"

subsection \<open>What a table of passes owes\<close>

text \<open>
  Every pass keeps the invariant \<open>good\<close> and relates its input to its output by \<open>ref\<close>, and
  a pass that reports no change has made none.
\<close>

locale pass_pipeline =
  fixes passes :: "(string \<times> pass) list"
    and good :: "Function \<Rightarrow> bool"
    and rel :: "Function \<Rightarrow> Function \<Rightarrow> bool"
  assumes pass_good: "\<lbrakk>(n, p) \<in> set passes; p f = Some (f', ch); good f\<rbrakk> \<Longrightarrow> good f' \<and> rel f f'"
    and pass_same: "\<lbrakk>(n, p) \<in> set passes; p f = Some (f', False)\<rbrakk> \<Longrightarrow> f' = f"
    and rel_refl: "good f \<Longrightarrow> rel f f"
    and rel_trans: "\<lbrakk>rel f g; rel g h\<rbrakk> \<Longrightarrow> rel f h"
begin

lemma round_good:
  "\<lbrakk>run_round ps f hits any = Some (f', hits', any'); set ps \<subseteq> set passes; good f\<rbrakk>
   \<Longrightarrow> good f' \<and> rel f f'"
proof (induction ps f hits any rule: run_round.induct)
  case (2 n fn ps f hits any)
  obtain g ch where g: "fn f = Some (g, ch)"
    using "2.prems"(1) by (cases "fn f") auto
  from 2 have "(n, fn) \<in> set passes" by simp
  from pass_good [OF this g] "2.prems"(3) have "good g" "rel f g" by auto
  with 2 g have "good f' \<and> rel g f'" by (cases ch) auto
  with \<open>rel f g\<close> show ?case by (blast intro: rel_trans)
qed (auto intro: rel_refl)

lemma converge_good:
  "\<lbrakk>converge_loop passes m it f r = Some (f', r'); good f\<rbrakk> \<Longrightarrow> good f' \<and> rel f f'"
proof (induction "nat (m - it)" arbitrary: it f r rule: less_induct)
  case (less it f r)
  show ?case
  proof (cases "it < m")
    case True
    with less.prems(1) obtain g hits any where
        round: "run_round passes f (pass_hits r) False = Some (g, hits, any)"
      and rest: "(if \<not> any then Some (g, \<lparr>iterations = it + 1, pass_hits = hits\<rparr>)
          else converge_loop passes m (it + 1) g \<lparr>iterations = it + 1, pass_hits = hits\<rparr>) = Some (f', r')"
      by (subst (asm) converge_loop.simps) (auto simp: Let_def elim!: bind_SomeE)
    from round_good [OF round subset_refl less.prems(2)] have g: "good g" "rel f g" by auto
    show ?thesis
    proof (cases any)
      case True
      with less.hyps [of "it + 1" g "\<lparr>iterations = it + 1, pass_hits = hits\<rparr>"] \<open>it < m\<close> rest g
      have "good f' \<and> rel g f'" by simp
      with g show ?thesis by (blast intro: rel_trans)
    next
      case False
      with rest g show ?thesis by simp
    qed
  next
    case False
    with less.prems show ?thesis by (subst (asm) converge_loop.simps) (auto intro: rel_refl)
  qed
qed

lemma round_unchanged:
  "\<lbrakk>run_round ps f hits any = Some (f', hits', False); set ps \<subseteq> set passes\<rbrakk>
   \<Longrightarrow> f' = f \<and> \<not> any \<and> (\<forall>(n, p) \<in> set ps. p f = Some (f, False))"
proof (induction ps f hits any rule: run_round.induct)
  case (2 n fn ps f hits any)
  obtain g ch where g: "fn f = Some (g, ch)"
    using "2.prems"(1) by (cases "fn f") auto
  show ?case
  proof (cases ch)
    case True
    with 2 g show ?thesis by auto
  next
    case False
    with g 2 have "g = f" by (auto dest: pass_same)
    with 2 g False show ?thesis by auto
  qed
qed simp

lemma converge_fixpoint:
  "\<lbrakk>converge_loop passes m it f r = Some (f', r'); it \<ge> 0; iterations r = it\<rbrakk>
   \<Longrightarrow> iterations r' \<le> max m it \<and> (iterations r' < m \<longrightarrow> (\<forall>(n, p) \<in> set passes. p f' = Some (f', False)))"
proof (induction "nat (m - it)" arbitrary: it f r rule: less_induct)
  case (less it f r)
  show ?case
  proof (cases "it < m")
    case True
    with less.prems(1) obtain g hits any where
        round: "run_round passes f (pass_hits r) False = Some (g, hits, any)"
      and rest: "(if \<not> any then Some (g, \<lparr>iterations = it + 1, pass_hits = hits\<rparr>)
          else converge_loop passes m (it + 1) g \<lparr>iterations = it + 1, pass_hits = hits\<rparr>) = Some (f', r')"
      by (subst (asm) converge_loop.simps) (auto simp: Let_def elim!: bind_SomeE)
    show ?thesis
    proof (cases any)
      case any: True
      have "iterations r' \<le> max m (it + 1)
          \<and> (iterations r' < m \<longrightarrow> (\<forall>(n, p) \<in> set passes. p f' = Some (f', False)))"
        using less.hyps [of "it + 1" g "\<lparr>iterations = it + 1, pass_hits = hits\<rparr>"] True rest any
          less.prems(2) by simp
      with True show ?thesis by auto
    next
      case False
      with round_unchanged [of passes f _ False g hits] round
      have "\<forall>(n, p) \<in> set passes. p f = Some (f, False)" "g = f" by auto
      with rest False True show ?thesis by auto
    qed
  next
    case False
    with less.prems show ?thesis by (subst (asm) converge_loop.simps) auto
  qed
qed

end

text \<open>A table whose passes always have a defined result on the functions satisfying \<open>tame\<close>.\<close>

locale defined_pipeline =
  fixes passes :: "(string \<times> pass) list"
    and tame :: "Function \<Rightarrow> bool"
  assumes pass_tame: "\<lbrakk>(n, p) \<in> set passes; tame f\<rbrakk> \<Longrightarrow> \<exists>f' ch. p f = Some (f', ch) \<and> tame f'"
begin

lemma round_defined:
  "\<lbrakk>set ps \<subseteq> set passes; tame f\<rbrakk> \<Longrightarrow> \<exists>f' hits' any'. run_round ps f hits any = Some (f', hits', any') \<and> tame f'"
proof (induction ps f hits any rule: run_round.induct)
  case (2 n fn ps f hits any)
  then have "(n, fn) \<in> set passes" by simp
  from pass_tame [OF this "2.prems"(2)] obtain g ch where "fn f = Some (g, ch)" "tame g" by blast
  with 2 show ?case by (cases ch) auto
qed simp

lemma converge_defined:
  "tame f \<Longrightarrow> \<exists>f' r'. converge_loop passes m it f r = Some (f', r') \<and> tame f'"
proof (induction "nat (m - it)" arbitrary: it f r rule: less_induct)
  case (less it f r)
  from round_defined [OF subset_refl less.prems] obtain g hits any where
    round: "run_round passes f (pass_hits r) False = Some (g, hits, any)" "tame g" by blast
  then show ?case
    using less.hyps [of "it + 1" g "\<lparr>iterations = it + 1, pass_hits = hits\<rparr>"] less.prems
    by (subst converge_loop.simps) (auto simp: Let_def)
qed

end

subsection \<open>What the local passes do to stores and calls\<close>

text \<open>
  Either an instruction keeps its opcode and annotations, its operands keep their values and
  a constant operand stays as it is, or it was neither a store nor a call and becomes an
  operation that is neither and whose evaluation is always defined.
\<close>

definition quiet_op :: "Op \<Rightarrow> bool" where
  "quiet_op x \<longleftrightarrow> x \<in> {Op_CONST, Op_PASSTHROUGH, Op_JMP, Op_NOP}"

definition kept_store :: "env \<Rightarrow> state \<Rightarrow> Instruction \<Rightarrow> Instruction \<Rightarrow> bool" where
  "kept_store E s i i' \<longleftrightarrow>
     (quiet_op (op i') \<and> op i \<noteq> Op_STORE \<and> op i \<noteq> Op_CALL)
     \<or> (op i' = op i \<and> annotations i' = annotations i
        \<and> list_all2 (\<lambda>v w. eval_val E s w = eval_val E s v \<and> (is_const v \<longrightarrow> w = v)) (operands i) (operands i'))"

lemma kept_store_refl [simp]: "kept_store E s i i"
  by (simp add: kept_store_def list.rel_refl)

locale store_keeping_pass = rewrite_pass +
  assumes step_kept: "\<lbrakk>stp im d r x = Some (x', c); im = build_instr_map (d @ x # r); ssa (d @ x # r);
      \<And>y. y \<in> set d \<Longrightarrow> settled E s y\<rbrakk> \<Longrightarrow> kept_store E s x x'"
begin

text \<open>Along the whole function, with all operands evaluated at the end of the run.\<close>

lemma loop_kept:
  "\<lbrakk>for_each_instr (stp im) d r ch = Some (is, ch'); im = build_instr_map (d @ r); ssa (d @ r)\<rbrakk>
   \<Longrightarrow> \<exists>r'. is = d @ r' \<and> list_all2 (kept_store E (exec E s (d @ r))) r r'"
proof (induction "stp im" d r ch arbitrary: "is" rule: for_each_instr.induct)
  case (2 d x r ch)
  then obtain x' c where step: "stp im d r x = Some (x', c)"
    and rest: "for_each_instr (stp im) (d @ [x']) r (ch \<or> c) = Some (is, ch')"
    by (auto elim!: bind_SomeE)
  let ?s = "exec E s d" and ?t = "exec E s (d @ x # r)"
  have ssad: "ssa d" using "2.prems"(3) by (simp add: ssa_append)
  have snd: "exec_instr E ?s x' = exec_instr E ?s x" "set (ref_ids x') \<subseteq> set (ref_ids x) \<union> refs d"
    using step_sound [OF step "2.prems"(2,3) settled_exec [OF ssad]] by simp_all
  have ssa': "ssa ((d @ [x']) @ r)" using step_ssa [OF step "2.prems"(2,3)] .
  have "im = build_instr_map ((d @ [x']) @ r)"
    using "2.prems"(2) step_id [OF step] by (simp add: build_instr_map_cong)
  from "2.hyps" [OF step refl rest this ssa'] obtain r' where
    r': "is = (d @ [x']) @ r'" "list_all2 (kept_store E (exec E s ((d @ [x']) @ r))) r r'" by blast
  have same: "exec E s ((d @ [x']) @ r) = ?t" using snd(1) by simp
  have "kept_store E ?s x x'"
    using step_kept [OF step "2.prems"(2,3) settled_exec [OF ssad]] by simp
  moreover have late: "eval_val E ?t v = eval_val E ?s v" if "v \<in> set (operands x) \<union> set (operands x')" for v
  proof -
    have d: "set (ref_ids x) \<inter> ids (x # r) = {}" "refs d \<inter> ids (x # r) = {}"
      using "2.prems"(3) unfolding ssa_append ssa_Cons_iff by blast+
    with snd(2) have "set (ref_ids x') \<inter> ids (x # r) = {}" by blast
    with d(1) that val_refs_operand [of v x] val_refs_operand [of v x']
    have "val_refs v \<inter> ids (x # r) = {}" by blast
    then have "eval_val E (exec E ?s (x # r)) v = eval_val E ?s v"
      by (intro eval_val_exec) (cases v; auto)
    then show ?thesis by simp
  qed
  ultimately have "kept_store E ?t x x'"
    by (auto simp: kept_store_def late list_all2_conv_all_nth)
  with r' same show ?case by simp
qed simp

lemma pass_kept:
  assumes "run_pass stp f = Some (f', ch)" "ssa (instrs f)"
  shows "list_all2 (kept_store E (exec E s (instrs f))) (instrs f) (instrs f')"
proof -
  from assms(1) obtain js where js: "f' = f\<lparr>instrs := js\<rparr>"
    "for_each_instr (stp (build_instr_map (instrs f))) [] (instrs f) False = Some (js, ch)"
    by (auto simp: run_pass_def elim!: bind_SomeE)
  from loop_kept [OF js(2) _, of E s] assms(2) js(1) show ?thesis by simp
qed

end

lemma promote_operands_consts:
  "promote_operands im d r i seen vs ch = Some (i', c) \<Longrightarrow>
   list_all2 (\<lambda>v w. is_const v \<longrightarrow> w = v) (seen @ vs) (operands i')"
proof (induction im d r i seen vs ch rule: promote_operands.induct)
  case (1 im pre rest i seen ch)
  then show ?case by (auto intro: list.rel_refl)
next
  case (2 im pre rest i seen v vs ch)
  show ?case
  proof (cases "is_instrref v")
    case False
    with 2 show ?thesis by simp
  next
    case True
    with "2.prems" obtain w where w: "resolve (pre @ i\<lparr>operands := seen @ v # vs\<rparr> # rest) im v = Some w"
      and rest: "promote_operands im pre rest i (seen @ [w]) vs (w \<noteq> v \<or> ch) = Some (i', c)"
      by (auto elim!: bind_SomeE split: if_splits)
    have "list_all2 (\<lambda>v w. is_const v \<longrightarrow> w = v) ((seen @ [w]) @ vs) (operands i')"
      using "2.IH"(2) [OF _ w] "2.IH"(3) [OF _ w] True rest by (cases "w = v") auto
    moreover have "\<not> is_const v" using True by (cases v) auto
    moreover from calculation have len: "length (operands i') = length (seen @ v # vs)"
      by (auto dest: list_all2_lengthD)
    ultimately show ?thesis
      by (auto simp: list_all2_conv_all_nth nth_append nth_Cons split: if_splits nat.splits)
  qed
qed

interpretation promote_kept: store_keeping_pass const_promote_step
proof unfold_locales
  fix im d r x x' c E s
  assume step: "const_promote_step im d r x = Some (x', c)" "im = build_instr_map (d @ x # r)"
    "ssa (d @ x # r)" "\<And>y. y \<in> set d \<Longrightarrow> settled E s y"
  have run: "promote_operands im d r x [] (operands x) False = Some (x', c)"
    using step(1) by (simp add: const_promote_step_def)
  have "map (eval_val E s) (operands x') = map (eval_val E s) (operands x)"
    using promote_operands_sound [OF run step(2) _ step(4)] step(3) by simp
  moreover have "list_all2 (\<lambda>v w. is_const v \<longrightarrow> w = v) (operands x) (operands x')"
    using promote_operands_consts [OF run] by simp
  ultimately show "kept_store E s x x'"
    using promote_operands_id [OF run]
    by (auto simp: kept_store_def list_all2_conv_all_nth map_equality_iff)
qed

interpretation fold_kept: store_keeping_pass const_fold_step
proof unfold_locales
  fix im d r x x' c E s
  assume "const_fold_step im d r x = Some (x', c)"
  then show "kept_store E s x x'"
  proof (cases rule: const_fold_step_cases)
    case (binary a ab b bb)
    then show ?thesis by (cases "op x") (auto simp: kept_store_def quiet_op_def)
  next
    case (unary a ab)
    then show ?thesis by (cases "op x") (auto simp: kept_store_def quiet_op_def)
  qed (auto simp: kept_store_def quiet_op_def)
qed

interpretation branch_kept: store_keeping_pass branch_fold_step
proof unfold_locales
  fix im d r x x' c E s
  assume "branch_fold_step im d r x = Some (x', c)"
  then show "kept_store E s x x'"
    by (cases rule: branch_fold_step_cases) (auto simp: kept_store_def quiet_op_def)
qed

lemma combine_rest_op:
  assumes "combine_rest im d r i = (i', c)"
  shows "i' = i \<or> quiet_op (op i') \<and> op i \<noteq> Op_STORE \<and> op i \<noteq> Op_CALL"
proof -
  obtain i1 c1 where s1: "combine_double_unary im (d @ i # r) i = (i1, c1)" by force
  obtain i2 c2 where s2: "combine_mba im (d @ i1 # r) i1 = (i2, c2)" by force
  obtain i3 c3 where s3: "combine_or_self i2 = (i3, c3)" by force
  have "i1 = i \<or> op i1 = Op_PASSTHROUGH \<and> op i \<noteq> Op_STORE \<and> op i \<noteq> Op_CALL"
    using s1 by (auto simp: combine_double_unary_def split: if_splits option.splits)
  moreover have "i2 = i1 \<or> op i2 = Op_PASSTHROUGH \<and> op i1 = Op_OR"
    using s2 by (auto simp: combine_mba_def Let_def split: if_splits)
  moreover have "i3 = i2 \<or> op i3 = Op_PASSTHROUGH \<and> op i2 = Op_OR"
    using s3 by (auto simp: combine_or_self_def split: if_splits)
  ultimately show ?thesis using assms s1 s2 s3 by (auto simp: combine_rest_def quiet_op_def)
qed

interpretation combine_kept: store_keeping_pass insn_combine_step
proof unfold_locales
  fix im d r x x' c E s
  assume step: "insn_combine_step im d r x = Some (x', c)"
  have "quiet_op (op i') \<and> op x \<noteq> Op_STORE \<and> op x \<noteq> Op_CALL" if "combine_identity rb x = Some i'" for rb i'
    using that by (auto simp: combine_identity_def Let_def quiet_op_def split: if_splits)
  with step have "x' = x \<or> quiet_op (op x') \<and> op x \<noteq> Op_STORE \<and> op x \<noteq> Op_CALL"
    by (auto simp: insn_combine_step_def split: if_splits option.splits elim!: bind_SomeE
        dest!: combine_rest_op)
  then show "kept_store E s x x'" by (auto simp: kept_store_def list.rel_refl)
qed

subsection \<open>Runs on which the pipeline is correct\<close>

text \<open>
  In order of the stores: two of them either both name a constant address, the same one, or
  write disjoint bytes.
\<close>

definition store_targets :: "env \<Rightarrow> state \<Rightarrow> Instruction list \<Rightarrow> (bool \<times> u64) list" where
  "store_targets E t is = map (\<lambda>a. (is_const a, eval_val E t a)) (store_addrs is)"

definition separate_targets :: "bool \<times> u64 \<Rightarrow> bool \<times> u64 \<Rightarrow> bool" where
  "separate_targets x y \<longleftrightarrow> fst x \<and> fst y \<and> snd x = snd y \<or> apart 8 (snd x) 8 (snd y)"

definition stores_isolated :: "env \<Rightarrow> state \<Rightarrow> Instruction list \<Rightarrow> bool" where
  "stores_isolated E s is = sorted_wrt separate_targets (store_targets E (exec E s is) is)"

definition no_private_stores :: "Instruction list \<Rightarrow> bool" where
  "no_private_stores is = list_all (\<lambda>i. op i = Op_STORE \<longrightarrow> \<not> has_ann i ''vm_private'' ''1'') is"

definition no_risky_ops :: "Instruction list \<Rightarrow> bool" where
  "no_risky_ops is = list_all (\<lambda>i. op i \<notin> {Op_ROL, Op_ROR, Op_SAR, Op_NEG}) is"

lemma stores_isolated_separate:
  assumes "stores_isolated E s is"
  shows "stores_separate E s is"
proof -
  let ?t = "exec E s is"
  have nth: "same_slot (store_addrs is ! i) (store_addrs is ! j)
      \<or> apart 8 (eval_val E ?t (store_addrs is ! i)) 8 (eval_val E ?t (store_addrs is ! j))"
    if "i < j" "j < length (store_addrs is)" for i j
  proof -
    have "separate_targets (store_targets E ?t is ! i) (store_targets E ?t is ! j)"
      using assms that by (auto simp: stores_isolated_def sorted_wrt_iff_nth_less store_targets_def)
    with that show ?thesis
      by (auto simp: separate_targets_def store_targets_def same_slot_def is_const_iff)
  qed
  show ?thesis unfolding stores_separate_def Let_def
  proof (intro ballI)
    fix a b assume "a \<in> set (store_addrs is)" "b \<in> set (store_addrs is)"
    then obtain i j where ij: "i < length (store_addrs is)" "a = store_addrs is ! i"
      "j < length (store_addrs is)" "b = store_addrs is ! j" by (auto simp: in_set_conv_nth)
    then consider "i = j" | "i < j" | "j < i" by linarith
    then show "same_slot a b \<or> apart 8 (eval_val E ?t a) 8 (eval_val E ?t b)"
    proof cases
      case 1
      with ij show ?thesis by (simp add: same_slot_def)
    next
      case 2
      with nth [OF this] ij show ?thesis by simp
    next
      case 3
      with nth [OF this] ij have "same_slot b a \<or> apart 8 (eval_val E ?t b) 8 (eval_val E ?t a)" by simp
      then show ?thesis by (subst apart_sym) (auto simp: same_slot_def)
    qed
  qed
qed

lemma kept_store_cases:
  assumes "kept_store E t i i'"
  shows "is_store i' = is_store i" "op i' = Op_CALL \<Longrightarrow> op i = Op_CALL"
    "op i' = Op_STORE \<Longrightarrow> op i = Op_STORE \<and> annotations i' = annotations i"
    "op i' \<in> {Op_ROL, Op_ROR, Op_SAR, Op_NEG} \<Longrightarrow> op i \<in> {Op_ROL, Op_ROR, Op_SAR, Op_NEG}"
    "is_store i \<Longrightarrow> eval_val E t (operands i' ! 0) = eval_val E t (operands i ! 0)
       \<and> (is_const (operands i ! 0) \<longrightarrow> is_const (operands i' ! 0))"
  using assms
  by (auto simp: kept_store_def quiet_op_def is_store_def dest: list_all2_lengthD list_all2_nthD [of _ _ _ 0])

lemma kept_flags:
  assumes "list_all2 (kept_store E t) is is'"
  shows "no_calls is \<longrightarrow> no_calls is'" "no_private_stores is \<longrightarrow> no_private_stores is'"
    "no_risky_ops is \<longrightarrow> no_risky_ops is'"
  using assms
  by (induction rule: list_all2_induct)
    (auto simp: no_calls_def no_private_stores_def no_risky_ops_def has_ann_def dest: kept_store_cases)

lemma kept_targets:
  assumes "list_all2 (kept_store E t) is is'"
  shows "list_all2 (\<lambda>x y. snd y = snd x \<and> (fst x \<longrightarrow> fst y)) (store_targets E t is) (store_targets E t is')"
  using assms
proof (induction rule: list_all2_induct)
  case (Cons i "is" i' is')
  with kept_store_cases(1,5) [OF Cons(1)] show ?case by (simp add: store_targets_def)
qed (simp add: store_targets_def)

lemma isolated_kept:
  assumes "list_all2 (kept_store E (exec E s is)) is is'" "exec E s is' = exec E s is"
    "stores_isolated E s is"
  shows "stores_isolated E s is'"
proof -
  have mono: "separate_targets x' y'"
    if "separate_targets x y" "snd x' = snd x \<and> (fst x \<longrightarrow> fst x')" "snd y' = snd y \<and> (fst y \<longrightarrow> fst y')"
    for x y x' y'
    using that by (auto simp: separate_targets_def)
  let ?xs = "store_targets E (exec E s is) is" and ?ys = "store_targets E (exec E s is) is'"
  note rel = kept_targets [OF assms(1)]
  have "sorted_wrt separate_targets ?ys"
  proof (rule sorted_wrt_iff_nth_less [THEN iffD2], intro allI impI)
    fix i j assume ij: "i < j" "j < length ?ys"
    then have len: "i < length ?xs" "j < length ?xs" using list_all2_lengthD [OF rel] by auto
    from assms(3) ij(1) len(2) have "separate_targets (?xs ! i) (?xs ! j)"
      by (simp add: stores_isolated_def sorted_wrt_iff_nth_less)
    from mono [OF this list_all2_nthD [OF rel len(1)] list_all2_nthD [OF rel len(2)]]
    show "separate_targets (?ys ! i) (?ys ! j)" .
  qed
  with assms(2) show ?thesis by (simp add: stores_isolated_def)
qed

definition fold_good :: "env \<Rightarrow> state \<Rightarrow> Function \<Rightarrow> bool" where
  "fold_good E s f \<longleftrightarrow> ssa (instrs f) \<and> no_calls (instrs f) \<and> stores_isolated E s (instrs f)"

definition fold_rel :: "env \<Rightarrow> state \<Rightarrow> Function \<Rightarrow> Function \<Rightarrow> bool" where
  "fold_rel E s f g \<longleftrightarrow>
     exec E s (instrs g) = exec E s (instrs f) \<and> map result_id (instrs g) = map result_id (instrs f)"

lemma kept_fold_good:
  assumes "list_all2 (kept_store E (exec E s (instrs f))) (instrs f) (instrs g)" "fold_good E s f"
    "fold_rel E s f g" "ssa (instrs g)"
  shows "fold_good E s g"
  using assms isolated_kept [OF assms(1)] kept_flags [OF assms(1)] by (auto simp: fold_good_def fold_rel_def)

context store_keeping_pass begin

lemma pass_fold_good:
  assumes "run_pass stp f = Some (f', ch)" "fold_good E s f"
  shows "fold_good E s f' \<and> fold_rel E s f f'"
proof -
  from assms(2) have "ssa (instrs f)" by (simp add: fold_good_def)
  from pass_sound [OF assms(1) this] pass_kept [OF assms(1) this, of E s]
  show ?thesis using assms(2) kept_fold_good
    by (auto simp: same_computation_def fold_rel_def)
qed

end

lemma mem_forward_loop_shape:
  "mem_forward_loop cm rm r = (r', ch) \<Longrightarrow>
   list_all2 (kept_store E t) r r' \<and> (\<not> ch \<longrightarrow> r' = r)"
proof (induction r arbitrary: cm rm r' ch)
  case (Cons i r)
  have "kept_store E t i (forward_load v i)" if "op i = Op_LOAD" for v
    using that by (simp add: kept_store_def quiet_op_def forward_load_def)
  with Cons show ?case
    by (fastforce simp: mem_forward_loop_Cons split: if_splits prod.splits option.splits)
qed simp

lemma mem_forward_pass_kept:
  assumes "mem_forward_pass f = (f', ch)"
  shows "list_all2 (kept_store E t) (instrs f) (instrs f') \<and> (\<not> ch \<longrightarrow> f' = f)"
  using assms mem_forward_loop_shape [of Map.empty Map.empty "instrs f"]
  by (auto simp: mem_forward_pass_def split: prod.splits)

lemma mem_forward_fold_good:
  assumes "mem_forward_pass f = (f', ch)" "fold_good E s f"
  shows "fold_good E s f' \<and> fold_rel E s f f'"
proof -
  have "ssa (instrs f)" "stores_separate E s (instrs f)" "no_calls (instrs f)"
    using assms(2) by (simp_all add: fold_good_def stores_isolated_separate)
  from mem_forward_pass_sound [OF assms(1) this]
  have "fold_rel E s f f'" "ssa (instrs f')" by (auto simp: fold_rel_def)
  with kept_fold_good [OF _ assms(2)] mem_forward_pass_kept [OF assms(1)] show ?thesis by blast
qed

text \<open>Forwarding keeps single assignment even where it changes what a load yields.\<close>

lemma mem_forward_loop_ssa:
  assumes "mem_forward_loop cm rm r = (r', ch)" "ssa (d @ r)"
    "\<And>a v. slot_lookup cm rm a = Some v \<Longrightarrow> val_refs v \<subseteq> refs d"
  shows "ssa (d @ r')"
  using assms
proof (induction r arbitrary: d cm rm r' ch)
  case (Cons i r)
  have mono: "\<And>a v. slot_lookup cm rm a = Some v \<Longrightarrow> val_refs v \<subseteq> refs (d @ [x])" for x
    using Cons.prems(3) by fastforce
  show ?case
  proof (cases "is_store i")
    case True
    then obtain cm' rm' js where
        upd: "slot_update cm rm (operands i ! 0) (operands i ! 1) = (cm', rm')"
      and loop: "mem_forward_loop cm' rm' r = (js, ch)" and r': "r' = i # js"
      using Cons.prems(1) by (auto simp: mem_forward_loop_Cons split: prod.splits)
    have "operands i ! 1 \<in> set (operands i)" using True by (auto simp: is_store_def)
    then have "val_refs (operands i ! 1) \<subseteq> set (ref_ids i)" by (rule val_refs_operand)
    then have "val_refs v \<subseteq> refs (d @ [i])" if "slot_lookup cm' rm' a = Some v" for a v
      using slot_lookup_update [OF upd that] mono [of a v i] by auto
    from Cons.IH [OF loop _ this] Cons.prems(2) r' show ?thesis by simp
  next
    case False
    obtain js c where loop: "mem_forward_loop cm rm r = (js, c)" by force
    have step: "ssa (d @ x # js)" if "ssa (d @ x # r)" for x
      using Cons.IH [OF loop, of "d @ [x]"] that mono by simp
    show ?thesis
    proof (cases "r' = i # js")
      case True
      with step Cons.prems(2) show ?thesis by simp
    next
      case unequal: False
      with False Cons.prems(1) loop obtain v where v: "slot_lookup cm rm (operands i ! 0) = Some v"
          "r' = forward_load v i # js"
        by (auto simp: mem_forward_loop_Cons split: if_splits option.splits)
      have "set (ref_ids (forward_load v i)) \<subseteq> set (ref_ids i) \<union> refs d"
        using Cons.prems(3) [OF v(1)] by (auto simp: ref_ids_forward_load)
      from step [OF ssa_replace [OF Cons.prems(2) _ this]] v(2) show ?thesis by simp
    qed
  qed
qed simp

lemma mem_forward_pass_ssa:
  "mem_forward_pass f = (f', ch) \<Longrightarrow> ssa (instrs f) \<Longrightarrow> ssa (instrs f')"
proof -
  assume "mem_forward_pass f = (f', ch)" and "ssa (instrs f)"
  then obtain js where "mem_forward_loop Map.empty Map.empty (instrs f) = (js, ch)" "f' = f\<lparr>instrs := js\<rparr>"
    by (auto simp: mem_forward_pass_def split: prod.splits)
  moreover have "slot_lookup Map.empty Map.empty a = None" for a
    by (simp add: slot_lookup_def split: option.split)
  ultimately show ?thesis
    using mem_forward_loop_ssa [of Map.empty Map.empty "instrs f" js ch "[]"] \<open>ssa (instrs f)\<close> by simp
qed

subsection \<open>The passes that drop instructions\<close>

definition all_good :: "env \<Rightarrow> state \<Rightarrow> Function \<Rightarrow> bool" where
  "all_good E s f \<longleftrightarrow> fold_good E s f \<and> no_private_stores (instrs f)"

text \<open>What the full pipeline keeps: of the ids still defined the values, and the memory and
  the trace.\<close>

definition all_rel :: "env \<Rightarrow> state \<Rightarrow> Function \<Rightarrow> Function \<Rightarrow> bool" where
  "all_rel E s f g \<longleftrightarrow>
     ids (instrs g) \<subseteq> ids (instrs f)
     \<and> agree (ids (instrs f) - ids (instrs g)) {} (exec E s (instrs f)) (exec E s (instrs g))"

lemma fold_rel_all_rel: "fold_rel E s f g \<Longrightarrow> all_rel E s f g"
proof -
  assume a: "fold_rel E s f g"
  then have "ids (instrs g) = ids (instrs f)"
    unfolding fold_rel_def by (metis list.set_map)
  with a show ?thesis by (simp add: all_rel_def fold_rel_def)
qed

lemma agree_trans: "agree X {} t u \<Longrightarrow> agree Y {} u v \<Longrightarrow> agree (X \<union> Y) {} t v"
  by (auto simp: agree_def)

lemma all_rel_trans: "all_rel E s f g \<Longrightarrow> all_rel E s g h \<Longrightarrow> all_rel E s f h"
proof -
  assume fg: "all_rel E s f g" and gh: "all_rel E s g h"
  then have "ids (instrs f) - ids (instrs h) =
      (ids (instrs f) - ids (instrs g)) \<union> (ids (instrs g) - ids (instrs h))"
    by (auto simp: all_rel_def)
  with fg gh show ?thesis
    by (simp only: all_rel_def) (blast intro: agree_trans)
qed

lemma dead_store_walk_no_private:
  "no_private_stores is \<Longrightarrow> \<not> list_ex Not (snd (dead_store_walk is))"
proof (induction "is")
  case (Cons i "is")
  then have "private_store i = None" by (auto simp: private_store_def no_private_stores_def)
  with Cons show ?case
    by (cases "dead_store_walk is") (auto simp: no_private_stores_def split: option.splits)
qed simp

lemma dead_store_no_private:
  "no_private_stores (instrs f) \<Longrightarrow> dead_store_elim_pass f = (f, False)"
  by (simp add: dead_store_elim_pass_def Let_def dead_store_walk_no_private)

lemma dead_store_unchanged: "dead_store_elim_pass f = (f', False) \<Longrightarrow> f' = f"
  by (auto simp: dead_store_elim_pass_def Let_def)

lemma dead_dep_unchanged: "dead_dep_elim_pass f = (f', False) \<Longrightarrow> f' = f"
  by (auto simp: dead_dep_elim_pass_def drop_unkept_def Let_def)

lemma ssa_ids_filter:
  "ssa is \<Longrightarrow> i \<in> set is \<Longrightarrow> result_id i \<in> ids (filter K is) \<longleftrightarrow> K i"
  using ssa_distinct [of "is"] by (auto simp: distinct_map inj_on_def)

lemma store_addrs_filter:
  "(\<And>i. i \<in> set is \<Longrightarrow> is_store i \<Longrightarrow> K i) \<Longrightarrow> store_addrs (filter K is) = store_addrs is"
proof -
  assume "\<And>i. i \<in> set is \<Longrightarrow> is_store i \<Longrightarrow> K i"
  then have "filter (\<lambda>i. K i \<and> is_store i) is = filter is_store is" by (intro filter_cong) auto
  then show ?thesis by (simp add: store_addrs_def)
qed

lemma dead_dep_all_good:
  assumes "dead_dep_elim_pass f = (f', ch)" "all_good E s f"
  shows "all_good E s f' \<and> all_rel E s f f'"
proof -
  let ?K = "\<lambda>i. op_is_side_effectful (op i) \<or> result_id i \<in> refs (instrs f)"
  let ?X = "ids (instrs f) - ids (instrs f')"
  have ssa: "ssa (instrs f)" using assms(2) by (simp add: all_good_def fold_good_def)
  have f': "instrs f' = filter ?K (instrs f)"
    using assms(1) drop_unkept_instrs [of _ f] by (metis dead_dep_elim_pass_def fst_conv referenced_refs)
  have X: "i \<in> set (instrs f) \<Longrightarrow> result_id i \<in> ?X \<longleftrightarrow> \<not> ?K i" for i
    unfolding f' using ssa_ids_filter [OF ssa, of i ?K] by auto
  have unref: "i \<in> set (instrs f) \<Longrightarrow> set (ref_ids i) \<inter> ?X = {}" for i
    using X by fastforce
  have ag: "agree ?X {} (exec E s (instrs f)) (exec E s (instrs f'))"
    unfolding f' by (rule exec_filter_agree) (use X unref f' in auto)
  moreover have "store_addrs (instrs f') = store_addrs (instrs f)"
    unfolding f' by (rule store_addrs_filter) (auto simp: is_store_def)
  moreover have "eval_val E (exec E s (instrs f')) a = eval_val E (exec E s (instrs f)) a"
    if "a \<in> set (store_addrs (instrs f))" for a
  proof -
    from that obtain i where i: "i \<in> set (instrs f)" "is_store i" "a = operands i ! 0"
      by (auto simp: store_addrs_def)
    then have "a \<in> set (operands i)" by (auto simp: is_store_def)
    from agree_operands [OF ag unref [OF i(1)], of E] this show ?thesis by (auto simp: map_eq_conv)
  qed
  ultimately have "store_targets E (exec E s (instrs f')) (instrs f')
      = store_targets E (exec E s (instrs f)) (instrs f)"
    by (simp add: store_targets_def)
  moreover have "no_calls (instrs f) \<Longrightarrow> no_calls (instrs f')"
      "no_private_stores (instrs f) \<Longrightarrow> no_private_stores (instrs f')"
    by (auto simp: f' no_calls_def no_private_stores_def list_all_iff)
  ultimately show ?thesis
    using assms(2) ag ssa_filter [OF ssa, of ?K]
    by (auto simp: all_good_def fold_good_def stores_isolated_def all_rel_def f')
qed

subsection \<open>Both tables are pipelines\<close>

lemma fold_passes_good:
  assumes "(n, p) \<in> set FOLD_PASSES" "p f = Some (f', ch)" "fold_good E s f"
  shows "fold_good E s f' \<and> fold_rel E s f f'"
  using assms promote_kept.pass_fold_good fold_kept.pass_fold_good combine_kept.pass_fold_good
    branch_kept.pass_fold_good mem_forward_fold_good
  by (auto simp: FOLD_PASSES_def const_promote_pass_def const_fold_pass_def insn_combine_pass_def
      branch_fold_pass_def)

lemma fold_passes_same:
  assumes "(n, p) \<in> set FOLD_PASSES" "p f = Some (f', False)"
  shows "f' = f"
  using assms promote.pass_unchanged fold.pass_unchanged combine.pass_unchanged
    branch.pass_unchanged mem_forward_pass_kept [of f f' False]
  by (auto simp: FOLD_PASSES_def const_promote_pass_def const_fold_pass_def insn_combine_pass_def
      branch_fold_pass_def)

interpretation fold_pipeline: pass_pipeline FOLD_PASSES "fold_good E s" "fold_rel E s" for E s
  by unfold_locales (auto simp: fold_rel_def dest: fold_passes_good fold_passes_same)

lemma all_passes_cases:
  "(n, p) \<in> set ALL_PASSES \<Longrightarrow> (n, p) \<in> set FOLD_PASSES
     \<or> p = (\<lambda>f. Some (dead_store_elim_pass f)) \<or> p = (\<lambda>f. Some (dead_dep_elim_pass f))"
  by (auto simp: ALL_PASSES_def FOLD_PASSES_def)

lemma fold_passes_no_private:
  assumes "(n, p) \<in> set FOLD_PASSES" "p f = Some (f', ch)" "ssa (instrs f)" "no_private_stores (instrs f)"
  shows "no_private_stores (instrs f')"
proof -
  have "list_all2 (kept_store E (exec E s (instrs f))) (instrs f) (instrs f')" for E s
    using assms(1-3) promote_kept.pass_kept fold_kept.pass_kept combine_kept.pass_kept
      branch_kept.pass_kept mem_forward_pass_kept
    by (auto simp: FOLD_PASSES_def const_promote_pass_def const_fold_pass_def insn_combine_pass_def
        branch_fold_pass_def)
  then show ?thesis using kept_flags(2) assms(4) by blast
qed

interpretation all_pipeline: pass_pipeline ALL_PASSES "all_good E s" "all_rel E s" for E s
proof unfold_locales
  fix n p f f' ch
  assume p: "(n, p) \<in> set ALL_PASSES" "p f = Some (f', ch)" "all_good E s f"
  then have good: "fold_good E s f" "no_private_stores (instrs f)" "ssa (instrs f)"
    by (auto simp: all_good_def fold_good_def)
  from all_passes_cases [OF p(1)]
  show "all_good E s f' \<and> all_rel E s f f'"
  proof (elim disjE)
    assume "(n, p) \<in> set FOLD_PASSES"
    from fold_passes_good [OF this p(2) good(1)] fold_passes_no_private [OF this p(2) good(3,2)]
    show ?thesis by (simp add: all_good_def fold_rel_all_rel)
  next
    assume "p = (\<lambda>f. Some (dead_store_elim_pass f))"
    with p dead_store_no_private [OF good(2)] show ?thesis by (auto simp: all_rel_def)
  next
    assume "p = (\<lambda>f. Some (dead_dep_elim_pass f))"
    with p dead_dep_all_good show ?thesis by auto
  qed
next
  fix n p f f'
  assume "(n, p) \<in> set ALL_PASSES" "p f = Some (f', False)"
  with all_passes_cases [OF this(1)] show "f' = f"
    by (auto dest: fold_passes_same dead_store_unchanged dead_dep_unchanged)
next
  show "all_rel E s f f" for f by (simp add: all_rel_def)
qed (rule all_rel_trans)

subsection \<open>When the pipeline has a defined result\<close>

definition tame :: "Function \<Rightarrow> bool" where
  "tame f \<longleftrightarrow> ssa (instrs f) \<and> no_risky_ops (instrs f)"

lemma no_risky_not_stuck: "no_risky_ops is \<Longrightarrow> \<not> list_ex fold_stuck is"
  by (induction "is") (auto simp: no_risky_ops_def fold_stuck_def fold_undefined_def
      split: list.splits Value.splits)

lemma fold_passes_tame:
  assumes "(n, p) \<in> set FOLD_PASSES" "tame f"
  shows "\<exists>f' ch. p f = Some (f', ch) \<and> tame f'"
proof -
  have ssa: "ssa (instrs f)" "no_risky_ops (instrs f)" using assms(2) by (simp_all add: tame_def)
  have local: "\<exists>f' ch. run_pass stp f = Some (f', ch) \<and> tame f'"
    if "store_keeping_pass stp" "\<exists>f' ch. run_pass stp f = Some (f', ch)" for stp
  proof -
    from that(2) obtain f' ch where run: "run_pass stp f = Some (f', ch)" by blast
    from rewrite_pass.pass_sound [OF store_keeping_pass.axioms(1) [OF that(1)] run ssa(1)]
      kept_flags(3) [OF store_keeping_pass.pass_kept [OF that(1) run ssa(1)]] ssa(2) run
    show ?thesis by (auto simp: tame_def same_computation_def)
  qed
  have "const_fold_pass f \<noteq> None" using const_fold_pass_stuck no_risky_not_stuck [OF ssa(2)] by simp
  then have "\<exists>f' ch. run_pass const_fold_step f = Some (f', ch)" by (auto simp: const_fold_pass_def)
  note runs = local [OF promote_kept.store_keeping_pass_axioms promote.pass_defined [OF ssa(1)]]
    local [OF fold_kept.store_keeping_pass_axioms this]
    local [OF combine_kept.store_keeping_pass_axioms combine.pass_defined [OF ssa(1)]]
    local [OF branch_kept.store_keeping_pass_axioms branch.pass_defined [OF ssa(1)]]
  obtain g c where g: "mem_forward_pass f = (g, c)" by force
  have "tame g"
    using mem_forward_pass_ssa [OF g ssa(1)] kept_flags(3) [OF conjunct1 [OF mem_forward_pass_kept [OF g]]]
      ssa(2) by (simp add: tame_def)
  with g have "\<exists>f' ch. Some (mem_forward_pass f) = Some (f', ch) \<and> tame f'" by simp
  note runs = runs this
  from assms(1) consider "p = const_promote_pass" | "p = (\<lambda>f. Some (mem_forward_pass f))"
    | "p = const_fold_pass" | "p = insn_combine_pass" | "p = branch_fold_pass"
    by (auto simp: FOLD_PASSES_def)
  then show ?thesis
    using runs by cases (simp_all only: const_promote_pass_def const_fold_pass_def
        insn_combine_pass_def branch_fold_pass_def)
qed

lemma filter_tame: "tame f \<Longrightarrow> instrs g = filter K (instrs f) \<Longrightarrow> tame g"
  by (auto simp: tame_def no_risky_ops_def list_all_iff intro: ssa_filter)

interpretation fold_defined: defined_pipeline FOLD_PASSES tame
  by unfold_locales (rule fold_passes_tame)

interpretation all_defined: defined_pipeline ALL_PASSES tame
proof unfold_locales
  fix n p f assume p: "(n, p) \<in> set ALL_PASSES" "tame f"
  from all_passes_cases [OF p(1)] show "\<exists>f' ch. p f = Some (f', ch) \<and> tame f'"
  proof (elim disjE)
    assume "(n, p) \<in> set FOLD_PASSES"
    then show ?thesis by (rule fold_passes_tame [OF _ p(2)])
  next
    assume "p = (\<lambda>f. Some (dead_store_elim_pass f))"
    moreover have "tame (fst (dead_store_elim_pass f))"
      using p(2) select_kept_subset by (fastforce simp: tame_def dead_store_elim_instrs ssa_select_kept
          no_risky_ops_def list_all_iff)
    ultimately show ?thesis by (cases "dead_store_elim_pass f") auto
  next
    assume "p = (\<lambda>f. Some (dead_dep_elim_pass f))"
    then show ?thesis
      using filter_tame [OF p(2)] drop_unkept_instrs [of _ f]
      by (cases "dead_dep_elim_pass f") (metis dead_dep_elim_pass_def fst_conv)
  qed
qed

subsection \<open>Properties\<close>


definition convergence_example :: Function where
  "convergence_example =
     \<lparr>fn_name = ''f'',
      instrs = [instr0 Op_CONST [Const64 5] 0,
                instr0 Op_ADD [InstrRef 0, Const64 3] 1,
                instr0 Op_STORE [Const64 0x1000, InstrRef 1] 2,
                instr0 Op_LOAD [Const64 0x1000] 3,
                instr0 Op_XOR [InstrRef 3, InstrRef 3] 4,
                instr0 Op_CJMP [InstrRef 4, Const64 0x400000] 5,
                instr0 Op_JMP [InstrRef 3] 6],
      next_id = 7\<rparr>"

lemma convergence_example_run:
  "map_option (\<lambda>(f', rep). (map (\<lambda>i. (op i, operands i, result_id i)) (instrs f'), iterations rep))
       (run_to_convergence convergence_example 32)
     = Some ([(Op_STORE, [Const64 0x1000, Const64 8], 2), (Op_JMP, [Const64 8], 6)], 4)"
  by code_simp



lemma convergence_example_fold_run:
  "map_option (\<lambda>(f', rep). (map (\<lambda>i. (op i, operands i)) (instrs f'), iterations rep))
       (run_fold_convergence convergence_example 32)
     = Some ([(Op_CONST, [Const64 5]), (Op_CONST, [Const64 8]), (Op_STORE, [Const64 0x1000, Const64 8]),
              (Op_PASSTHROUGH, [Const64 8]), (Op_CONST, [Const64 0]), (Op_NOP, [Const64 0x400000]),
              (Op_JMP, [Const64 8])], 3)"
  by code_simp




text \<open>On a single-assignment function without rotates, arithmetic right shifts and
  negations both drivers have a defined result for every number of rounds: no loop of a pass
  runs forever and no evaluation is undefined.\<close>

theorem convergence_defined:
  assumes "ssa (instrs f)" "no_risky_ops (instrs f)"
  shows "(\<exists>f' report. run_to_convergence f max_iters = Some (f', report))
    \<and> (\<exists>f' report. run_fold_convergence f max_iters = Some (f', report))"
  using assms all_defined.converge_defined [of f max_iters 0] fold_defined.converge_defined [of f max_iters 0]
  by (fastforce simp: tame_def run_to_convergence_def run_fold_convergence_def)

theorem convergence_defined_witness:
  "(\<exists>f' report. run_to_convergence convergence_example 1000 = Some (f', report))
   \<and> run_to_convergence (convergence_example\<lparr>instrs := [instr0 Op_SAR [Const64 (- 1), Const64 0] 0]\<rparr>) 1 = None"
proof -
  have "ssa (instrs convergence_example)" "no_risky_ops (instrs convergence_example)" by code_simp+
  moreover have "run_to_convergence (convergence_example\<lparr>instrs := [instr0 Op_SAR [Const64 (- 1), Const64 0] 0]\<rparr>) 1 = None"
    by code_simp
  ultimately show ?thesis using convergence_defined [of convergence_example 1000] by blast
qed

end
