(* ===== verification/Segment_Fold.thy ===== *)
theory Segment_Fold
  imports Convergence
begin

section \<open>Folding a segment and splitting its branch (src/eval/segment_eval.cpp)\<close>

text \<open>
  The segment evaluator's own fixpoint loop, and the recovery of the two targets of a
  virtual conditional jump: the condition is assumed to be 1 and then 0 in a copy of the
  function, the copy is folded, and the next virtual program counter must resolve to two
  different constants. Both are ordinary partial evaluation, and are proved so.
\<close>

definition fold_round :: "Function \<Rightarrow> (Function \<times> bool) option" where
  "fold_round f =
     do { (f1, c1) \<leftarrow> const_promote_pass f;
          let (f2, c2) = mem_forward_pass f1;
          (f3, c3) \<leftarrow> const_promote_pass f2;
          (f4, c4) \<leftarrow> const_fold_pass f3;
          (f5, c5) \<leftarrow> insn_combine_pass f4;
          (f6, c6) \<leftarrow> branch_fold_pass f5;
          Some (f6, c1 \<or> c2 \<or> c3 \<or> c4 \<or> c5 \<or> c6) }"

fun fold_converge_loop :: "nat \<Rightarrow> Function \<Rightarrow> Function option" where
  "fold_converge_loop 0 f = Some f"
| "fold_converge_loop (Suc n) f =
     do { (f', changed) \<leftarrow> fold_round f;
          if \<not> changed then Some f' else fold_converge_loop n f' }"

definition fold_converge :: "Function \<Rightarrow> int \<Rightarrow> Function option" where
  "fold_converge f max_iters = fold_converge_loop (nat max_iters) f"

text \<open>The copy of the function in which the condition has a fixed value; \<open>None\<close> when the
  condition is neither an instruction nor a register.\<close>

definition assume_instr :: "Value \<Rightarrow> u64 \<Rightarrow> Instruction \<Rightarrow> Instruction" where
  "assume_instr condition cond_val i =
     (case condition of
        InstrRef r \<Rightarrow>
          if result_id i = r
          then i\<lparr>op := Op_CONST, operands := [Const64 cond_val], annotations := []\<rparr> else i
      | SymReg n \<Rightarrow>
          i\<lparr>operands := map (\<lambda>v. case get_symreg v of
              Some m \<Rightarrow> if m = n then Const64 cond_val else v | None \<Rightarrow> v) (operands i)\<rparr>
      | _ \<Rightarrow> i)"

definition vjcc_compute :: "Function \<Rightarrow> Value \<Rightarrow> Value \<Rightarrow> u64 \<Rightarrow> u64 option option" where
  "vjcc_compute f vpc_value condition cond_val =
     (if get_instrref condition = None \<and> get_symreg condition = None then Some None
      else do { g \<leftarrow> fold_converge (f\<lparr>instrs := map (assume_instr condition cond_val) (instrs f)\<rparr>) 32;
                r \<leftarrow> resolve (instrs g) (build_instr_map (instrs g)) vpc_value;
                Some (map_option fst (get_const r)) })"

definition extract_vjcc_targets :: "Function \<Rightarrow> Value \<Rightarrow> Value \<Rightarrow> (u64 \<times> u64) option option" where
  "extract_vjcc_targets f vpc_value condition =
     do { taken \<leftarrow> vjcc_compute f vpc_value condition 1;
          not_taken \<leftarrow> vjcc_compute f vpc_value condition 0;
          Some (case (taken, not_taken) of
                  (Some t, Some n) \<Rightarrow> if t \<noteq> n then Some (t, n) else None
                | _ \<Rightarrow> None) }"

subsection \<open>The loop is the fold pipeline\<close>

fun round_result :: "(string \<times> pass) list \<Rightarrow> Function \<Rightarrow> bool \<Rightarrow> (Function \<times> bool) option" where
  "round_result [] f any = Some (f, any)"
| "round_result ((n, fn) # ps) f any = do { (f', c) \<leftarrow> fn f; round_result ps f' (any \<or> c) }"

lemma round_result_hits: "map_option (\<lambda>(f', hits, any'). (f', any')) (run_round ps f h any) = round_result ps f any"
proof (induction ps f h any rule: run_round.induct)
  case (2 n fn ps f h any)
  show ?case
  proof (cases "fn f")
    case (Some r)
    obtain g c where "r = (g, c)" by force
    with Some 2 show ?thesis by (cases c) simp_all
  qed simp
qed simp

lemma fold_round_result: "round_result FOLD_PASSES f False = fold_round f"
  by (simp add: FOLD_PASSES_def fold_round_def Let_def case_prod_unfold disj_assoc)

lemma fold_round_run_round:
  "fold_round f = map_option (\<lambda>(f', hits, any). (f', any)) (run_round FOLD_PASSES f h False)"
  by (simp only: round_result_hits fold_round_result)

lemma fold_converge_loop_pipeline:
  "map_option fst (converge_loop FOLD_PASSES m it f r) = fold_converge_loop (nat (m - it)) f"
proof (induction "nat (m - it)" arbitrary: it f r)
  case 0
  then show ?case by (subst converge_loop.simps) simp
next
  case (Suc k)
  then have m: "it < m" "nat (m - it) = Suc (nat (m - (it + 1)))" by simp_all
  have "k = nat (m - (it + 1))" using Suc(2) by linarith
  note IH = Suc(1) [OF this]
  show ?case
  proof (cases "run_round FOLD_PASSES f (pass_hits r) False")
    case None
    with m fold_round_run_round [of f "pass_hits r"] show ?thesis
      by (subst converge_loop.simps) simp
  next
    case (Some res)
    obtain g hits any where res: "res = (g, hits, any)" by (cases res)
    from fold_round_run_round [of f "pass_hits r"] Some res have "fold_round f = Some (g, any)" by simp
    with Some res m IH [of g "\<lparr>iterations = it + 1, pass_hits = hits\<rparr>"]
    show ?thesis by (subst converge_loop.simps) (cases any; simp add: Let_def)
  qed
qed

lemma fold_converge_pipeline: "fold_converge f n = map_option fst (run_fold_convergence f n)"
  using fold_converge_loop_pipeline [of n 0] by (simp add: fold_converge_def run_fold_convergence_def)

lemma fold_converge_fold_good:
  assumes "fold_converge f n = Some g" "fold_good E s f"
  shows "fold_good E s g \<and> fold_rel E s f g"
proof -
  from assms(1) obtain rep where "converge_loop FOLD_PASSES n 0 f \<lparr>iterations = 0, pass_hits = []\<rparr> = Some (g, rep)"
    by (auto simp: fold_converge_pipeline run_fold_convergence_def)
  from fold_pipeline.converge_good [OF this assms(2)] show ?thesis .
qed

subsection \<open>Assuming the condition\<close>

definition condition_pure :: "Function \<Rightarrow> Value \<Rightarrow> bool" where
  "condition_pure f condition =
     list_all (\<lambda>i. condition = InstrRef (result_id i) \<longrightarrow> \<not> op_is_side_effectful (op i)) (instrs f)"

lemma assume_instr_id [simp]: "result_id (assume_instr c v i) = result_id i"
  by (simp add: assume_instr_def split: Value.split)

lemma assume_instr_refs: "set (ref_ids (assume_instr c v i)) \<subseteq> set (ref_ids i)"
proof (cases c)
  case (SymReg n)
  have "w = InstrRef j"
    if "InstrRef j = (case get_symreg w of Some m \<Rightarrow> if m = n then Const64 v else w | None \<Rightarrow> w)" for j w
    using that by (cases w) (auto split: if_splits)
  then show ?thesis
    unfolding SymReg by (fastforce simp: assume_instr_def set_ref_ids)
qed (auto simp: assume_instr_def set_ref_ids split: if_splits)

lemma ssa_assume: "ssa is \<Longrightarrow> ssa (map (assume_instr c v) is)"
proof (induction "is")
  case (Cons i "is")
  have "ids (map (assume_instr c v) js) = ids js" for js by (auto simp: image_image)
  with Cons assume_instr_refs [of c v i] show ?case
    unfolding ssa_Cons_iff list.map by auto
qed simp

text \<open>When the condition has the assumed value in the run, nothing changes.\<close>

lemma assume_symreg_eval:
  "sym E n = v \<Longrightarrow>
   eval_val E s (case get_symreg w of Some m \<Rightarrow> if m = n then Const64 v else w | None \<Rightarrow> w) = eval_val E s w"
  by (cases w) auto

lemma exec_assume:
  assumes "ssa is" "list_all (\<lambda>i. c = InstrRef (result_id i) \<longrightarrow> \<not> op_is_side_effectful (op i)) is"
    and "eval_val E (exec E s is) c = v"
  shows "exec E s (map (assume_instr c v) is) = exec E s is"
  using assms
proof (induction "is" arbitrary: s)
  case (Cons i "is")
  have ssa: "ssa is" "result_id i \<notin> ids is" using Cons.prems(1) unfolding ssa_Cons_iff by blast+
  have "exec_instr E s (assume_instr c v i) = exec_instr E s i"
  proof (cases c)
    case (InstrRef r)
    show ?thesis
    proof (cases "result_id i = r")
      case True
      with Cons.prems(2) InstrRef have pure: "\<not> op_is_side_effectful (op i)" by simp
      have "eval_val E (exec E (exec_instr E s i) is) c = eval_val E (exec_instr E s i) c"
        using InstrRef True ssa(2) by (intro eval_val_exec) auto
      with Cons.prems(3) InstrRef True
      have v: "result_of E (mem s) (op i) (map (eval_val E s) (operands i)) = v" by simp
      have e: "memory_after E (mem s) (op i) vs = mem s" "events_of (op i) vs = []" for vs
        using pure by (cases "op i"; simp add: memory_after_def events_of_def)+
      show ?thesis
        using InstrRef True v e
        by (intro exec_instr_eqI)
          (simp_all add: assume_instr_def result_of_def [of _ _ Op_CONST] pure_result_def
            memory_after_def [of _ _ Op_CONST] events_of_def [of Op_CONST])
    qed (simp add: InstrRef assume_instr_def)
  next
    case (SymReg n)
    then have "sym E n = v" using Cons.prems(3) by simp
    from assume_symreg_eval [OF this, of s] SymReg show ?thesis
      by (intro exec_instr_eqI) (simp_all add: assume_instr_def o_def)
  qed (simp_all add: assume_instr_def)
  with Cons ssa(1) show ?case by simp
qed simp

lemma assume_kept:
  assumes "c = InstrRef (result_id i) \<Longrightarrow> \<not> op_is_side_effectful (op i)" "\<And>n. c = SymReg n \<Longrightarrow> sym E n = v"
  shows "kept_store E t i (assume_instr c v i)"
proof (cases c)
  case (SymReg n)
  have "is_const w \<Longrightarrow> (case get_symreg w of Some m \<Rightarrow> if m = n then Const64 v else w | None \<Rightarrow> w) = w" for w
    by (cases w) auto
  with SymReg assume_symreg_eval [OF assms(2) [OF SymReg], of t] show ?thesis
    by (auto simp: kept_store_def assume_instr_def list_all2_conv_all_nth)
next
  case (InstrRef r)
  with assms(1) show ?thesis
    by (cases "op i") (auto simp: kept_store_def assume_instr_def quiet_op_def list.rel_refl)
qed (auto simp: kept_store_def assume_instr_def list.rel_refl)

lemma vjcc_compute_sound:
  assumes "vjcc_compute f vpc c v = Some (Some t)"
    and "fold_good E s f" "condition_pure f c" "eval_val E (exec E s (instrs f)) c = v"
  shows "eval_val E (exec E s (instrs f)) vpc = t"
proof -
  let ?is = "map (assume_instr c v) (instrs f)"
  from assms(1) obtain g r where g: "fold_converge (f\<lparr>instrs := ?is\<rparr>) 32 = Some g"
    and r: "resolve (instrs g) (build_instr_map (instrs g)) vpc = Some r" "map_option fst (get_const r) = Some t"
    by (auto simp: vjcc_compute_def split: if_splits elim!: bind_SomeE)
  have good: "ssa (instrs f)" "no_calls (instrs f)" "stores_isolated E s (instrs f)"
    using assms(2) by (simp_all add: fold_good_def)
  have same: "exec E s ?is = exec E s (instrs f)"
    using assms(3,4) good(1) by (intro exec_assume) (simp_all add: condition_pure_def)
  have "list_all2 (kept_store E (exec E s (instrs f))) (instrs f) ?is"
    unfolding list_all2_map2 using assms(3,4)
    by (intro list.rel_refl_strong assume_kept) (auto simp: condition_pure_def list_all_iff)
  from kept_flags(1) [OF this] isolated_kept [OF this same good(3)] ssa_assume [OF good(1)] good(2)
  have "fold_good E s (f\<lparr>instrs := ?is\<rparr>)" by (simp add: fold_good_def)
  from fold_converge_fold_good [OF g this]
  have ssag: "ssa (instrs g)" and run: "exec E s (instrs g) = exec E s (instrs f)"
    using same by (auto simp: fold_good_def fold_rel_def)
  have "eval_val E (exec E s (instrs g)) r = eval_val E (exec E s (instrs g)) vpc"
    using resolve_sound [of "instrs g" "[]" _ vpc r E "exec E s (instrs g)"] r(1) ssag settled_exec [OF ssag]
    by simp
  moreover obtain b where "r = Const t b" using r(2) by auto
  ultimately show ?thesis using run by simp
qed

subsection \<open>Properties\<close>

text \<open>The segment evaluator's own loop computes exactly what the fold pipeline of
  the pass library computes: the same function, and an undefined result in the same cases.\<close>

theorem fold_converge_is_fold_pipeline:
  "fold_converge f max_iters = map_option fst (run_fold_convergence f max_iters)"
  by (rule fold_converge_pipeline)


definition vjcc_example :: Function where
  "vjcc_example =
     \<lparr>fn_name = ''vjcc'',
      instrs = [instr0 Op_AND [SymReg ''rflags'', Const64 1] 0,
                instr0 Op_MUL [InstrRef 0, Const64 0x40] 1,
                instr0 Op_ADD [InstrRef 1, Const64 0x140001000] 2],
      next_id = 3\<rparr>"


end
