(* ===== verification/Promotion.thy ===== *)
theory Promotion
  imports Segment_Fold
begin

section \<open>Promoting loads of VM-private memory (src/eval/segment_eval.cpp, src/eval/guided_eval.cpp)\<close>

text \<open>
  Both evaluators walk the function in program order, apply the stores whose address and
  value are known and whose address lies in a safe range to their \<open>ByteMemory\<close>, and replace
  a load from a safe address whose eight bytes are held by the constant. \<open>im\<close> is built before the
  walk and points into the vector that the walk changes, so it is passed with the vector.

  In the code the pointer \<^verbatim>\<open>addr\<close> refers to a local \<open>Value\<close> that has gone out of scope when the
  address had to be resolved; the model reads the constant that was meant.
\<close>

definition resolved_const :: "Instruction list \<Rightarrow> (u32 \<Rightarrow> nat option) \<Rightarrow> Value \<Rightarrow> u64 option option" where
  "resolved_const vec im v = map_option (\<lambda>w. map_option fst (get_const w)) (resolve vec im v)"

definition apply_store ::
  "Instruction list \<Rightarrow> (u32 \<Rightarrow> nat option) \<Rightarrow> Instruction \<Rightarrow> ByteMemory \<Rightarrow> ByteMemory option" where
  "apply_store vec im i memory =
     (if op i = Op_STORE \<and> 2 \<le> length (operands i) then
        do { a \<leftarrow> resolved_const vec im (operands i ! 0);
             v \<leftarrow> resolved_const vec im (operands i ! 1);
             Some (case (a, v) of
                     (Some ac, Some vc) \<Rightarrow> if is_safe memory ac then store_u64 memory ac vc else memory
                   | _ \<Rightarrow> memory) }
      else Some memory)"

definition make_promoted :: "u64 \<Rightarrow> Instruction \<Rightarrow> Instruction" where
  "make_promoted v i =
     set_ann ''vm_private'' ''1'' (set_ann ''promoted_from'' ''safe_mem''
       (i\<lparr>op := Op_CONST, operands := [Const64 v]\<rparr>))"

text \<open>A load with operands: its address is replaced by the constant it resolves to, and the load by
  the value held there.\<close>

definition promote_load ::
  "Instruction list \<Rightarrow> (u32 \<Rightarrow> nat option) \<Rightarrow> ByteMemory \<Rightarrow> Instruction \<Rightarrow> (Instruction \<times> bool) option" where
  "promote_load vec im memory i =
     (if op i = Op_LOAD \<and> operands i \<noteq> [] then
        do { (i, addr) \<leftarrow>
               (case get_const (operands i ! 0) of
                  Some (a, b) \<Rightarrow> Some (i, Some a)
                | None \<Rightarrow>
                    do { ra \<leftarrow> resolve vec im (operands i ! 0);
                         Some (case get_const ra of
                                 Some (a, b) \<Rightarrow> (i\<lparr>operands := (operands i)[0 := ra]\<rparr>, Some a)
                               | None \<Rightarrow> (i, None)) });
             Some (case addr of
                     Some a \<Rightarrow>
                       if is_safe memory a then
                         (case load_u64 memory a of
                            Some v \<Rightarrow> (make_promoted v i, True)
                          | None \<Rightarrow> (i, False))
                       else (i, False)
                   | None \<Rightarrow> (i, False)) }
      else Some (i, False))"

text \<open>One walk over the function: the instructions before the current one are the rewritten ones.\<close>

fun promote_walk ::
  "(u32 \<Rightarrow> nat option) \<Rightarrow> Instruction list \<Rightarrow> Instruction list \<Rightarrow> ByteMemory \<Rightarrow> bool
   \<Rightarrow> (Instruction list \<times> ByteMemory \<times> bool) option" where
  "promote_walk im pre [] memory promoted = Some (pre, memory, promoted)"
| "promote_walk im pre (x # rest) memory promoted =
     do { memory' \<leftarrow> apply_store (pre @ x # rest) im x memory;
          (x', p) \<leftarrow> promote_load (pre @ x # rest) im memory' x;
          promote_walk im (pre @ [x']) rest memory' (promoted \<or> p) }"

definition promote_pass :: "Function \<Rightarrow> ByteMemory \<Rightarrow> (Function \<times> ByteMemory \<times> bool) option" where
  "promote_pass f memory =
     do { (is, memory', promoted) \<leftarrow> promote_walk (build_instr_map (instrs f)) [] (instrs f) memory False;
          Some (f\<lparr>instrs := is\<rparr>, memory', promoted) }"

text \<open>The segment evaluator promotes and then folds, at most three times; the guided evaluator folds
  and then promotes.\<close>

fun promote_rounds :: "nat \<Rightarrow> Function \<Rightarrow> ByteMemory \<Rightarrow> (Function \<times> ByteMemory) option" where
  "promote_rounds 0 f memory = Some (f, memory)"
| "promote_rounds (Suc n) f memory =
     do { (f, memory, promoted) \<leftarrow> promote_pass f memory;
          f \<leftarrow> fold_converge f 8;
          if \<not> promoted then Some (f, memory) else promote_rounds n f memory }"

definition promote_and_optimize :: "Function \<Rightarrow> ByteMemory \<Rightarrow> (Function \<times> ByteMemory) option" where
  "promote_and_optimize f memory = promote_rounds 3 f memory"

text \<open>The guided evaluator's own spelling of the walk, which builds the map anew for every load.\<close>

definition try_promote_load :: "Instruction list \<Rightarrow> ByteMemory \<Rightarrow> Instruction \<Rightarrow> Instruction option" where
  "try_promote_load vec memory i =
     (if op i \<noteq> Op_LOAD \<or> operands i = [] then Some i
      else do { (i, addr) \<leftarrow>
                  (case get_const (operands i ! 0) of
                     Some (a, b) \<Rightarrow> Some (i, Some a)
                   | None \<Rightarrow>
                       do { resolved_addr \<leftarrow> resolve vec (build_instr_map vec) (operands i ! 0);
                            Some (case get_const resolved_addr of
                                    Some (a, b) \<Rightarrow> (i\<lparr>operands := (operands i)[0 := resolved_addr]\<rparr>, Some a)
                                  | None \<Rightarrow> (i, None)) });
                Some (case addr of
                        None \<Rightarrow> i
                      | Some a \<Rightarrow>
                          if \<not> is_safe memory a then i
                          else case load_u64 memory a of
                                 Some v \<Rightarrow> make_promoted v i
                               | None \<Rightarrow> i) })"

fun guided_walk ::
  "(u32 \<Rightarrow> nat option) \<Rightarrow> Instruction list \<Rightarrow> Instruction list \<Rightarrow> ByteMemory \<Rightarrow> bool
   \<Rightarrow> (Instruction list \<times> ByteMemory \<times> bool) option" where
  "guided_walk store_im pre [] memory promoted_any = Some (pre, memory, promoted_any)"
| "guided_walk store_im pre (x # rest) memory promoted_any =
     do { memory' \<leftarrow> apply_store (pre @ x # rest) store_im x memory;
          x' \<leftarrow> (if op x = Op_LOAD then try_promote_load (pre @ x # rest) memory' x else Some x);
          guided_walk store_im (pre @ [x']) rest memory' (promoted_any \<or> op x' \<noteq> op x) }"

fun guided_promote_rounds :: "nat \<Rightarrow> Function \<Rightarrow> ByteMemory \<Rightarrow> (Function \<times> ByteMemory) option" where
  "guided_promote_rounds 0 f memory = Some (f, memory)"
| "guided_promote_rounds (Suc n) f memory =
     do { (f, _) \<leftarrow> run_fold_convergence f 8;
          (is, memory, promoted_any) \<leftarrow> guided_walk (build_instr_map (instrs f)) [] (instrs f) memory False;
          if \<not> promoted_any then Some (f\<lparr>instrs := is\<rparr>, memory)
          else guided_promote_rounds n (f\<lparr>instrs := is\<rparr>) memory }"

subsection \<open>The two walks are one\<close>

lemma make_promoted_sel [simp]:
  "op (make_promoted v i) = Op_CONST" "operands (make_promoted v i) = [Const64 v]"
  "result_id (make_promoted v i) = result_id i"
  by (simp_all add: make_promoted_def)

lemma promote_load_id: "promote_load vec im m i = Some (i', p) \<Longrightarrow> result_id i' = result_id i"
  by (auto simp: promote_load_def elim!: bind_SomeE split: if_splits option.splits prod.splits)

lemma promote_load_other: "op i \<noteq> Op_LOAD \<Longrightarrow> promote_load vec im m i = Some (i, False)"
  by (simp add: promote_load_def)

lemma try_promote_load_eq:
  assumes "op i = Op_LOAD" "im = build_instr_map vec"
  shows "map_option (\<lambda>i'. (i', op i' \<noteq> op i)) (try_promote_load vec m i) = promote_load vec im m i"
  using assms
  by (auto simp: try_promote_load_def promote_load_def split: option.splits bind_splits)

lemma guided_walk_eq:
  "im = build_instr_map (pre @ rest) \<Longrightarrow> guided_walk im pre rest m p = promote_walk im pre rest m p"
proof (induction im pre rest m p rule: promote_walk.induct)
  case (2 im pre x rest m p)
  show ?case
  proof (cases "apply_store (pre @ x # rest) im x m")
    case (Some m')
    show ?thesis
    proof (cases "op x = Op_LOAD")
      case True
      show ?thesis
      proof (cases "try_promote_load (pre @ x # rest) m' x")
        case None
        with Some True try_promote_load_eq [OF True "2.prems", of m'] show ?thesis by simp
      next
        case (Some x')
        with try_promote_load_eq [OF True "2.prems", of m']
        have pl: "promote_load (pre @ x # rest) im m' x = Some (x', op x' \<noteq> op x)" by simp
        have "im = build_instr_map ((pre @ [x']) @ rest)"
          using "2.prems" promote_load_id [OF pl] by (simp add: build_instr_map_cong)
        from "2.IH" [OF \<open>apply_store _ _ _ _ = Some m'\<close> pl refl this] \<open>apply_store _ _ _ _ = Some m'\<close> Some pl True
        show ?thesis by simp
      qed
    next
      case False
      have "im = build_instr_map ((pre @ [x]) @ rest)" using "2.prems" by simp
      from "2.IH" [OF Some promote_load_other [OF False] refl this] Some False
      show ?thesis by (simp add: promote_load_other)
    qed
  qed simp
qed simp

lemma guided_promote_rounds_Suc:
  "guided_promote_rounds (Suc n) f memory =
     do { (f, _) \<leftarrow> run_fold_convergence f 8;
          (f, memory, promoted_any) \<leftarrow> promote_pass f memory;
          if \<not> promoted_any then Some (f, memory) else guided_promote_rounds n f memory }"
  by (cases "run_fold_convergence f 8")
    (auto simp: promote_pass_def guided_walk_eq split: prod.splits bind_splits)

subsection \<open>Memory that mirrors a run\<close>

text \<open>The eight addresses of a word, and a byte memory whose bytes are those of the run.\<close>

definition span :: "u64 \<Rightarrow> u64 set" where
  "span a = {x. unat (x - a) < 8}"

definition holds :: "ByteMemory \<Rightarrow> memory \<Rightarrow> bool" where
  "holds bm m \<longleftrightarrow> (\<forall>x b. bytes bm x = Some b \<longrightarrow> m x = b)"

lemma bytes_store_u64:
  "bytes (store_u64 bm a v) x = (if x \<in> span a then Some (le_byte v (unat (x - a))) else bytes bm x)"
proof (cases "x \<in> span a")
  case True
  then have "unat (x - a) < length (le_bytes 8 v)" by (simp add: span_def)
  from put_bytes_inside [OF this, of "bytes bm" a] True show ?thesis
    by (simp add: store_u64_def span_def)
next
  case False
  have "put_bytes (bytes bm) a (le_bytes 8 v) x = bytes bm x"
  proof (rule put_bytes_outside)
    fix i assume "i < length (le_bytes 8 v)"
    then have "unat (of_nat i :: u64) = i" by (simp add: unat_of_nat)
    with False \<open>i < _\<close> show "x \<noteq> a + of_nat i" by (auto simp: span_def)
  qed
  with False show ?thesis by (simp add: store_u64_def)
qed

lemma wr64_span: "wr64 m a v x = (if x \<in> span a then le_byte v (unat (x - a)) else m x)"
  by (simp add: wr64_def span_def)

lemma holds_store: "holds bm m \<Longrightarrow> holds (store_u64 bm a v) (wr64 m a v)"
  by (auto simp: holds_def bytes_store_u64 wr64_span)

lemma holds_apart: "holds bm m \<Longrightarrow> span a \<inter> dom (bytes bm) = {} \<Longrightarrow> holds bm (wr64 m a v)"
  by (fastforce simp: holds_def wr64_span)

lemma dom_store: "dom (bytes (store_u64 bm a v)) = span a \<union> dom (bytes bm)"
  by (auto simp: bytes_store_u64 split: if_splits)

lemma holds_load:
  assumes "holds bm m" "load_u64 bm a = Some v"
  shows "rd64 m a = v"
proof -
  from assms(2) obtain data where d: "load bm a 8 = Some data" "v = of_le_bytes data"
    by (auto simp: load_u64_def)
  then have "map (\<lambda>i. m (a + of_nat i)) [0..<8] = data"
    using assms(1) by (auto simp: load_eq_Some_iff holds_def list_eq_iff_nth_eq)
  with d(2) show ?thesis by (simp add: rd64_def)
qed

subsection \<open>A step of the walk\<close>

definition single_operands :: "Instruction list \<Rightarrow> bool" where
  "single_operands is =
     list_all (\<lambda>i. (op i = Op_LOAD \<longrightarrow> length (operands i) = 1) \<and> (op i = Op_STORE \<longrightarrow> length (operands i) = 2)) is"

lemma make_promoted_operands [simp]: "make_promoted w (i\<lparr>operands := vs\<rparr>) = make_promoted w i"
  by (simp add: make_promoted_def set_ann_def)

lemma resolve_const [simp]: "resolve vec im (Const a b) = Some (Const a b)"
  by (subst resolve.simps) simp

lemma promote_load_cases:
  assumes "promote_load vec im bm x = Some (x', c)" "op x = Op_LOAD" "operands x = [v]"
  obtains (keep) "x' = x" "\<not> c"
  | (addr) a b where "resolve vec im v = Some (Const a b)" "x' = x\<lparr>operands := [Const a b]\<rparr>" "\<not> c"
  | (val) a b w where "resolve vec im v = Some (Const a b)" "is_safe bm a" "load_u64 bm a = Some w"
      "x' = make_promoted w x" c
proof (cases "get_const v")
  case (Some ab)
  then obtain a b where "v = Const a b" by (cases ab) auto
  with assms show thesis
    by (auto simp: promote_load_def split: if_splits option.splits intro: keep val)
next
  case None
  with assms obtain ra where ra: "resolve vec im v = Some ra"
    by (cases "resolve vec im v") (simp_all add: promote_load_def)
  show thesis
  proof (cases "get_const ra")
    case None
    with assms ra \<open>get_const v = None\<close> show thesis by (simp add: promote_load_def keep)
  next
    case (Some ab)
    then obtain a b where ab: "ra = Const a b" by (cases ab) auto
    with assms ra None show thesis
      by (auto simp: promote_load_def split: if_splits option.splits intro: addr val)
  qed
qed

lemma promote_load_sound:
  assumes step: "promote_load (d @ x # r) im bm x = Some (x', c)"
    and im: "im = build_instr_map (d @ x # r)" and ssa: "ssa (d @ x # r)"
    and settled: "\<And>y. y \<in> set d \<Longrightarrow> settled E s y"
    and bm: "holds bm (mem s)" and arity: "single_operands [x]"
  shows "exec_instr E s x' = exec_instr E s x \<and> set (ref_ids x') \<subseteq> set (ref_ids x) \<union> refs d"
proof (cases "op x = Op_LOAD")
  case False
  with step show ?thesis by (simp add: promote_load_other)
next
  case True
  with arity obtain v where v: "operands x = [v]"
    by (auto simp: single_operands_def length_Suc_conv)
  have vr: "val_refs v \<inter> ids (x # r) = {}"
    using ssa v by (auto simp: ssa_append ssa_Cons_iff ref_ids_val_refs simp del: ssa.simps)
  have sound: "eval_val E s v = a" if "resolve (d @ x # r) im v = Some (Const a b)" for a b
    using resolve_sound [OF that im ssa vr settled] by simp
  from step True v show ?thesis
  proof (cases rule: promote_load_cases)
    case (addr a b)
    with sound v show ?thesis
      by (auto intro!: exec_instr_eqI simp: ref_ids_val_refs)
  next
    case (val a b w)
    with holds_load [OF bm val(3)] sound True v have "exec_instr E s x' = exec_instr E s x"
      by (intro exec_instr_eqI) (simp_all add: result_of_def pure_result_def memory_after_def events_of_def)
    moreover have "set (ref_ids x') = {}" using val(4) by (simp add: ref_ids_val_refs)
    ultimately show ?thesis by simp
  qed simp
qed

text \<open>An operand known at an address of the walk stays known while loads are being replaced.\<close>

definition known :: "Instruction list \<Rightarrow> Value \<Rightarrow> bool" where
  "known is v \<longleftrightarrow> (\<exists>c b. resolve is (build_instr_map is) v = Some (Const c b))"

lemma resolve_loads_replaced:
  assumes "resolve vec im v = Some (Const c b)" "list_all2 (\<lambda>i i'. i' = i \<or> op i = Op_LOAD) vec vec'"
    and "\<And>j k. im j = Some k \<Longrightarrow> k < length vec"
  shows "resolve vec' im v = Some (Const c b)"
proof -
  have "vec = vec \<longrightarrow> im = im \<longrightarrow> Const c b = Const c b \<longrightarrow> resolve vec' im v = Some (Const c b)"
  proof (rule resolve.raw_induct [where P = "\<lambda>ve by_id cur res. ve = vec \<longrightarrow> by_id = im \<longrightarrow>
      res = Const c b \<longrightarrow> resolve vec' im cur = Some res", OF _ assms(1)], intro impI)
    fix R ve by_id cur res
    assume IH: "\<And>ve by_id cur res. R ve by_id cur = Some res \<Longrightarrow> ve = vec \<longrightarrow> by_id = im \<longrightarrow>
        res = Const c b \<longrightarrow> resolve vec' im cur = Some res"
      and eq: "(case get_instrref cur of None \<Rightarrow> Some cur
      | Some r \<Rightarrow> (case by_id r of None \<Rightarrow> Some cur
          | Some k \<Rightarrow> (let d = ve ! k in
              if (op d = Op_CONST \<or> op d = Op_CONST_PTR) \<and> operands d \<noteq> [] then
                (case get_const (operands d ! 0) of Some (c, b) \<Rightarrow> Some (Const c b) | None \<Rightarrow> Some cur)
              else if op d = Op_PASSTHROUGH \<and> length (operands d) = 1 then R ve by_id (operands d ! 0)
              else Some cur))) = Some res"
      and hyps: "ve = vec" "by_id = im" "res = Const c b"
    show "resolve vec' im cur = Some res"
    proof (cases "\<exists>j k. cur = InstrRef j \<and> im j = Some k")
      case False
      with eq hyps show ?thesis by (subst resolve.simps) (auto split: option.splits)
    next
      case True
      then obtain j k where j: "cur = InstrRef j" "im j = Some k" by blast
      with assms(3) have k: "k < length vec" by blast
      from list_all2_nthD [OF assms(2) k] have d: "vec' ! k = vec ! k \<or> op (vec ! k) = Op_LOAD" .
      with eq hyps j have "vec' ! k = vec ! k" by auto
      with eq hyps j IH show ?thesis
        by (subst resolve.simps) (auto simp: Let_def split: if_splits option.splits)
    qed
  qed
  then show ?thesis by simp
qed

text \<open>
  What a store owes to the private memory \<open>H\<close>: one to a safe address is known at the time of the
  walk and stays in \<open>H\<close>, any other misses \<open>H\<close>.
\<close>

definition tracked :: "env \<Rightarrow> state \<Rightarrow> u64 set \<Rightarrow> ByteMemory \<Rightarrow> Instruction list \<Rightarrow> Instruction \<Rightarrow> bool" where
  "tracked E t H bm is x \<longleftrightarrow>
     (op x = Op_STORE \<longrightarrow>
       (let a = eval_val E t (operands x ! 0)
        in if is_safe bm a then span a \<subseteq> H \<and> known is (operands x ! 0) \<and> known is (operands x ! 1)
           else span a \<inter> H = {}))"

definition mirrors :: "u64 set \<Rightarrow> ByteMemory \<Rightarrow> memory \<Rightarrow> bool" where
  "mirrors H bm m \<longleftrightarrow> holds bm m \<and> dom (bytes bm) \<subseteq> H"

lemma mirrors_store: "mirrors H bm m \<Longrightarrow> span a \<subseteq> H \<Longrightarrow> mirrors H (store_u64 bm a v) (wr64 m a v)"
  unfolding mirrors_def dom_store by (simp add: holds_store)

lemma mirrors_apart: "mirrors H bm m \<Longrightarrow> span a \<inter> H = {} \<Longrightarrow> mirrors H bm (wr64 m a v)"
  unfolding mirrors_def using holds_apart [of bm m a v] by blast

lemma mirrors_cong: "mirrors H bm m \<Longrightarrow> (\<And>y. y \<in> H \<Longrightarrow> m y = m' y) \<Longrightarrow> mirrors H bm m'"
  unfolding mirrors_def holds_def by (metis domI subsetD)

lemma store_no_span:
  "op i \<noteq> Op_STORE \<Longrightarrow> op i \<noteq> Op_CALL \<Longrightarrow> mem (exec_instr E s i) = mem s"
  by (simp add: memory_after_def)

lemma apply_store_sound:
  assumes step: "apply_store (d @ x # r) im x bm = Some bm'"
    and im: "im = build_instr_map (d @ x # r)" and ssa: "ssa (d @ x # r)"
    and settled: "\<And>y. y \<in> set d \<Longrightarrow> settled E s y"
    and bm: "mirrors H bm (mem s)" and arity: "single_operands [x]" and nc: "op x \<noteq> Op_CALL"
    and tr: "tracked E s H bm (d @ x # r) x"
  shows "mirrors H bm' (mem (exec_instr E s x)) \<and> safe_ranges bm' = safe_ranges bm"
proof (cases "op x = Op_STORE")
  case False
  with step bm nc store_no_span [of x E s] show ?thesis by (simp add: apply_store_def del: exec_instr_sel)
next
  case True
  with arity obtain p v where ops: "operands x = [p, v]"
    by (auto simp: single_operands_def length_Suc_conv numeral_2_eq_2)
  have vr: "val_refs p \<inter> ids (x # r) = {}" "val_refs v \<inter> ids (x # r) = {}"
    using ssa ops by (auto simp: ssa_append ssa_Cons_iff ref_ids_val_refs simp del: ssa.simps)
  have sound: "eval_val E s w = a" if "resolve (d @ x # r) im w = Some (Const a b)" "w \<in> {p, v}" for w a b
    using resolve_sound [OF that(1) im ssa _ settled] vr that(2) by auto
  let ?a = "eval_val E s p"
  have run: "mem (exec_instr E s x) = wr64 (mem s) ?a (eval_val E s v)"
    using True ops by (simp add: memory_after_def)
  show ?thesis
  proof (cases "is_safe bm ?a")
    case True
    with tr \<open>op x = _\<close> ops have H: "span ?a \<subseteq> H" and kn: "known (d @ x # r) p" "known (d @ x # r) v"
      by (simp_all add: tracked_def Let_def)
    from kn obtain c b c' b' where "resolve (d @ x # r) im p = Some (Const c b)"
      "resolve (d @ x # r) im v = Some (Const c' b')" by (auto simp: known_def im)
    with sound [OF this(1)] sound [OF this(2)] step True \<open>op x = _\<close> ops
    have "bm' = store_u64 bm ?a (eval_val E s v)" by (simp add: apply_store_def resolved_const_def)
    with mirrors_store [OF bm H] run show ?thesis by (simp add: frame_simps)
  next
    case False
    with tr \<open>op x = _\<close> ops have H: "span ?a \<inter> H = {}" by (simp add: tracked_def Let_def)
    from step \<open>op x = _\<close> ops obtain ra rv where res: "resolve (d @ x # r) im p = Some ra"
        "resolve (d @ x # r) im v = Some rv"
      by (auto simp: apply_store_def resolved_const_def elim!: bind_SomeE)
    have "bm' = bm"
    proof (cases "get_const ra")
      case (Some ab)
      then obtain c b where "ra = Const c b" by (cases ab) auto
      with sound [of p c b] res(1) have "c = ?a" by simp
      with step \<open>op x = _\<close> ops res False \<open>ra = _\<close> show ?thesis
        by (simp add: apply_store_def resolved_const_def split: option.splits)
    qed (use step \<open>op x = _\<close> ops res in \<open>simp add: apply_store_def resolved_const_def\<close>)
    with mirrors_apart [OF bm H] run show ?thesis by simp
  qed
qed

subsection \<open>The whole walk\<close>

definition load_replaced :: "Instruction \<Rightarrow> Instruction \<Rightarrow> bool" where
  "load_replaced i i' \<longleftrightarrow>
     i' = i \<or> op i = Op_LOAD \<and> (op i' = Op_CONST \<or> op i' = Op_LOAD \<and> length (operands i') = length (operands i))"

definition loads_replaced :: "Instruction list \<Rightarrow> Instruction list \<Rightarrow> bool" where
  "loads_replaced = list_all2 load_replaced"

lemma loads_replaced_refl: "loads_replaced is is"
  by (simp add: loads_replaced_def load_replaced_def list.rel_refl)

lemma known_loads_replaced:
  assumes "known is v" "loads_replaced is js" "map result_id js = map result_id is"
  shows "known js v"
proof -
  from assms(1) obtain c b where r: "resolve is (build_instr_map is) v = Some (Const c b)"
    by (auto simp: known_def)
  have "build_instr_map js = build_instr_map is" using assms(3) by (rule build_instr_map_cong)
  have "list_all2 (\<lambda>i i'. i' = i \<or> op i = Op_LOAD) is js"
    using assms(2) unfolding loads_replaced_def by (rule list_all2_mono) (auto simp: load_replaced_def)
  with resolve_loads_replaced [OF r this] \<open>build_instr_map js = _\<close> build_instr_map_Some
  show ?thesis by (auto simp: known_def)
qed

lemma single_operands_Cons: "single_operands (x # is) \<Longrightarrow> single_operands [x] \<and> single_operands is"
  by (simp add: single_operands_def)

lemma promote_load_single:
  "promote_load vec im m x = Some (x', c) \<Longrightarrow> single_operands [x] \<Longrightarrow> single_operands [x']"
  by (auto simp: promote_load_def single_operands_def elim!: bind_SomeE split: if_splits option.splits prod.splits)

lemma promote_load_kept:
  "promote_load vec im m x = Some (x', c) \<Longrightarrow> load_replaced x x'"
  by (auto simp: promote_load_def load_replaced_def elim!: bind_SomeE split: if_splits option.splits prod.splits)

lemma operand_at_end:
  assumes "ssa (d @ x # r)" "v \<in> set (operands x)"
  shows "eval_val E (exec E s (d @ x # r)) v = eval_val E (exec E s d) v"
proof -
  have "val_refs v \<inter> ids (x # r) = {}" using assms(1) val_refs_operand [OF assms(2)]
    by (auto simp: ssa_append ssa_Cons_iff simp del: ssa.simps)
  then have "eval_val E (exec E (exec E s d) (x # r)) v = eval_val E (exec E s d) v"
    by (intro eval_val_exec) auto
  then show ?thesis by simp
qed

lemma promote_walk_sound:
  assumes "promote_walk im d r bm c = Some (js, bm', c')" "im = build_instr_map (d @ r)" "ssa (d @ r)"
    and "mirrors H bm (mem (exec E s d))" "single_operands r" "no_calls r"
    and "loads_replaced old d" "map result_id old = map result_id d"
    and "\<And>x. x \<in> set r \<Longrightarrow> tracked E (exec E s (d @ r)) H bm (old @ r) x"
  shows "ssa js \<and> map result_id js = map result_id (d @ r) \<and> exec E s js = exec E s (d @ r)
    \<and> mirrors H bm' (mem (exec E s (d @ r))) \<and> safe_ranges bm' = safe_ranges bm
    \<and> (\<exists>r'. js = d @ r' \<and> loads_replaced r r')"
  using assms
proof (induction im d r bm c arbitrary: old rule: promote_walk.induct)
  case (1 im pre memory promoted)
  then show ?case by (simp add: loads_replaced_refl)
next
  case (2 im d x r bm c)
  let ?s = "exec E s d" and ?vec = "d @ x # r"
  from "2.prems"(1) obtain bm1 x1 p where st: "apply_store ?vec im x bm = Some bm1"
    and ld: "promote_load ?vec im bm1 x = Some (x1, p)"
    and rest: "promote_walk im (d @ [x1]) r bm1 (c \<or> p) = Some (js, bm', c')"
    by (auto elim!: bind_SomeE)
  have ssa: "ssa ?vec" and "ssa d" using "2.prems"(3) by (simp_all add: ssa_append)
  note settled = settled_exec [OF this(2), of _ E s]
  have x: "single_operands [x]" "op x \<noteq> Op_CALL" "no_calls r"
    using single_operands_Cons [OF "2.prems"(5)] "2.prems"(6) by (auto simp: no_calls_def)
  note later = operand_at_end [OF ssa, of _ E s]
  have same_map: "map result_id ?vec = map result_id (old @ x # r)" using "2.prems"(8) by simp
  have replaced: "loads_replaced (old @ x # r) ?vec"
    using "2.prems"(7) loads_replaced_refl [of "x # r"] by (simp add: loads_replaced_def list_all2_appendI)
  have "tracked E ?s H bm ?vec x"
  proof (cases "op x = Op_STORE")
    case True
    with x(1) obtain a v where ops: "operands x = [a, v]"
      by (auto simp: single_operands_def length_Suc_conv numeral_2_eq_2)
    have "tracked E (exec E s ?vec) H bm (old @ x # r) x" using "2.prems"(9) by simp
    with True ops later [of a] known_loads_replaced [OF _ replaced same_map] show ?thesis
      by (simp add: tracked_def Let_def split: if_splits)
  qed (simp add: tracked_def)
  from apply_store_sound [OF st "2.prems"(2) ssa settled "2.prems"(4) x(1,2) this]
  have bm1: "mirrors H bm1 (mem (exec_instr E ?s x))" "safe_ranges bm1 = safe_ranges bm" by simp_all
  have "mirrors H bm1 (mem ?s) \<or> op x \<noteq> Op_LOAD"
    using bm1(1) store_no_span [of x E ?s] by (cases "op x = Op_LOAD") (auto simp del: exec_instr_sel)
  then have run: "exec_instr E ?s x1 = exec_instr E ?s x \<and> set (ref_ids x1) \<subseteq> set (ref_ids x) \<union> refs d"
    using promote_load_sound [OF ld "2.prems"(2) ssa settled _ x(1)] ld promote_load_other [of x]
    by (cases "op x = Op_LOAD") (auto simp: mirrors_def)
  have id: "result_id x1 = result_id x" using promote_load_id [OF ld] .
  have exec: "exec E s ((d @ [x1]) @ r) = exec E s ?vec" using run by simp
  have "im = build_instr_map ((d @ [x1]) @ r)"
    using "2.prems"(2) id by (simp add: build_instr_map_cong)
  moreover have "ssa ((d @ [x1]) @ r)" using ssa_replace [OF ssa id] run by simp
  moreover have "mirrors H bm1 (mem (exec E s (d @ [x1])))" using run bm1(1) by (simp del: exec_instr_sel)
  moreover have "loads_replaced (old @ [x]) (d @ [x1])"
    using "2.prems"(7) promote_load_kept [OF ld] by (auto simp: loads_replaced_def intro: list_all2_appendI)
  moreover have "map result_id (old @ [x]) = map result_id (d @ [x1])" using "2.prems"(8) id by simp
  moreover have "tracked E (exec E s ((d @ [x1]) @ r)) H bm1 ((old @ [x]) @ r) y" if "y \<in> set r" for y
    using "2.prems"(9) [of y] that bm1(2) exec by (simp add: tracked_def is_safe_def)
  ultimately have *: "ssa js \<and> map result_id js = map result_id ((d @ [x1]) @ r)
      \<and> exec E s js = exec E s ((d @ [x1]) @ r) \<and> mirrors H bm' (mem (exec E s ((d @ [x1]) @ r)))
      \<and> safe_ranges bm' = safe_ranges bm1 \<and> (\<exists>r'. js = (d @ [x1]) @ r' \<and> loads_replaced r r')"
    by (rule "2.IH" [OF st ld refl rest _ _ _ conjunct2 [OF single_operands_Cons [OF "2.prems"(5)]] x(3)])
  then obtain r' where "js = d @ x1 # r'" "loads_replaced r r'" by auto
  moreover from this promote_load_kept [OF ld] have "loads_replaced (x # r) (x1 # r')"
    by (auto simp: loads_replaced_def)
  ultimately show ?case using * exec id bm1(2) by auto
qed

lemma promote_pass_sound:
  assumes "promote_pass f bm = Some (f', bm', c)" "ssa (instrs f)" "single_operands (instrs f)" "no_calls (instrs f)"
    and "mirrors H bm (mem s)"
    and "\<And>x. x \<in> set (instrs f) \<Longrightarrow> tracked E (exec E s (instrs f)) H bm (instrs f) x"
  shows "ssa (instrs f') \<and> map result_id (instrs f') = map result_id (instrs f)
    \<and> exec E s (instrs f') = exec E s (instrs f) \<and> mirrors H bm' (mem (exec E s (instrs f)))
    \<and> safe_ranges bm' = safe_ranges bm \<and> loads_replaced (instrs f) (instrs f')"
proof -
  from assms(1) obtain js where js: "f' = f\<lparr>instrs := js\<rparr>"
    "promote_walk (build_instr_map (instrs f)) [] (instrs f) bm False = Some (js, bm', c)"
    by (auto simp: promote_pass_def elim!: bind_SomeE)
  from promote_walk_sound [OF js(2), where old = "[]" and E = E and s = s and H = H] assms(2-6) js(1)
  show ?thesis by (simp add: loads_replaced_refl)
qed

subsection \<open>Promotion ends\<close>

text \<open>Whatever the memory holds, a walk has a result, keeps single assignment, and adds no opcode but
  \<^verbatim>\<open>CONST\<close>.\<close>

lemma promote_load_defined:
  "ssa vec \<Longrightarrow> im = build_instr_map vec \<Longrightarrow> \<exists>x' c. promote_load vec im bm x = Some (x', c)"
  using resolve_defined [of vec "operands x ! 0"]
  by (auto simp: promote_load_def split: option.splits)

lemma apply_store_defined:
  "ssa vec \<Longrightarrow> im = build_instr_map vec \<Longrightarrow> \<exists>bm'. apply_store vec im x bm = Some bm'"
  using resolve_defined [of vec "operands x ! 0"] resolve_defined [of vec "operands x ! 1"]
  by (auto simp: apply_store_def resolved_const_def)

lemma promote_load_shape:
  assumes "promote_load vec im bm x = Some (x', c)"
  shows "set (ref_ids x') \<subseteq> set (ref_ids x) \<and> (op x' = op x \<or> op x' = Op_CONST)"
proof (cases "op x = Op_LOAD \<and> operands x \<noteq> []")
  case True
  then obtain v vs where v: "operands x = v # vs" by (cases "operands x") auto
  have "set (ref_ids (x\<lparr>operands := Const a b # vs\<rparr>)) \<subseteq> set (ref_ids x)" for a b
    using v by (auto simp: set_ref_ids)
  with assms True v show ?thesis
    by (auto simp: promote_load_def set_ref_ids elim!: bind_SomeE split: if_splits option.splits prod.splits)
qed (use assms in \<open>auto simp: promote_load_def\<close>)

lemma promote_walk_defined:
  assumes "im = build_instr_map (d @ r)" "ssa (d @ r)"
  shows "\<exists>js bm' c'. promote_walk im d r bm c = Some (js, bm', c') \<and> ssa js
    \<and> map result_id js = map result_id (d @ r) \<and> (no_risky_ops (d @ r) \<longrightarrow> no_risky_ops js)"
  using assms
proof (induction im d r bm c rule: promote_walk.induct)
  case (2 im d x r bm c)
  obtain bm1 where st: "apply_store (d @ x # r) im x bm = Some bm1"
    using apply_store_defined "2.prems" by blast
  obtain x1 p where ld: "promote_load (d @ x # r) im bm1 x = Some (x1, p)"
    using promote_load_defined [of "d @ x # r" im bm1 x] "2.prems" by blast
  note id = promote_load_id [OF ld] and shape = promote_load_shape [OF ld]
  have "im = build_instr_map ((d @ [x1]) @ r)"
    using "2.prems"(1) id by (simp add: build_instr_map_cong)
  moreover have "ssa ((d @ [x1]) @ r)" using ssa_replace [OF "2.prems"(2) id] shape by auto
  ultimately obtain js bm' c' where
    js: "promote_walk im (d @ [x1]) r bm1 (c \<or> p) = Some (js, bm', c')" "ssa js"
      "map result_id js = map result_id ((d @ [x1]) @ r)" "no_risky_ops ((d @ [x1]) @ r) \<longrightarrow> no_risky_ops js"
    using "2.IH" [OF st ld refl] by blast
  have "no_risky_ops (d @ x # r) \<Longrightarrow> no_risky_ops ((d @ [x1]) @ r)"
    using shape by (auto simp: no_risky_ops_def)
  with st ld js id show ?case by simp
qed simp

lemma promote_pass_defined:
  assumes "ssa (instrs f)"
  shows "\<exists>f' bm' c. promote_pass f bm = Some (f', bm', c) \<and> ssa (instrs f')
    \<and> map result_id (instrs f') = map result_id (instrs f) \<and> next_id f' = next_id f \<and> fn_name f' = fn_name f
    \<and> (no_risky_ops (instrs f) \<longrightarrow> no_risky_ops (instrs f'))"
  using promote_walk_defined [of "build_instr_map (instrs f)" "[]" "instrs f" bm False] assms
  by (auto simp: promote_pass_def)

lemma promote_pass_tame:
  "tame f \<Longrightarrow> \<exists>f' bm' c. promote_pass f bm = Some (f', bm', c) \<and> tame f'"
  using promote_pass_defined [of f bm] by (auto simp: tame_def)

subsection \<open>All rounds, when the private memory is only read\<close>

definition reads_private :: "env \<Rightarrow> state \<Rightarrow> u64 set \<Rightarrow> ByteMemory \<Rightarrow> Function \<Rightarrow> bool" where
  "reads_private E s H bm f \<longleftrightarrow>
     fold_good E s f \<and> single_operands (instrs f)
     \<and> (\<forall>x \<in> set (instrs f). op x = Op_STORE \<longrightarrow>
          (let a = eval_val E (exec E s (instrs f)) (operands x ! 0)
           in \<not> is_safe bm a \<and> span a \<inter> H = {}))"

lemma fold_passes_kept:
  assumes "(n, p) \<in> set FOLD_PASSES" "p f = Some (f', ch)" "ssa (instrs f)"
  shows "list_all2 (kept_store E (exec E s (instrs f))) (instrs f) (instrs f')"
  using assms promote_kept.pass_kept fold_kept.pass_kept combine_kept.pass_kept
    branch_kept.pass_kept mem_forward_pass_kept
  by (auto simp: FOLD_PASSES_def const_promote_pass_def const_fold_pass_def insn_combine_pass_def
      branch_fold_pass_def)

lemma kept_single:
  "list_all2 (kept_store E t) is js \<Longrightarrow> single_operands is \<Longrightarrow> single_operands js"
  by (induction rule: list_all2_induct)
    (auto simp: single_operands_def kept_store_def quiet_op_def dest: list_all2_lengthD)

lemma missed_by_stores:
  assumes "ssa (d @ r)" "no_calls r" "single_operands r" "y \<in> H"
    and "\<And>x. x \<in> set r \<Longrightarrow> op x = Op_STORE \<Longrightarrow> span (eval_val E (exec E s (d @ r)) (operands x ! 0)) \<inter> H = {}"
  shows "mem (exec E s (d @ r)) y = mem (exec E s d) y"
  using assms
proof (induction r arbitrary: d)
  case (Cons x r)
  have x: "single_operands [x]" "single_operands r" "op x \<noteq> Op_CALL" "no_calls r"
    using single_operands_Cons [OF Cons.prems(3)] Cons.prems(2) by (auto simp: no_calls_def)
  have "mem (exec_instr E (exec E s d) x) y = mem (exec E s d) y"
  proof (cases "op x = Op_STORE")
    case True
    with x(1) obtain a v where ops: "operands x = [a, v]"
      by (auto simp: single_operands_def length_Suc_conv numeral_2_eq_2)
    have "span (eval_val E (exec E s d) a) \<inter> H = {}"
      using Cons.prems(5) [of x] True ops operand_at_end [OF Cons.prems(1), of a E s] by simp
    with True ops \<open>y \<in> H\<close> show ?thesis by (auto simp: memory_after_def wr64_span)
  qed (simp add: store_no_span x(3) del: exec_instr_sel)
  with Cons.IH [of "d @ [x]"] Cons.prems x(2,4) show ?case by simp
qed simp


lemma loads_replaced_flags:
  assumes "loads_replaced is js"
  shows "no_calls is \<longrightarrow> no_calls js" "single_operands is \<longrightarrow> single_operands js" "store_addrs js = store_addrs is"
    "x \<in> set js \<Longrightarrow> op x = Op_STORE \<Longrightarrow> x \<in> set is"
  using assms unfolding loads_replaced_def
  by (induction rule: list_all2_induct)
    (auto simp: load_replaced_def no_calls_def single_operands_def is_store_def)

lemma promote_pass_readonly:
  assumes "promote_pass f bm = Some (f', bm', c)" "reads_private E s H bm f" "mirrors H bm (mem s)"
  shows "reads_private E s H bm' f' \<and> fold_rel E s f f' \<and> mirrors H bm' (mem s)"
proof -
  let ?t = "exec E s (instrs f)"
  from assms(2) have f: "ssa (instrs f)" "no_calls (instrs f)" "stores_isolated E s (instrs f)"
      "single_operands (instrs f)"
    and st: "\<And>x. x \<in> set (instrs f) \<Longrightarrow> op x = Op_STORE \<Longrightarrow>
        \<not> is_safe bm (eval_val E ?t (operands x ! 0)) \<and> span (eval_val E ?t (operands x ! 0)) \<inter> H = {}"
    by (auto simp: reads_private_def fold_good_def Let_def)
  have "tracked E ?t H bm (instrs f) x" if "x \<in> set (instrs f)" for x
    using st [OF that] by (simp add: tracked_def Let_def)
  note p = promote_pass_sound [OF assms(1) f(1,4,2) assms(3) this]
  then have exec: "exec E s (instrs f') = ?t" and lr: "loads_replaced (instrs f) (instrs f')"
    and bm': "mirrors H bm' (mem ?t)" "safe_ranges bm' = safe_ranges bm" by simp_all
  note fl = loads_replaced_flags [OF lr]
  have "mem ?t y = mem s y" if "y \<in> H" for y
    using missed_by_stores [of "[]" "instrs f" y H E s] f that st by simp
  with bm'(1) have "mirrors H bm' (mem s)" by (rule mirrors_cong)
  moreover have "stores_isolated E s (instrs f')"
    using f(3) by (simp add: stores_isolated_def store_targets_def fl(3) exec)
  ultimately show ?thesis
    using p f st fl bm'(2)
    by (auto simp: reads_private_def fold_good_def fold_rel_def Let_def is_safe_def)
qed

lemma kept_reads_private:
  assumes "list_all2 (kept_store E (exec E s (instrs f))) (instrs f) (instrs g)" "reads_private E s H bm f"
    and "fold_good E s g" "fold_rel E s f g"
  shows "reads_private E s H bm g"
proof -
  let ?t = "exec E s (instrs f)"
  have "\<not> is_safe bm (eval_val E ?t (operands y ! 0)) \<and> span (eval_val E ?t (operands y ! 0)) \<inter> H = {}"
    if "y \<in> set (instrs g)" "op y = Op_STORE" for y
  proof -
    from that(1) obtain k where k: "k < length (instrs g)" "y = instrs g ! k" by (metis in_set_conv_nth)
    then have len: "k < length (instrs f)" using assms(1) by (simp add: list_all2_lengthD)
    let ?x = "instrs f ! k"
    from list_all2_nthD [OF assms(1) len] k have kept: "kept_store E ?t ?x y" by simp
    have single: "single_operands (instrs g)"
      using kept_single [OF assms(1)] assms(2) by (simp add: reads_private_def)
    have "is_store y" using single that by (auto simp: is_store_def single_operands_def list_all_iff)
    with kept_store_cases(1) [OF kept] have "is_store ?x" by simp
    from kept_store_cases(5) [OF kept this] this assms(2) len show ?thesis
      by (auto simp: reads_private_def Let_def is_store_def)
  qed
  with assms(2-4) kept_single [OF assms(1)] show ?thesis
    by (auto simp: reads_private_def fold_rel_def Let_def)
qed

interpretation promoted_pipeline: pass_pipeline FOLD_PASSES "reads_private E s H bm" "fold_rel E s" for E s H bm
proof unfold_locales
  fix n p f f' ch
  assume p: "(n, p) \<in> set FOLD_PASSES" "p f = Some (f', ch)" and f: "reads_private E s H bm f"
  then have good: "fold_good E s f" "ssa (instrs f)" by (simp_all add: reads_private_def fold_good_def)
  from fold_passes_good [OF p good(1)] kept_reads_private [OF fold_passes_kept [OF p good(2)] f]
  show "reads_private E s H bm f' \<and> fold_rel E s f f'" by blast
qed (auto simp: fold_rel_def dest: fold_passes_same)

lemma promote_rounds_readonly:
  "\<lbrakk>promote_rounds n f bm = Some (f', bm'); reads_private E s H bm f; mirrors H bm (mem s)\<rbrakk>
   \<Longrightarrow> reads_private E s H bm' f' \<and> fold_rel E s f f' \<and> mirrors H bm' (mem s)"
proof (induction n arbitrary: f bm)
  case (Suc n)
  from Suc.prems(1) obtain f1 bm1 p f2 where f1: "promote_pass f bm = Some (f1, bm1, p)"
    and f2: "fold_converge f1 8 = Some f2"
    and rest: "(if \<not> p then Some (f2, bm1) else promote_rounds n f2 bm1) = Some (f', bm')"
    by (auto elim!: bind_SomeE)
  note s1 = promote_pass_readonly [OF f1 Suc.prems(2,3)]
  from f2 obtain rep where "converge_loop FOLD_PASSES 8 0 f1 \<lparr>iterations = 0, pass_hits = []\<rparr> = Some (f2, rep)"
    by (auto simp: fold_converge_pipeline run_fold_convergence_def)
  from promoted_pipeline.converge_good [OF this] s1
  have s2: "reads_private E s H bm1 f2" "fold_rel E s f1 f2" by blast+
  with rest s1 Suc.IH [of f2 bm1] show ?case by (cases p) (auto simp: fold_rel_def)
qed (simp add: fold_rel_def)

lemma guided_promote_rounds_readonly:
  "\<lbrakk>guided_promote_rounds n f bm = Some (f', bm'); reads_private E s H bm f; mirrors H bm (mem s)\<rbrakk>
   \<Longrightarrow> reads_private E s H bm' f' \<and> fold_rel E s f f' \<and> mirrors H bm' (mem s)"
proof (induction n arbitrary: f bm)
  case (Suc n)
  from Suc.prems(1) obtain f1 rep f2 bm2 p where f1: "run_fold_convergence f 8 = Some (f1, rep)"
    and f2: "promote_pass f1 bm = Some (f2, bm2, p)"
    and rest: "(if \<not> p then Some (f2, bm2) else guided_promote_rounds n f2 bm2) = Some (f', bm')"
    by (auto simp: guided_promote_rounds_Suc simp del: guided_promote_rounds.simps elim!: bind_SomeE)
  from promoted_pipeline.converge_good [OF f1 [unfolded run_fold_convergence_def] Suc.prems(2)]
  have s1: "reads_private E s H bm f1" "fold_rel E s f f1" by blast+
  note s2 = promote_pass_readonly [OF f2 s1(1) Suc.prems(3)]
  with rest s1 Suc.IH [of f2 bm2] show ?case by (cases p) (auto simp: fold_rel_def)
qed (simp add: fold_rel_def)

lemma promote_rounds_defined: "tame f \<Longrightarrow> \<exists>f' bm'. promote_rounds n f bm = Some (f', bm') \<and> tame f'"
proof (induction n arbitrary: f bm)
  case (Suc n)
  obtain f1 bm1 p where f1: "promote_pass f bm = Some (f1, bm1, p)" "tame f1"
    using promote_pass_tame [OF Suc.prems] by blast
  obtain f2 rep where "run_fold_convergence f1 8 = Some (f2, rep)" "tame f2"
    using fold_defined.converge_defined [OF f1(2), of 8 0 "\<lparr>iterations = 0, pass_hits = []\<rparr>"]
    by (auto simp: run_fold_convergence_def)
  with f1 Suc.IH [of f2 bm1] show ?case by (auto simp: fold_converge_pipeline)
qed simp

subsection \<open>Properties\<close>

text \<open>One walk of promotion is correct. Let \<open>H\<close> be the private memory: the byte memory
  holds bytes of \<open>H\<close> only, and those the run starts with; every store to a safe address is known and
  stays in \<open>H\<close>, and every other store misses \<open>H\<close>. Then the promoted function has the same run, ids
  and single-assignment form, and afterwards the byte memory holds what the run has left in \<open>H\<close>.\<close>

theorem promote_pass_correct:
  assumes "promote_pass f bm = Some (f', bm', promoted)"
    and "ssa (instrs f)" "single_operands (instrs f)" "no_calls (instrs f)"
    and "mirrors H bm (mem s)"
    and "\<And>x. x \<in> set (instrs f) \<Longrightarrow> tracked E (exec E s (instrs f)) H bm (instrs f) x"
  shows "exec E s (instrs f') = exec E s (instrs f) \<and> ssa (instrs f')
    \<and> map result_id (instrs f') = map result_id (instrs f)
    \<and> mirrors H bm' (mem (exec E s (instrs f')))"
  using promote_pass_sound [OF assms] by auto

definition promotion_example :: Function where
  "promotion_example =
     \<lparr>fn_name = ''p'',
      instrs = [instr0 Op_ADD [SymReg ''b'', Const64 8] 0, instr0 Op_CONST [Const64 7] 1,
                instr0 Op_STORE [Const64 0x10, InstrRef 1] 2, instr0 Op_STORE [InstrRef 0, Const64 9] 3,
                instr0 Op_PASSTHROUGH [Const64 0x10] 4, instr0 Op_LOAD [InstrRef 4] 5,
                instr0 Op_JMP [InstrRef 5] 6],
      next_id = 7\<rparr>"

definition promotion_memory :: ByteMemory where
  "promotion_memory = add_safe_range empty_memory 0 0x80"

definition promotion_env :: env where
  "promotion_env = \<lparr>sym = (\<lambda>_. 0x100), symmem = (\<lambda>_ _. 0), other_op = (\<lambda>_ _. 0), ext_call = (\<lambda>_ m. (0, m))\<rparr>"

abbreviation zero_state :: state where
  "zero_state \<equiv> \<lparr>vals = (\<lambda>_. 0), mem = (\<lambda>_. 0), trace = []\<rparr>"

lemma promotion_example_run:
  "map_option (\<lambda>(f', bm', p). (map operands (instrs f'), load_u64 bm' 0x10, p))
     (promote_pass promotion_example promotion_memory)
   = Some ([[SymReg ''b'', Const64 8], [Const64 7], [Const64 0x10, InstrRef 1], [InstrRef 0, Const64 9],
            [Const64 0x10], [Const64 7], [InstrRef 5]], Some 7, True)"
  by code_simp

lemma promotion_example_tracked:
  assumes "x \<in> set (instrs promotion_example)"
  shows "tracked promotion_env (exec promotion_env zero_state (instrs promotion_example)) (span 0x10)
    promotion_memory (instrs promotion_example) x"
proof -
  let ?t = "exec promotion_env zero_state (instrs promotion_example)"
  have v: "vals ?t 0 = 0x108"
    by (simp add: promotion_example_def promotion_env_def result_of_def pure_result_def binop_sem_def)
  have k: "known (instrs promotion_example) (InstrRef 1)"
    unfolding known_def by (intro exI [of _ 7] exI [of _ 64]) code_simp
  have s: "is_safe promotion_memory 0x10" "\<not> is_safe promotion_memory 0x108" by code_simp+
  have "y \<notin> span 0x10" if "y \<in> span 0x108" for y
  proof -
    define z where "z = y - 0x108"
    then have y: "y = 0x108 + z" and z: "unat z < 8" using that by (simp_all add: span_def)
    then have "unat (y - 0x10) = 0xF8 + unat z" by (simp add: unat_word_ariths)
    then show ?thesis by (simp add: span_def)
  qed
  then have "span 0x108 \<inter> span 0x10 = {}" by blast
  with assms v k s show ?thesis
    by (auto simp: tracked_def promotion_example_def known_def)
qed

theorem promote_pass_correct_witness:
  "\<exists>f' bm' promoted. promote_pass promotion_example promotion_memory = Some (f', bm', promoted)
     \<and> exec promotion_env zero_state (instrs f') = exec promotion_env zero_state (instrs promotion_example)
     \<and> map operands (instrs f') ! 5 = [Const64 7] \<and> load_u64 bm' 0x10 = Some 7
     \<and> trace (exec promotion_env zero_state (instrs f')) = [E_Jump [7]]"
proof -
  from promotion_example_run obtain f' bm' p where
    run: "promote_pass promotion_example promotion_memory = Some (f', bm', p)"
    and ops: "map operands (instrs f') ! 5 = [Const64 7]" "load_u64 bm' 0x10 = Some 7"
    by (cases "promote_pass promotion_example promotion_memory") auto
  have "ssa (instrs promotion_example)" "single_operands (instrs promotion_example)"
    "no_calls (instrs promotion_example)" by code_simp+
  moreover have "mirrors (span 0x10) promotion_memory (mem zero_state)"
    by (simp add: mirrors_def holds_def promotion_memory_def add_safe_range_def empty_memory_def)
  ultimately have *: "exec promotion_env zero_state (instrs f') = exec promotion_env zero_state (instrs promotion_example)"
    using promote_pass_correct [OF run _ _ _ _ promotion_example_tracked] by blast
  have "trace (exec promotion_env zero_state (instrs promotion_example)) = [E_Jump [7]]"
    by (simp add: promotion_example_def promotion_env_def result_of_def pure_result_def binop_sem_def
        memory_after_def events_of_def rd64_wr64 apart_def)
  with * run ops show ?thesis by auto
qed


definition bytecode_example :: Function where
  "bytecode_example =
     \<lparr>fn_name = ''b'',
      instrs = [instr0 Op_LOAD [Const64 0x10] 0, instr0 Op_ADD [InstrRef 0, Const64 0x10] 1,
                instr0 Op_LOAD [InstrRef 1] 2, instr0 Op_JMP [InstrRef 2] 3],
      next_id = 4\<rparr>"

definition bytecode_memory :: ByteMemory where
  "bytecode_memory = store_u64 (store_u64 (add_safe_range empty_memory 0 0x80) 0x10 8) 0x18 3"

definition bytecode_state :: state where
  "bytecode_state = \<lparr>vals = (\<lambda>_. 0), mem = wr64 (wr64 (\<lambda>_. 0) 0x10 8) 0x18 3, trace = []\<rparr>"

lemma bytecode_example_run:
  "map_option (\<lambda>(f', _). map (\<lambda>i. (op i, operands i)) (instrs f')) (promote_and_optimize bytecode_example bytecode_memory)
     = Some [(Op_CONST, [Const64 8]), (Op_CONST, [Const64 0x18]), (Op_CONST, [Const64 3]), (Op_JMP, [Const64 3])]"
  "map_option (\<lambda>(f', _). map (\<lambda>i. (op i, operands i)) (instrs f')) (guided_promote_rounds 3 bytecode_example bytecode_memory)
     = Some [(Op_CONST, [Const64 8]), (Op_CONST, [Const64 0x18]), (Op_CONST, [Const64 3]), (Op_JMP, [Const64 3])]"
  by code_simp+


text \<open>Property C32. Beyond one walk promotion is wrong on private memory that is written: the second
  walk starts with what the first one left at the end of the code. A load whose bytes were not held
  the first time is given the value a later store put there. Both evaluators turn the jump to the old
  contents of \<open>0x10\<close> into a jump to 5.\<close>

definition future_example :: Function where
  "future_example =
     \<lparr>fn_name = ''f'',
      instrs = [instr0 Op_LOAD [Const64 0x10] 0, instr0 Op_LOAD [Const64 0x20] 1,
                instr0 Op_STORE [Const64 0x10, Const64 5] 2, instr0 Op_JMP [InstrRef 0] 3],
      next_id = 4\<rparr>"

definition future_memory :: ByteMemory where
  "future_memory = store_u64 (add_safe_range empty_memory 0 0x80) 0x20 0"

theorem promotion_reads_future:
  "map_option (\<lambda>(f', _). operands (instrs f' ! 3)) (promote_and_optimize future_example future_memory)
     = Some [Const64 5]
   \<and> map_option (\<lambda>(f', _). operands (instrs f' ! 0)) (guided_promote_rounds 3 future_example future_memory)
     = Some [Const64 5]
   \<and> holds future_memory (mem zero_state)
   \<and> trace (exec promotion_env zero_state (instrs future_example)) = [E_Jump [0]]"
proof (intro conjI)
  have "wr64 (\<lambda>_. 0) 0x20 0 = (\<lambda>_. 0)"
    by (auto simp: wr64_def le_byte_def)
  moreover have "holds (add_safe_range empty_memory 0 0x80) (\<lambda>_. 0)"
    by (simp add: holds_def add_safe_range_def empty_memory_def)
  ultimately show "holds future_memory (mem zero_state)"
    using holds_store [where bm = "add_safe_range empty_memory 0 0x80" and m = "\<lambda>_. 0" and a = "0x20" and v = 0]
    by (simp add: future_memory_def)
  show "trace (exec promotion_env zero_state (instrs future_example)) = [E_Jump [0]]"
    by (simp add: future_example_def result_of_def events_of_def pure_result_def memory_after_def
        rd64_def of_le_bytes_def upt_rec)
qed (code_simp)+

end
