(* ===== verification/X64_Lifter.thy ===== *)
theory X64_Lifter
  imports Deobf_IR
begin

section \<open>The x86-64 lifter (include/deobf/lifter.h, src/lifter/x64_lifter.cpp)\<close>

text \<open>
  The lifter turns decoded instructions into IR, keeping for every register the \<open>Value\<close>
  that stands for it. The decoder is the Capstone disassembler, which is not part of the
  repository: a decoded instruction is a record of the fields the lifter reads, and the
  decoder itself an argument of the functions that call it.

  Register enumerators are written by class: \<open>R64 RAX\<close> is \<^verbatim>\<open>X86_REG_RAX\<close>,
  \<open>R32 RAX\<close> is \<^verbatim>\<open>X86_REG_EAX\<close>, \<open>R16 RAX\<close> is \<^verbatim>\<open>X86_REG_AX\<close>,
  \<open>R8L RAX\<close> is \<^verbatim>\<open>X86_REG_AL\<close> (\<open>R8L RSI\<close> is \<^verbatim>\<open>X86_REG_SIL\<close>, \<open>R8L R9\<close> is
  \<^verbatim>\<open>X86_REG_R9B\<close>) and \<open>R8H RAX\<close> is \<^verbatim>\<open>X86_REG_AH\<close>; \<open>OtherReg n\<close> is any other
  enumerator, by its number, and \<open>RegInvalid\<close> the enumerator 0, which marks a missing base
  or index.

  Several operations keep the reference an \<^verbatim>\<open>emit\<close> returned while they emit again; when the
  second emit makes the vector grow, C++ leaves the later read of the reference undefined. The
  model gives such reads the id the reference had, which is what they yield whenever the vector
  does not move.
\<close>

subsection \<open>Decoded instructions\<close>

datatype gpr = RAX | RCX | RDX | RBX | RSP | RBP | RSI | RDI
  | R8 | R9 | R10 | R11 | R12 | R13 | R14 | R15

datatype x86_reg = RegInvalid | R64 gpr | R32 gpr | R16 gpr | R8L gpr | R8H gpr
  | RIP | EIP | EFLAGS | OtherReg nat

datatype x86_op =
    X86_OP_REG x86_reg
  | X86_OP_IMM u64
  | X86_OP_MEM (mem_base: x86_reg) (mem_index: x86_reg) (mem_scale: u64) (mem_disp: u64)
  | X86_OP_OTHER

record cs_insn =
  mnemonic :: string
  insn_address :: u64
  insn_size :: u64
  x86_operands :: "x86_op list"

definition op_count :: "cs_insn \<Rightarrow> nat" where
  "op_count i = length (x86_operands i)"

definition next_address :: "cs_insn \<Rightarrow> u64" where
  "next_address i = insn_address i + insn_size i"

subsection \<open>Register names\<close>

definition gprs :: "gpr list" where
  "gprs = [RAX, RCX, RDX, RBX, RSP, RBP, RSI, RDI, R8, R9, R10, R11, R12, R13, R14, R15]"

fun gpr_name :: "gpr \<Rightarrow> string" where
  "gpr_name RAX = ''rax''" | "gpr_name RCX = ''rcx''" | "gpr_name RDX = ''rdx''" | "gpr_name RBX = ''rbx''"
| "gpr_name RSP = ''rsp''" | "gpr_name RBP = ''rbp''" | "gpr_name RSI = ''rsi''" | "gpr_name RDI = ''rdi''"
| "gpr_name R8 = ''r8''" | "gpr_name R9 = ''r9''" | "gpr_name R10 = ''r10''" | "gpr_name R11 = ''r11''"
| "gpr_name R12 = ''r12''" | "gpr_name R13 = ''r13''" | "gpr_name R14 = ''r14''" | "gpr_name R15 = ''r15''"

definition gpr64_map :: "(x86_reg \<times> string) list" where
  "gpr64_map =
     map (\<lambda>g. (R64 g, gpr_name g)) gprs @ map (\<lambda>g. (R32 g, gpr_name g)) gprs
     @ map (\<lambda>g. (R16 g, gpr_name g)) gprs @ map (\<lambda>g. (R8L g, gpr_name g)) gprs
     @ map (\<lambda>g. (R8H g, gpr_name g)) [RAX, RCX, RDX, RBX]
     @ [(RIP, ''rip''), (EIP, ''rip''), (EFLAGS, ''rflags'')]"

fun reg_number :: "x86_reg \<Rightarrow> nat" where
  "reg_number (OtherReg n) = n"
| "reg_number _ = 0"

definition reg_name :: "x86_reg \<Rightarrow> string" where
  "reg_name r = (case map_of gpr64_map r of Some n \<Rightarrow> n | None \<Rightarrow> ''unk_'' @ to_string (reg_number r))"

definition is_rip :: "x86_reg \<Rightarrow> bool" where
  "is_rip r \<longleftrightarrow> r = RIP \<or> r = EIP"

subsection \<open>The lifting state\<close>

record LiftState =
  func :: Function
  regs :: "(string \<times> Value) list"

definition default_regs :: "u64 \<Rightarrow> (string \<times> Value) list" where
  "default_regs rsp_concrete =
     map (\<lambda>n. (n, SymReg n)) [''rax'', ''rcx'', ''rdx'', ''rbx'', ''rbp'', ''rsi'', ''rdi'',
        ''r8'', ''r9'', ''r10'', ''r11'', ''r12'', ''r13'', ''r14'', ''r15'']
     @ [(''rsp'', Const64 rsp_concrete), (''rflags'', SymReg ''rflags'')]"

definition new_lift_state :: "Function \<Rightarrow> u64 \<Rightarrow> LiftState" where
  "new_lift_state f rsp_concrete = \<lparr>func = f, regs = default_regs rsp_concrete\<rparr>"

definition get_reg :: "LiftState \<Rightarrow> string \<Rightarrow> Value" where
  "get_reg st name = (case map_of (regs st) name of Some v \<Rightarrow> v | None \<Rightarrow> SymReg name)"

definition set_reg :: "string \<Rightarrow> Value \<Rightarrow> LiftState \<Rightarrow> LiftState" where
  "set_reg name val st = st\<lparr>regs := AList.update name val (regs st)\<rparr>"

text \<open>\<open>emit_ref\<close> is \<^verbatim>\<open>state.emit(...).ref()\<close>: the new instruction's value and the state.\<close>

definition emit_ref :: "Op \<Rightarrow> Value list \<Rightarrow> (string \<times> string) list \<Rightarrow> LiftState \<Rightarrow> Value \<times> LiftState" where
  "emit_ref x vs ann st =
     (let (i, f) = emit (func st) x vs ann in (ref i, st\<lparr>func := f\<rparr>))"

definition set_dst :: "x86_op \<Rightarrow> Value \<Rightarrow> LiftState \<Rightarrow> LiftState" where
  "set_dst dst val st = (case dst of X86_OP_REG r \<Rightarrow> set_reg (reg_name r) val st | _ \<Rightarrow> st)"

definition va_ann :: "cs_insn \<Rightarrow> string \<times> string" where
  "va_ann i = (''va'', ''0x'' @ to_hex (unat (insn_address i)))"

subsection \<open>Operands\<close>

definition mem_base_value :: "cs_insn \<Rightarrow> x86_reg \<Rightarrow> LiftState \<Rightarrow> Value" where
  "mem_base_value insn base st =
     (if base \<noteq> RegInvalid \<and> is_rip base then Const64 (next_address insn)
      else if base \<noteq> RegInvalid then get_reg st (reg_name base)
      else Const64 0)"

text \<open>The scaled index added to an address, when there is one.\<close>

definition add_index :: "x86_reg \<Rightarrow> u64 \<Rightarrow> Value \<Rightarrow> LiftState \<Rightarrow> Value \<times> LiftState" where
  "add_index index scale addr st =
     (if index \<noteq> RegInvalid then
        let (scaled, st) = emit_ref Op_MUL [get_reg st (reg_name index), Const64 scale] [] st
        in emit_ref Op_ADD [addr, scaled] [] st
      else (addr, st))"

definition op_value :: "cs_insn \<Rightarrow> nat \<Rightarrow> LiftState \<Rightarrow> Value \<times> LiftState" where
  "op_value insn idx st =
     (case x86_operands insn ! idx of
        X86_OP_REG r \<Rightarrow>
          (if is_rip r then Const64 (next_address insn) else get_reg st (reg_name r), st)
      | X86_OP_IMM v \<Rightarrow> (Const64 v, st)
      | X86_OP_MEM base index scale disp \<Rightarrow>
          (let (addr, st) = emit_ref Op_ADD [mem_base_value insn base st, Const64 disp] [(''addr_calc'', ''1'')] st;
               (addr, st) = add_index index scale addr st
           in emit_ref Op_LOAD [addr] [va_ann insn] st)
      | X86_OP_OTHER \<Rightarrow> (SymReg ''unknown'', st))"

text \<open>The address of a memory destination, as \<^verbatim>\<open>mov\<close>, \<^verbatim>\<open>inc\<close> and \<^verbatim>\<open>dec\<close> compute
  it: base and displacement only.\<close>

definition dst_address :: "x86_reg \<Rightarrow> u64 \<Rightarrow> LiftState \<Rightarrow> Value \<times> LiftState" where
  "dst_address base disp st =
     emit_ref Op_ADD [if base \<noteq> RegInvalid then get_reg st (reg_name base) else Const64 0, Const64 disp] [] st"

subsection \<open>One definition per case of \<open>lift_insn\<close>\<close>

definition lift_push :: "cs_insn \<Rightarrow> LiftState \<Rightarrow> LiftState" where
  "lift_push insn st =
     (let (val, st) = op_value insn 0 st;
          rsp = get_reg st ''rsp'';
          (new_rsp, st) = emit_ref Op_SUB [rsp, Const64 8] [] st;
          (_, st) = emit_ref Op_STORE [new_rsp, val] [va_ann insn] st
      in set_reg ''rsp'' new_rsp st)"

definition lift_pop :: "cs_insn \<Rightarrow> LiftState \<Rightarrow> LiftState" where
  "lift_pop insn st =
     (let rsp = get_reg st ''rsp'';
          (loaded, st) = emit_ref Op_LOAD [rsp] [va_ann insn] st;
          (new_rsp, st) = emit_ref Op_ADD [rsp, Const64 8] [] st
      in set_dst (x86_operands insn ! 0) loaded (set_reg ''rsp'' new_rsp st))"

definition lift_mov :: "cs_insn \<Rightarrow> LiftState \<Rightarrow> LiftState" where
  "lift_mov insn st =
     (let (src, st) = op_value insn 1 st
      in case x86_operands insn ! 0 of
           X86_OP_REG r \<Rightarrow> set_reg (reg_name r) src st
         | X86_OP_MEM base index scale disp \<Rightarrow>
             (let (addr, st) = dst_address base disp st
              in snd (emit_ref Op_STORE [addr, src] [va_ann insn] st))
         | _ \<Rightarrow> st)"

definition lift_lea :: "cs_insn \<Rightarrow> LiftState \<Rightarrow> LiftState" where
  "lift_lea insn st =
     (case x86_operands insn ! 1 of
        X86_OP_MEM base index scale disp \<Rightarrow>
          (let (result, st) = emit_ref Op_ADD [mem_base_value insn base st, Const64 disp] [] st;
               (result, st) = add_index index scale result st
           in set_dst (x86_operands insn ! 0) result st)
      | _ \<Rightarrow> st)"

definition binop_map :: "(string \<times> Op) list" where
  "binop_map = [(''add'', Op_ADD), (''sub'', Op_SUB), (''xor'', Op_XOR),
     (''and'', Op_AND), (''or'', Op_OR), (''shl'', Op_SHL),
     (''shr'', Op_SHR), (''sar'', Op_SAR), (''rol'', Op_ROL), (''ror'', Op_ROR)]"

definition lift_binop :: "Op \<Rightarrow> cs_insn \<Rightarrow> LiftState \<Rightarrow> LiftState" where
  "lift_binop x insn st =
     (let (a, st) = op_value insn 0 st;
          (b, st) = op_value insn 1 st;
          (result, st) = emit_ref x [a, b] [va_ann insn] st
      in set_dst (x86_operands insn ! 0) result st)"

definition unop_map :: "(string \<times> Op) list" where
  "unop_map = [(''not'', Op_NOT), (''neg'', Op_NEG), (''bswap'', Op_BSWAP)]"

definition lift_unop :: "Op \<Rightarrow> cs_insn \<Rightarrow> LiftState \<Rightarrow> LiftState" where
  "lift_unop x insn st =
     (let (a, st) = op_value insn 0 st;
          (result, st) = emit_ref x [a] [va_ann insn] st
      in set_dst (x86_operands insn ! 0) result st)"

definition lift_inc_dec :: "cs_insn \<Rightarrow> LiftState \<Rightarrow> LiftState" where
  "lift_inc_dec insn st =
     (let (a, st) = op_value insn 0 st;
          x = (if mnemonic insn = ''inc'' then Op_ADD else Op_SUB);
          (result, st) = emit_ref x [a, Const64 1] [va_ann insn] st
      in case x86_operands insn ! 0 of
           X86_OP_REG r \<Rightarrow> set_reg (reg_name r) result st
         | X86_OP_MEM base index scale disp \<Rightarrow>
             (let (addr, st) = dst_address base disp st
              in snd (emit_ref Op_STORE [addr, result] [va_ann insn] st))
         | _ \<Rightarrow> st)"

definition lift_call :: "cs_insn \<Rightarrow> LiftState \<Rightarrow> LiftState" where
  "lift_call insn st =
     (let (target, st) = op_value insn 0 st;
          ret_va = next_address insn;
          rsp = get_reg st ''rsp'';
          (new_rsp, st) = emit_ref Op_SUB [rsp, Const64 8] [] st;
          (_, st) = emit_ref Op_STORE [new_rsp, Const64 ret_va] [va_ann insn] st;
          st = set_reg ''rsp'' new_rsp st
      in snd (emit_ref Op_CALL [target] [va_ann insn] st))"

definition lift_ret :: "cs_insn \<Rightarrow> LiftState \<Rightarrow> LiftState" where
  "lift_ret insn st =
     (let rsp = get_reg st ''rsp'';
          (ret_addr, st) = emit_ref Op_LOAD [rsp] [] st
      in snd (emit_ref Op_RET [ret_addr] [] st))"

definition lift_jmp :: "cs_insn \<Rightarrow> LiftState \<Rightarrow> LiftState" where
  "lift_jmp insn st =
     (let (target, st) = op_value insn 0 st
      in snd (emit_ref Op_JMP [target] [va_ann insn] st))"

definition lift_pushfq :: "cs_insn \<Rightarrow> LiftState \<Rightarrow> LiftState" where
  "lift_pushfq insn st =
     (let rsp = get_reg st ''rsp'';
          (new_rsp, st) = emit_ref Op_SUB [rsp, Const64 8] [] st;
          (_, st) = emit_ref Op_STORE [new_rsp, get_reg st ''rflags''] [] st
      in set_reg ''rsp'' new_rsp st)"

definition lift_popfq :: "cs_insn \<Rightarrow> LiftState \<Rightarrow> LiftState" where
  "lift_popfq insn st =
     (let rsp = get_reg st ''rsp'';
          (flags, st) = emit_ref Op_LOAD [rsp] [] st;
          (new_rsp, st) = emit_ref Op_ADD [rsp, Const64 8] [] st
      in set_reg ''rflags'' flags (set_reg ''rsp'' new_rsp st))"

definition lift_flags :: "Op \<Rightarrow> cs_insn \<Rightarrow> LiftState \<Rightarrow> LiftState" where
  "lift_flags x insn st =
     (let (a, st) = op_value insn 0 st;
          (b, st) = op_value insn 1 st;
          (result, st) = emit_ref x [a, b] [va_ann insn, (''flags_only'', ''1'')] st
      in set_reg ''rflags'' result st)"

definition jcc_mnems :: "string list" where
  "jcc_mnems = [''je'', ''jz'', ''jne'', ''jnz'', ''ja'', ''jb'', ''jae'', ''jbe'',
     ''jg'', ''jl'', ''jge'', ''jle'', ''js'', ''jns'', ''jo'', ''jno'']"

definition lift_jcc :: "cs_insn \<Rightarrow> LiftState \<Rightarrow> LiftState" where
  "lift_jcc insn st =
     (let (target, st) = op_value insn 0 st;
          flags = get_reg st ''rflags''
      in snd (emit_ref Op_CJMP [flags, target] [va_ann insn, (''jcc'', mnemonic insn)] st))"

definition lift_xchg :: "cs_insn \<Rightarrow> LiftState \<Rightarrow> LiftState" where
  "lift_xchg insn st =
     (case (x86_operands insn ! 0, x86_operands insn ! 1) of
        (X86_OP_REG a, X86_OP_REG b) \<Rightarrow>
          (let a_val = get_reg st (reg_name a); b_val = get_reg st (reg_name b)
           in set_reg (reg_name b) a_val (set_reg (reg_name a) b_val st))
      | _ \<Rightarrow> st)"

definition lift_cdqe :: "cs_insn \<Rightarrow> LiftState \<Rightarrow> LiftState" where
  "lift_cdqe insn st =
     (let (result, st) = emit_ref Op_SEXT [get_reg st ''rax''] [va_ann insn] st
      in set_reg ''rax'' result st)"

definition lift_extend :: "Op \<Rightarrow> cs_insn \<Rightarrow> LiftState \<Rightarrow> LiftState" where
  "lift_extend x insn st =
     (let (src, st) = op_value insn 1 st;
          (result, st) = emit_ref x [src] [va_ann insn] st
      in set_dst (x86_operands insn ! 0) result st)"

definition lift_setcc :: "cs_insn \<Rightarrow> LiftState \<Rightarrow> LiftState" where
  "lift_setcc insn st =
     (let flags = get_reg st ''rflags'';
          (result, st) = emit_ref Op_SELECT [flags, Const64 1, Const64 0] [va_ann insn, (''setcc'', mnemonic insn)] st
      in set_dst (x86_operands insn ! 0) result st)"

definition lift_cmov :: "cs_insn \<Rightarrow> LiftState \<Rightarrow> LiftState" where
  "lift_cmov insn st =
     (case x86_operands insn ! 0 of
        X86_OP_REG r \<Rightarrow>
          (let (src, st) = op_value insn 1 st;
               old = get_reg st (reg_name r);
               flags = get_reg st ''rflags'';
               (result, st) = emit_ref Op_SELECT [flags, src, old] [va_ann insn, (''cmov'', mnemonic insn)] st
           in set_reg (reg_name r) result st)
      | _ \<Rightarrow> st)"

definition lift_unsupported :: "cs_insn \<Rightarrow> LiftState \<Rightarrow> LiftState" where
  "lift_unsupported insn st =
     snd (emit_ref Op_NOP [] [va_ann insn, (''unsupported'', mnemonic insn)] st)"

subsection \<open>The dispatch\<close>

definition lift_insn :: "cs_insn \<Rightarrow> LiftState \<Rightarrow> LiftState" where
  "lift_insn insn st =
     (let m = mnemonic insn; n = op_count insn
      in if m = ''nop'' \<or> take 5 m = ''endbr'' then st
         else if m = ''push'' \<and> 1 \<le> n then lift_push insn st
         else if m = ''pop'' \<and> 1 \<le> n then lift_pop insn st
         else if (m = ''mov'' \<or> m = ''movabs'') \<and> 2 \<le> n then lift_mov insn st
         else if m = ''lea'' \<and> 2 \<le> n then lift_lea insn st
         else if map_of binop_map m \<noteq> None \<and> n = 2 then lift_binop (the (map_of binop_map m)) insn st
         else if map_of unop_map m \<noteq> None \<and> n = 1 then lift_unop (the (map_of unop_map m)) insn st
         else if (m = ''inc'' \<or> m = ''dec'') \<and> 1 \<le> n then lift_inc_dec insn st
         else if m = ''call'' \<and> 1 \<le> n then lift_call insn st
         else if m = ''ret'' then lift_ret insn st
         else if m = ''jmp'' \<and> 1 \<le> n then lift_jmp insn st
         else if m = ''pushfq'' then lift_pushfq insn st
         else if m = ''popfq'' then lift_popfq insn st
         else if m = ''test'' \<and> n = 2 then lift_flags Op_AND insn st
         else if m = ''cmp'' \<and> n = 2 then lift_flags Op_SUB insn st
         else if m \<in> set jcc_mnems \<and> 1 \<le> n then lift_jcc insn st
         else if m = ''xchg'' \<and> n = 2 then lift_xchg insn st
         else if m = ''cdqe'' then lift_cdqe insn st
         else if m = ''movzx'' \<and> 2 \<le> n then lift_extend Op_ZEXT insn st
         else if m = ''movsx'' \<or> m = ''movsxd'' then (if 2 \<le> n then lift_extend Op_SEXT insn st else st)
         else if take 3 m = ''set'' \<and> 3 < length m \<and> 1 \<le> n then lift_setcc insn st
         else if take 4 m = ''cmov'' \<and> 2 \<le> n then lift_cmov insn st
         else lift_unsupported insn st)"

text \<open>
  \<open>lift_block\<close> over the instructions the decoder finds in a code window at an address;
  \<open>None\<close> when Capstone cannot be opened.
\<close>

type_synonym disassembler = "(u8 list \<Rightarrow> u64 \<Rightarrow> cs_insn list) option"

fun lift_loop :: "cs_insn list \<Rightarrow> int \<Rightarrow> int \<Rightarrow> LiftState \<Rightarrow> LiftState" where
  "lift_loop [] lifted max_instrs st = st"
| "lift_loop (i # is) lifted max_instrs st =
     (if lifted < max_instrs then
        (let st = lift_insn i st
         in if mnemonic i = ''ret'' \<or> mnemonic i = ''jmp'' then st
            else lift_loop is (lifted + 1) max_instrs st)
      else st)"

definition lift_block :: "disassembler \<Rightarrow> u8 list \<Rightarrow> u64 \<Rightarrow> LiftState \<Rightarrow> int \<Rightarrow> LiftState" where
  "lift_block dis code base_va st max_instrs =
     (case dis of None \<Rightarrow> st | Some decode \<Rightarrow> lift_loop (decode code base_va) 0 max_instrs st)"

end
