(* ===== verification/CFG.thy ===== *)
theory CFG
  imports Deobf_IR
begin

section \<open>Control-flow graphs (include/deobf/cfg.h, src/ir/cfg.cpp)\<close>

text \<open>
  Blocks with phi nodes, instructions and a terminator, in a \<^verbatim>\<open>std::deque\<close> that only
  grows, and a list of edges. A C++ reference or pointer to a block is its id here: every
  operation looks the block up, and a null pointer that is dereferenced is \<open>None\<close>.
\<close>

datatype TermKind = Term_FALLTHROUGH | Term_JMP | Term_CJMP | Term_RET | Term_UNREACHABLE

record Terminator =
  term_kind :: TermKind
  term_target :: "u32 option"
  term_fallthrough :: "u32 option"
  term_condition :: "Value option"

definition default_term :: Terminator where
  "default_term =
     \<lparr>term_kind = Term_UNREACHABLE, term_target = None, term_fallthrough = None, term_condition = None\<rparr>"

record PhiNode =
  phi_id :: u32
  phi_reg :: string
  phi_incoming :: "(u32 \<times> Value) list"

record BasicBlock =
  bb_id :: u32
  bb_label :: string
  bb_phis :: "PhiNode list"
  bb_instrs :: "Instruction list"
  bb_term :: Terminator

record Edge =
  edge_from :: u32
  edge_to :: u32
  is_backedge :: bool

record CFGFunction =
  cfg_name :: string
  cfg_blocks :: "BasicBlock list"
  cfg_edges :: "Edge list"
  entry_block :: u32
  next_block_id :: u32
  next_instr_id :: u32

definition new_cfg :: "string \<Rightarrow> CFGFunction" where
  "new_cfg n = \<lparr>cfg_name = n, cfg_blocks = [], cfg_edges = [], entry_block = 0,
                next_block_id = 0, next_instr_id = 0\<rparr>"

definition block_emit :: "BasicBlock \<Rightarrow> Op \<Rightarrow> Value list \<Rightarrow> (string \<times> string) list \<Rightarrow> Instruction \<times> BasicBlock" where
  "block_emit bb x vs ann =
     (let i = \<lparr>op = x, operands = vs, result_id = 0, annotations = ann\<rparr>
      in (i, bb\<lparr>bb_instrs := bb_instrs bb @ [i]\<rparr>))"

text \<open>The new block's id stands for the reference that is returned.\<close>

definition add_block :: "CFGFunction \<Rightarrow> string \<Rightarrow> u32 \<times> CFGFunction" where
  "add_block cfg lbl =
     (let i = next_block_id cfg;
          bb = \<lparr>bb_id = i,
                bb_label = (if lbl = [] then ''bb'' @ to_string (unat i) else lbl),
                bb_phis = [], bb_instrs = [], bb_term = default_term\<rparr>
      in (i, cfg\<lparr>cfg_blocks := cfg_blocks cfg @ [bb], next_block_id := i + 1\<rparr>))"

definition add_edge :: "CFGFunction \<Rightarrow> u32 \<Rightarrow> u32 \<Rightarrow> bool \<Rightarrow> CFGFunction" where
  "add_edge cfg from to backedge =
     cfg\<lparr>cfg_edges := cfg_edges cfg @ [\<lparr>edge_from = from, edge_to = to, is_backedge = backedge\<rparr>]\<rparr>"

fun find_block :: "u32 \<Rightarrow> BasicBlock list \<Rightarrow> BasicBlock option" where
  "find_block i [] = None"
| "find_block i (b # bs) = (if bb_id b = i then Some b else find_block i bs)"

definition block_by_id :: "CFGFunction \<Rightarrow> u32 \<Rightarrow> BasicBlock option" where
  "block_by_id cfg i = find_block i (cfg_blocks cfg)"

text \<open>A write through the pointer \<open>block_by_id\<close> returns.\<close>

fun write_block :: "u32 \<Rightarrow> (BasicBlock \<Rightarrow> BasicBlock) \<Rightarrow> BasicBlock list \<Rightarrow> BasicBlock list option" where
  "write_block i g [] = None"
| "write_block i g (b # bs) =
     (if bb_id b = i then Some (g b # bs) else map_option ((#) b) (write_block i g bs))"

definition update_block :: "CFGFunction \<Rightarrow> u32 \<Rightarrow> (BasicBlock \<Rightarrow> BasicBlock) \<Rightarrow> CFGFunction option" where
  "update_block cfg i g =
     map_option (\<lambda>bs. cfg\<lparr>cfg_blocks := bs\<rparr>) (write_block i g (cfg_blocks cfg))"

definition successors :: "CFGFunction \<Rightarrow> u32 \<Rightarrow> u32 list" where
  "successors cfg i = map edge_to (filter (\<lambda>e. edge_from e = i) (cfg_edges cfg))"

definition predecessors :: "CFGFunction \<Rightarrow> u32 \<Rightarrow> u32 list" where
  "predecessors cfg i = map edge_from (filter (\<lambda>e. edge_to e = i) (cfg_edges cfg))"

definition total_instrs :: "CFGFunction \<Rightarrow> nat" where
  "total_instrs cfg = (\<Sum>b \<leftarrow> cfg_blocks cfg. length (bb_instrs b) + length (bb_phis b))"

definition edge_dump :: "Edge \<Rightarrow> string" where
  "edge_dump e = '' '' @ to_string (unat (edge_from e)) @ ''->'' @ to_string (unat (edge_to e))
     @ (if is_backedge e then ''(back)'' else '''')"

definition phi_dump :: "PhiNode \<Rightarrow> string" where
  "phi_dump p = ''    %v'' @ to_string (unat (phi_id p)) @ '' = PHI''
     @ (if phi_reg p = [] then '''' else '' <'' @ phi_reg p @ ''>'')
     @ concat (map (\<lambda>(b, v). '' [bb'' @ to_string (unat b) @ '': '' @ value_to_string v @ '']'') (phi_incoming p))
     @ [CHR 0x0A]"

definition opt_id :: "u32 option \<Rightarrow> string" where
  "opt_id x = to_string (unat (case x of Some i \<Rightarrow> i | None \<Rightarrow> 0))"

definition term_dump :: "Terminator \<Rightarrow> string" where
  "term_dump t = (case term_kind t of
     Term_FALLTHROUGH \<Rightarrow> ''fallthrough -> bb'' @ opt_id (term_fallthrough t)
   | Term_JMP \<Rightarrow> ''jmp -> bb'' @ opt_id (term_target t)
   | Term_CJMP \<Rightarrow> ''cjmp '' @ (case term_condition t of Some c \<Rightarrow> value_to_string c | None \<Rightarrow> ''?'')
       @ '' -> bb'' @ opt_id (term_target t) @ '' else bb'' @ opt_id (term_fallthrough t)
   | Term_RET \<Rightarrow> ''ret''
   | Term_UNREACHABLE \<Rightarrow> ''unreachable'')"

definition block_dump :: "BasicBlock \<Rightarrow> string" where
  "block_dump b = ''  '' @ bb_label b @ '' (id='' @ to_string (unat (bb_id b)) @ ''):'' @ [CHR 0x0A]
     @ concat (map phi_dump (bb_phis b))
     @ concat (map (\<lambda>i. ''    '' @ instruction_to_string i @ [CHR 0x0A]) (bb_instrs b))
     @ ''    term: '' @ term_dump (bb_term b) @ [CHR 0x0A, CHR 0x0A]"

definition cfg_dump :: "CFGFunction \<Rightarrow> string" where
  "cfg_dump cfg = ''cfg_func '' @ cfg_name cfg @ '' {'' @ [CHR 0x0A]
     @ ''  entry: '' @ to_string (unat (entry_block cfg)) @ [CHR 0x0A]
     @ ''  edges:'' @ concat (map edge_dump (cfg_edges cfg)) @ [CHR 0x0A, CHR 0x0A]
     @ concat (map block_dump (cfg_blocks cfg)) @ ''}''"

subsection \<open>Numbered blocks\<close>

text \<open>
  Blocks are numbered from 0 in order of creation, as long as the 32-bit counter does not
  wrap; then \<open>block_by_id\<close> is indexing.
\<close>

definition numbered :: "CFGFunction \<Rightarrow> bool" where
  "numbered cfg \<longleftrightarrow>
     map bb_id (cfg_blocks cfg) = map of_nat [0..<length (cfg_blocks cfg)]
     \<and> next_block_id cfg = of_nat (length (cfg_blocks cfg)) \<and> length (cfg_blocks cfg) < 2 ^ 32"

lemma numbered_new [simp]: "numbered (new_cfg n)"
  by (simp add: numbered_def new_cfg_def)

lemma numbered_nth: "numbered cfg \<Longrightarrow> k < length (cfg_blocks cfg) \<Longrightarrow> bb_id (cfg_blocks cfg ! k) = of_nat k"
  by (metis (no_types, lifting) numbered_def add_0 length_map length_upt diff_zero nth_map nth_upt)

lemma numbered_add_block:
  assumes "numbered cfg" "length (cfg_blocks cfg) + 1 < 2 ^ 32" "add_block cfg lbl = (i, cfg')"
  shows "numbered cfg' \<and> i = of_nat (length (cfg_blocks cfg))"
  using assms by (auto simp: numbered_def add_block_def Let_def)

lemma of_nat_u32_inject: "a < 2 ^ 32 \<Longrightarrow> b < 2 ^ 32 \<Longrightarrow> (of_nat a :: u32) = of_nat b \<longleftrightarrow> a = b"
  by (auto simp: word_of_nat_eq_iff take_bit_nat_eq_self)

lemma find_block_nth:
  "\<lbrakk>\<forall>j < length bs. bb_id (bs ! j) = of_nat (n + j); n + length bs \<le> 2 ^ 32; k < length bs\<rbrakk>
   \<Longrightarrow> find_block (of_nat (n + k)) bs = Some (bs ! k)
     \<and> write_block (of_nat (n + k)) g bs = Some (bs[k := g (bs ! k)])"
proof (induction bs arbitrary: n k)
  case (Cons b bs)
  have b: "bb_id b = of_nat n" using Cons.prems(1) by force
  show ?case
  proof (cases k)
    case 0
    with b show ?thesis by simp
  next
    case (Suc m)
    have "(of_nat n :: u32) \<noteq> of_nat (n + k)"
      using Cons.prems(2,3) Suc of_nat_u32_inject [of n "n + k"] by simp
    moreover have "\<forall>j < length bs. bb_id (bs ! j) = of_nat (Suc n + j)"
      using Cons.prems(1) by force
    ultimately show ?thesis
      using Cons.IH [of "Suc n" m] Cons.prems(2,3) b Suc by simp
  qed
qed simp

lemma numbered_lookup:
  assumes "numbered cfg" "k < length (cfg_blocks cfg)"
  shows "block_by_id cfg (of_nat k) = Some (cfg_blocks cfg ! k)"
    "update_block cfg (of_nat k) g = Some (cfg\<lparr>cfg_blocks := (cfg_blocks cfg)[k := g (cfg_blocks cfg ! k)]\<rparr>)"
  using find_block_nth [of "cfg_blocks cfg" 0 k g] assms numbered_nth [OF assms(1)]
  by (simp_all add: block_by_id_def update_block_def numbered_def)

lemma numbered_update:
  assumes "numbered cfg" "\<And>b. bb_id (g b) = bb_id b"
  shows "numbered (cfg\<lparr>cfg_blocks := (cfg_blocks cfg)[k := g (cfg_blocks cfg ! k)]\<rparr>)"
proof (cases "k < length (cfg_blocks cfg)")
  case True
  have "map bb_id ((cfg_blocks cfg)[k := g (cfg_blocks cfg ! k)]) = map bb_id (cfg_blocks cfg)"
    using True assms(2) by (intro nth_equalityI) (auto simp: nth_list_update)
  with assms(1) show ?thesis by (simp add: numbered_def)
next
  case False
  with assms(1) show ?thesis by (simp add: list_update_beyond)
qed

text \<open>While the block counter does not wrap, adding a block keeps the numbering,
  gives the new block the next number, and leaves every other block where it is found.\<close>

theorem add_block_lookup:
  assumes "numbered cfg" "length (cfg_blocks cfg) + 1 < 2 ^ 32" "add_block cfg lbl = (i, cfg')"
  shows "numbered cfg'
    \<and> map_option bb_label (block_by_id cfg' i) = Some (if lbl = [] then ''bb'' @ to_string (unat i) else lbl)
    \<and> (\<forall>j. j \<noteq> i \<longrightarrow> block_by_id cfg' j = block_by_id cfg j)"
proof -
  let ?n = "length (cfg_blocks cfg)"
  have n: "numbered cfg'" "i = of_nat ?n" using numbered_add_block [OF assms] by auto
  have bs: "cfg_blocks cfg' = cfg_blocks cfg @ [\<lparr>bb_id = i, bb_label = (if lbl = [] then ''bb'' @ to_string (unat i) else lbl),
      bb_phis = [], bb_instrs = [], bb_term = default_term\<rparr>]"
    using assms(3) by (auto simp: add_block_def Let_def)
  have "block_by_id cfg' i = Some (cfg_blocks cfg' ! ?n)"
    using numbered_lookup(1) [OF n(1), of ?n] n(2) bs by simp
  moreover have "find_block j (xs @ [b]) = find_block j xs" if "j \<noteq> bb_id b" for j xs b
    using that by (induction xs) auto
  ultimately show ?thesis using n(1) by (simp add: bs block_by_id_def)
qed

theorem add_block_lookup_witness:
  "let (i, cfg) = add_block (new_cfg ''f'') ''entry''; (j, cfg') = add_block cfg ''''
   in map_option bb_label (block_by_id cfg' j) = Some ''bb1'' \<and> map_option bb_label (block_by_id cfg' i) = Some ''entry''"
proof -
  obtain i cfg where a: "add_block (new_cfg ''f'') ''entry'' = (i, cfg)" by force
  obtain j cfg' where b: "add_block cfg '''' = (j, cfg')" by force
  have ok: "numbered cfg" "length (cfg_blocks cfg) = 1" "i = 0"
    using a numbered_add_block [OF numbered_new _ a] by (auto simp: new_cfg_def add_block_def Let_def)
  have j: "j = 1" using b ok a by (auto simp: add_block_def new_cfg_def Let_def)
  have "to_string (Suc 0) = ''1''" by (subst show_base.simps) (simp add: digit_char_def)
  with add_block_lookup [OF ok(1) _ b] ok(2,3) j
  have "map_option bb_label (block_by_id cfg' j) = Some ''bb1''" "block_by_id cfg' i = block_by_id cfg i"
    by auto
  moreover have "map_option bb_label (block_by_id cfg i) = Some ''entry''"
    using add_block_lookup [OF numbered_new _ a] by (simp add: new_cfg_def)
  ultimately show ?thesis using a b by simp
qed

end
