(* ===== verification/CFG_Recovery.thy ===== *)
theory CFG_Recovery
  imports CFG
begin

section \<open>Multi-path CFG recovery (include/deobf/cfg_recovery.h, src/eval/cfg_recovery.cpp)\<close>

text \<open>
  The worklist over virtual program counters. The segment oracle is a
  \<^verbatim>\<open>std::function\<close> the caller provides: here it is an argument, a function that threads a
  state of its own (the callers' oracles allocate ids) and may have no defined result.
\<close>

type_synonym VMState = "(string \<times> Value) list"

definition vm_find :: "VMState \<Rightarrow> string \<Rightarrow> Value option" where
  "vm_find st n = map_of st n"

datatype SegmentKind = Seg_Ret | Seg_Goto | Seg_Branch | Seg_Unresolved

record SegmentResult =
  seg_kind :: SegmentKind
  seg_instrs :: "Instruction list"
  ret_value :: "Value option"
  next_vpc :: "u64 option"
  out_state :: VMState
  seg_condition :: "Value option"
  vpc_taken :: "u64 option"
  vpc_not_taken :: "u64 option"
  out_state_taken :: VMState
  out_state_not_taken :: VMState

definition default_segment :: SegmentResult where
  "default_segment =
     \<lparr>seg_kind = Seg_Unresolved, seg_instrs = [], ret_value = None, next_vpc = None, out_state = [],
      seg_condition = None, vpc_taken = None, vpc_not_taken = None,
      out_state_taken = [], out_state_not_taken = []\<rparr>"

type_synonym 's segment_oracle = "'s \<Rightarrow> u64 \<Rightarrow> VMState \<Rightarrow> (SegmentResult \<times> 's) option"

record CFGRecoveryConfig =
  entry_vpc :: u64
  max_blocks :: int
  tracked_regs :: "string list"
  full_ssa :: bool

definition vpc_label :: "u64 \<Rightarrow> string" where
  "vpc_label vpc = ''vpc_0x'' @ to_hex (unat vpc)"

type_synonym Incoming = "u32 \<times> VMState"

record rec_state =
  r_cfg :: CFGFunction
  vpc_to_block :: "u64 \<rightharpoonup> u32"
  incoming :: "(u32 \<times> Incoming list) list"
  worklist :: "u64 list"
  enqueued :: "u64 set"
  processed :: "u64 set"

definition max_result_id :: "CFGFunction \<Rightarrow> u32" where
  "max_result_id cfg =
     foldl (\<lambda>m b. foldl (\<lambda>m p. max m (phi_id p))
        (foldl (\<lambda>m i. max m (result_id i)) m (bb_instrs b)) (bb_phis b)) 0 (cfg_blocks cfg)"

definition apply_subst :: "(string \<times> Value) list \<Rightarrow> Value \<Rightarrow> Value" where
  "apply_subst subst v =
     (case get_symreg v of
        Some n \<Rightarrow> (case map_of subst n of Some w \<Rightarrow> w | None \<Rightarrow> v)
      | None \<Rightarrow> v)"

text \<open>The \<^verbatim>\<open>while\<close> loop of \<open>resolve_subst\<close>, with its guard \<open>seen\<close>.\<close>

function chase_subst :: "(string \<times> Value) list \<Rightarrow> string set \<Rightarrow> Value \<Rightarrow> Value" where
  "chase_subst subst seen cur =
     (case get_symreg cur of
        None \<Rightarrow> cur
      | Some n \<Rightarrow>
          (case map_of subst n of
             None \<Rightarrow> cur
           | Some w \<Rightarrow> if n \<in> seen then cur else chase_subst subst (insert n seen) w))"
  by pat_completeness auto
termination
proof (relation "measure (\<lambda>(subst, seen, cur). card (fst ` set subst - seen))", goal_cases)
  case (2 subst seen cur n w)
  then have "n \<in> fst ` set subst - seen" by (force dest: map_of_SomeD)
  then have "fst ` set subst - insert n seen \<subset> fst ` set subst - seen" by blast
  then show ?case by (auto intro: psubset_card_mono)
qed simp

declare chase_subst.simps [simp del]

definition resolve_subst :: "(string \<times> Value) list \<Rightarrow> (string \<times> Value) list" where
  "resolve_subst subst =
     foldl (\<lambda>m n. case map_of m n of Some v \<Rightarrow> AList.update n (chase_subst m {} v) m | None \<Rightarrow> m)
       subst (map fst subst)"

subsection \<open>The worklist loop\<close>

definition get_block :: "u64 \<Rightarrow> rec_state \<Rightarrow> u32 \<times> rec_state" where
  "get_block vpc st =
     (case vpc_to_block st vpc of
        Some b \<Rightarrow> (b, st)
      | None \<Rightarrow>
          (let (b, cfg) = add_block (r_cfg st) (vpc_label vpc)
           in (b, st\<lparr>r_cfg := cfg, vpc_to_block := (vpc_to_block st)(vpc \<mapsto> b)\<rparr>)))"

definition enqueue :: "u64 \<Rightarrow> rec_state \<Rightarrow> rec_state" where
  "enqueue vpc st =
     (if vpc \<in> enqueued st then st
      else st\<lparr>enqueued := insert vpc (enqueued st), worklist := worklist st @ [vpc]\<rparr>)"

definition link :: "u32 \<Rightarrow> u32 \<Rightarrow> bool \<Rightarrow> rec_state \<Rightarrow> rec_state" where
  "link from to back st = st\<lparr>r_cfg := add_edge (r_cfg st) from to back\<rparr>"

definition incoming_of :: "rec_state \<Rightarrow> u32 \<Rightarrow> Incoming list" where
  "incoming_of st b = (case map_of (incoming st) b of Some is \<Rightarrow> is | None \<Rightarrow> [])"

definition push_incoming :: "u32 \<Rightarrow> Incoming \<Rightarrow> rec_state \<Rightarrow> rec_state" where
  "push_incoming b inc st =
     st\<lparr>incoming := AList.update b (incoming_of st b @ [inc]) (incoming st)\<rparr>"

definition entry_symbol :: "string \<Rightarrow> u32 \<Rightarrow> string" where
  "entry_symbol r b = r @ ''@bb'' @ to_string (unat b)"

definition drive_state :: "CFGRecoveryConfig \<Rightarrow> VMState \<Rightarrow> u32 \<Rightarrow> u32 \<Rightarrow> rec_state \<Rightarrow> VMState" where
  "drive_state config initial_state entry_id bid st =
     (if full_ssa config \<and> tracked_regs config \<noteq> [] then
        foldl (\<lambda>m r. AList.update r (SymReg (entry_symbol r bid)) m) [] (tracked_regs config)
      else (case incoming_of st bid of
              inc # _ \<Rightarrow> snd inc
            | [] \<Rightarrow> if bid = entry_id then initial_state else []))"

text \<open>The \<^verbatim>\<open>switch\<close> on how the segment ended.\<close>

definition make_term :: "u32 \<Rightarrow> SegmentResult \<Rightarrow> rec_state \<Rightarrow> Terminator \<times> rec_state" where
  "make_term bid res st =
     (case seg_kind res of
        Seg_Ret \<Rightarrow>
          (default_term\<lparr>term_kind := Term_RET, term_condition := ret_value res\<rparr>, st)
      | Seg_Goto \<Rightarrow>
          (case next_vpc res of
             None \<Rightarrow> (default_term, st)
           | Some v \<Rightarrow>
               (let back = v \<in> processed st;
                    (s, st) = get_block v st;
                    st = link bid s back st;
                    st = push_incoming s (bid, out_state res) st
                in (default_term\<lparr>term_kind := Term_JMP, term_target := Some s\<rparr>, enqueue v st)))
      | Seg_Branch \<Rightarrow>
          (case (vpc_taken res, vpc_not_taken res) of
             (Some vt, Some vf) \<Rightarrow>
               (let tback = vt \<in> processed st;
                    fback = vf \<in> processed st;
                    (t, st) = get_block vt st;
                    (f, st) = get_block vf st;
                    st = link bid t tback st;
                    st = link bid f fback st;
                    st = push_incoming t (bid, out_state_taken res) st;
                    st = push_incoming f (bid, out_state_not_taken res) st
                in (default_term\<lparr>term_kind := Term_CJMP, term_condition := seg_condition res,
                                 term_target := Some t, term_fallthrough := Some f\<rparr>,
                    enqueue vf (enqueue vt st)))
           | _ \<Rightarrow> (default_term, st))
      | Seg_Unresolved \<Rightarrow> (default_term, st))"

text \<open>\<^verbatim>\<open>vpc_to_block[vpc]\<close> inserts 0 for a key that is not there.\<close>

definition index_block :: "u64 \<Rightarrow> rec_state \<Rightarrow> u32 \<times> rec_state" where
  "index_block vpc st =
     (case vpc_to_block st vpc of
        Some b \<Rightarrow> (b, st)
      | None \<Rightarrow> (0, st\<lparr>vpc_to_block := (vpc_to_block st)(vpc \<mapsto> 0)\<rparr>))"

definition process_block ::
  "'s segment_oracle \<Rightarrow> CFGRecoveryConfig \<Rightarrow> VMState \<Rightarrow> u32 \<Rightarrow> u64 \<Rightarrow> rec_state \<Rightarrow> 's \<Rightarrow> (rec_state \<times> 's) option" where
  "process_block oracle config initial_state entry_id vpc st s =
     (let st = st\<lparr>processed := insert vpc (processed st)\<rparr>;
          (bid, st) = index_block vpc st
      in do { (res, s') \<leftarrow> oracle s vpc (drive_state config initial_state entry_id bid st);
              let (term, st') = make_term bid res st;
              cfg \<leftarrow> update_block (r_cfg st') bid (\<lambda>b. b\<lparr>bb_instrs := seg_instrs res, bb_term := term\<rparr>);
              Some (st'\<lparr>r_cfg := cfg\<rparr>, s') })"

definition recover_step ::
  "'s segment_oracle \<Rightarrow> CFGRecoveryConfig \<Rightarrow> VMState \<Rightarrow> u32 \<Rightarrow> rec_state \<Rightarrow> 's \<Rightarrow> (rec_state \<times> 's) option" where
  "recover_step oracle config initial_state entry_id st s =
     (let vpc = hd (worklist st); st = st\<lparr>worklist := tl (worklist st)\<rparr>
      in if vpc \<in> processed st then Some (st, s)
         else process_block oracle config initial_state entry_id vpc st s)"

definition running :: "CFGRecoveryConfig \<Rightarrow> rec_state \<Rightarrow> bool" where
  "running config st \<longleftrightarrow> worklist st \<noteq> [] \<and> int (length (cfg_blocks (r_cfg st))) \<le> max_blocks config"

text \<open>The loop ends: each round takes one address from the worklist, and an address is
  enqueued at most once.\<close>

definition pending :: "rec_state \<Rightarrow> nat" where
  "pending st = card (- enqueued st) + length (worklist st)"

lemma get_block_frame [frame_simps]:
  "get_block v st = (b, st') \<Longrightarrow> worklist st' = worklist st \<and> enqueued st' = enqueued st
     \<and> processed st' = processed st \<and> incoming st' = incoming st \<and> cfg_edges (r_cfg st') = cfg_edges (r_cfg st)"
  by (auto simp: get_block_def add_block_def Let_def split: option.splits prod.splits)

lemma link_frame [simp]:
  "worklist (link a b c st) = worklist st" "enqueued (link a b c st) = enqueued st"
  "processed (link a b c st) = processed st" "incoming (link a b c st) = incoming st"
  "vpc_to_block (link a b c st) = vpc_to_block st"
  "cfg_blocks (r_cfg (link a b c st)) = cfg_blocks (r_cfg st)"
  "next_block_id (r_cfg (link a b c st)) = next_block_id (r_cfg st)"
  "entry_block (r_cfg (link a b c st)) = entry_block (r_cfg st)"
  by (simp_all add: link_def add_edge_def)

lemma push_incoming_frame [simp]:
  "worklist (push_incoming b i st) = worklist st" "enqueued (push_incoming b i st) = enqueued st"
  "processed (push_incoming b i st) = processed st" "vpc_to_block (push_incoming b i st) = vpc_to_block st"
  "r_cfg (push_incoming b i st) = r_cfg st"
  by (simp_all add: push_incoming_def)

lemma enqueue_frame [simp]:
  "processed (enqueue v st) = processed st" "vpc_to_block (enqueue v st) = vpc_to_block st"
  "r_cfg (enqueue v st) = r_cfg st" "incoming (enqueue v st) = incoming st"
  "enqueued (enqueue v st) = insert v (enqueued st)"
  by (auto simp: enqueue_def)

lemma pending_enqueue [simp]: "pending (enqueue v st) = pending st"
proof (cases "v \<in> enqueued st")
  case False
  then have "card (- enqueued st) = Suc (card (- insert v (enqueued st)))"
    by (subst card.insert [symmetric]) (auto intro: arg_cong [of _ _ card])
  with False show ?thesis by (simp add: pending_def enqueue_def)
qed (simp add: enqueue_def insert_absorb)

lemma pending_cong: "worklist st' = worklist st \<Longrightarrow> enqueued st' = enqueued st \<Longrightarrow> pending st' = pending st"
  by (simp add: pending_def)

lemma pending_frame [simp]:
  "pending (link a b c st) = pending st" "pending (push_incoming x i st) = pending st"
  by (simp_all add: pending_def)

lemma get_block_pending: "get_block v st = (b, st') \<Longrightarrow> pending st' = pending st"
  using get_block_frame [of v st b st'] by (simp add: pending_def)

lemma make_term_pending: "make_term bid res st = (t, st') \<Longrightarrow> pending st' = pending st"
  by (auto simp: make_term_def Let_def split: SegmentKind.splits option.splits prod.splits
      dest!: get_block_pending)

lemma recover_step_pending:
  assumes "recover_step oracle config i e st s = Some (st', s')" "worklist st \<noteq> []"
  shows "pending st' < pending st"
proof -
  have "pending (st\<lparr>worklist := tl (worklist st)\<rparr>) < pending st"
    using assms(2) by (cases "worklist st") (simp_all add: pending_def)
  moreover have "pending st' = pending st1"
    if "process_block oracle config i e vpc st1 s = Some (st', s')" for vpc st1
  proof -
    from that obtain res t st2 cfg where
      "make_term (fst (index_block vpc (st1\<lparr>processed := insert vpc (processed st1)\<rparr>))) res
         (snd (index_block vpc (st1\<lparr>processed := insert vpc (processed st1)\<rparr>))) = (t, st2)"
      "st' = st2\<lparr>r_cfg := cfg\<rparr>"
      by (auto simp: process_block_def Let_def split: prod.splits elim!: bind_SomeE)
    from make_term_pending [OF this(1)] this(2) show ?thesis
      by (simp add: pending_def index_block_def split: option.splits)
  qed
  ultimately show ?thesis
    using assms(1) by (fastforce simp: recover_step_def Let_def split: if_splits)
qed

function recover_loop ::
  "'s segment_oracle \<Rightarrow> CFGRecoveryConfig \<Rightarrow> VMState \<Rightarrow> u32 \<Rightarrow> rec_state \<Rightarrow> 's \<Rightarrow> (rec_state \<times> 's) option" where
  "recover_loop oracle config initial_state entry_id st s =
     (if running config st then
        do { (st', s') \<leftarrow> recover_step oracle config initial_state entry_id st s;
             recover_loop oracle config initial_state entry_id st' s' }
      else Some (st, s))"
  by pat_completeness auto
termination
  by (relation "measure (\<lambda>(oracle, config, i, e, st, s). pending st)")
    (auto simp: running_def intro: recover_step_pending)

declare recover_loop.simps [simp del]

subsection \<open>Phi construction\<close>

definition tracked_names :: "CFGRecoveryConfig \<Rightarrow> rec_state \<Rightarrow> string list" where
  "tracked_names config st =
     (if tracked_regs config = []
      then sort (remdups (concat (map (\<lambda>(b, incs). concat (map (\<lambda>inc. map fst (snd inc)) incs)) (incoming st))))
      else tracked_regs config)"

text \<open>The pairs of one register; \<open>None\<close> when some predecessor does not define it.\<close>

fun phi_pairs :: "Incoming list \<Rightarrow> string \<Rightarrow> (u32 \<times> Value) list option" where
  "phi_pairs [] reg = Some []"
| "phi_pairs (inc # incs) reg =
     (case vm_find (snd inc) reg of
        None \<Rightarrow> None
      | Some v \<Rightarrow> map_option ((#) (fst inc, v)) (phi_pairs incs reg))"

definition needs_phi :: "(u32 \<times> Value) list option \<Rightarrow> bool" where
  "needs_phi pairs =
     (case pairs of
        None \<Rightarrow> False
      | Some ps \<Rightarrow> length ps \<ge> 2 \<and> \<not> list_all (\<lambda>p. snd p = snd (ps ! 0)) ps)"

fun block_phis :: "Incoming list \<Rightarrow> string list \<Rightarrow> u32 \<Rightarrow> PhiNode list \<times> u32" where
  "block_phis incs [] nid = ([], nid)"
| "block_phis incs (reg # regs) nid =
     (let pairs = phi_pairs incs reg
      in if needs_phi pairs
         then (let (phis, nid') = block_phis incs regs (nid + 1)
               in (\<lparr>phi_id = nid, phi_reg = reg, phi_incoming = the pairs\<rparr> # phis, nid'))
         else block_phis incs regs nid)"

fun add_phis :: "rec_state \<Rightarrow> string list \<Rightarrow> BasicBlock list \<Rightarrow> u32 \<Rightarrow> BasicBlock list" where
  "add_phis st tracked [] nid = []"
| "add_phis st tracked (b # bs) nid =
     (let incs = incoming_of st (bb_id b)
      in if length incs < 2 then b # add_phis st tracked bs nid
         else (let (phis, nid') = block_phis incs tracked nid
               in b\<lparr>bb_phis := bb_phis b @ phis\<rparr> # add_phis st tracked bs nid'))"

subsection \<open>The full-SSA rewrite\<close>

definition entry_value :: "rec_state \<Rightarrow> VMState \<Rightarrow> u32 \<Rightarrow> BasicBlock \<Rightarrow> string \<Rightarrow> Value" where
  "entry_value st initial_state entry_id b r =
     (case List.find (\<lambda>p. phi_reg p = r) (bb_phis b) of
        Some p \<Rightarrow> InstrRef (phi_id p)
      | None \<Rightarrow>
          (case (if bb_id b = entry_id then vm_find initial_state r
                 else (case incoming_of st (bb_id b) of inc # _ \<Rightarrow> vm_find (snd inc) r | [] \<Rightarrow> None)) of
             Some v \<Rightarrow> v
           | None \<Rightarrow> SymReg r))"

definition build_subst ::
  "rec_state \<Rightarrow> CFGRecoveryConfig \<Rightarrow> VMState \<Rightarrow> u32 \<Rightarrow> BasicBlock list \<Rightarrow> (string \<times> Value) list" where
  "build_subst st config initial_state entry_id bs =
     foldl (\<lambda>m b. foldl (\<lambda>m r. AList.update (entry_symbol r (bb_id b)) (entry_value st initial_state entry_id b r) m)
        m (tracked_regs config)) [] bs"

definition rewrite_block :: "(string \<times> Value) list \<Rightarrow> BasicBlock \<Rightarrow> BasicBlock" where
  "rewrite_block subst b =
     b\<lparr>bb_instrs := map (\<lambda>i. i\<lparr>operands := map (apply_subst subst) (operands i)\<rparr>) (bb_instrs b),
       bb_phis := map (\<lambda>p. p\<lparr>phi_incoming := map (\<lambda>(k, v). (k, apply_subst subst v)) (phi_incoming p)\<rparr>) (bb_phis b),
       bb_term := (bb_term b)\<lparr>term_condition := map_option (apply_subst subst) (term_condition (bb_term b))\<rparr>\<rparr>"

definition initial_rec_state :: "u64 \<Rightarrow> u32 \<times> rec_state" where
  "initial_rec_state entry =
     (let (entry_id, st) = get_block entry
            \<lparr>r_cfg = new_cfg ''devirt'', vpc_to_block = Map.empty, incoming = [],
             worklist = [], enqueued = {}, processed = {}\<rparr>
      in (entry_id, st\<lparr>r_cfg := (r_cfg st)\<lparr>entry_block := entry_id\<rparr>,
                       worklist := [entry], enqueued := {entry}\<rparr>))"

definition finish_cfg :: "CFGRecoveryConfig \<Rightarrow> VMState \<Rightarrow> u32 \<Rightarrow> rec_state \<Rightarrow> CFGFunction" where
  "finish_cfg config initial_state entry_id st =
     (let cfg = r_cfg st;
          bs = add_phis st (tracked_names config st) (cfg_blocks cfg) (max_result_id cfg + 1)
      in if full_ssa config \<and> tracked_regs config \<noteq> []
         then (let subst = resolve_subst (build_subst st config initial_state entry_id bs)
               in cfg\<lparr>cfg_blocks := map (rewrite_block subst) bs\<rparr>)
         else cfg\<lparr>cfg_blocks := bs\<rparr>)"

definition recover :: "'s segment_oracle \<Rightarrow> CFGRecoveryConfig \<Rightarrow> VMState \<Rightarrow> 's \<Rightarrow> (CFGFunction \<times> 's) option" where
  "recover oracle config initial_state s =
     (let (entry_id, st) = initial_rec_state (entry_vpc config)
      in do { (st', s') \<leftarrow> recover_loop oracle config initial_state entry_id st s;
              Some (finish_cfg config initial_state entry_id st', s') })"

subsection \<open>The block table\<close>

text \<open>
  \<open>vs\<close> lists the addresses of the blocks in order of creation: block \<open>k\<close> is the block of
  address \<open>vs ! k\<close>.
\<close>

definition vpc_index :: "u64 list \<Rightarrow> u64 \<Rightarrow> nat" where
  "vpc_index vs v = length (takeWhile (\<lambda>x. x \<noteq> v) vs)"

definition vpc_id :: "u64 list \<Rightarrow> u64 \<Rightarrow> u32" where
  "vpc_id vs v = of_nat (vpc_index vs v)"

definition add_vpc :: "u64 \<Rightarrow> u64 list \<Rightarrow> u64 list" where
  "add_vpc v vs = (if v \<in> set vs then vs else vs @ [v])"

definition table_inv :: "u64 list \<Rightarrow> rec_state \<Rightarrow> bool" where
  "table_inv vs st \<longleftrightarrow>
     numbered (r_cfg st) \<and> distinct vs \<and> length vs = length (cfg_blocks (r_cfg st))
     \<and> map bb_label (cfg_blocks (r_cfg st)) = map vpc_label vs
     \<and> (\<forall>b \<in> set (cfg_blocks (r_cfg st)). bb_phis b = [])
     \<and> (\<forall>v. vpc_to_block st v = (if v \<in> set vs then Some (vpc_id vs v) else None))"

lemma vpc_index_less: "v \<in> set vs \<Longrightarrow> vpc_index vs v < length vs"
  by (induction vs) (auto simp: vpc_index_def)

lemma nth_vpc_index: "v \<in> set vs \<Longrightarrow> vs ! vpc_index vs v = v"
  by (induction vs) (auto simp: vpc_index_def)

lemma vpc_index_append: "v \<in> set vs \<Longrightarrow> vpc_index (vs @ ws) v = vpc_index vs v"
  by (simp add: vpc_index_def takeWhile_append1)

lemma vpc_index_nth: "distinct vs \<Longrightarrow> k < length vs \<Longrightarrow> vpc_index vs (vs ! k) = k"
  by (metis nth_vpc_index vpc_index_less nth_eq_iff_index_eq nth_mem)

lemma vpc_index_snoc: "v \<notin> set vs \<Longrightarrow> vpc_index (vs @ [v]) v = length vs"
  by (induction vs) (auto simp: vpc_index_def)

lemma add_vpc_facts:
  "set (add_vpc v vs) = insert v (set vs)" "length vs \<le> length (add_vpc v vs)"
  "length (add_vpc v vs) \<le> length vs + 1" "distinct vs \<Longrightarrow> distinct (add_vpc v vs)"
  "w \<in> set vs \<Longrightarrow> vpc_index (add_vpc v vs) w = vpc_index vs w"
  "k < length vs \<Longrightarrow> add_vpc v vs ! k = vs ! k" "take (length vs) (add_vpc v vs) = vs"
  by (auto simp: add_vpc_def vpc_index_append nth_append)

definition fresh_block :: "u64 \<Rightarrow> nat \<Rightarrow> BasicBlock" where
  "fresh_block v k = \<lparr>bb_id = of_nat k, bb_label = vpc_label v, bb_phis = [], bb_instrs = [], bb_term = default_term\<rparr>"

text \<open>What \<open>get_block\<close> does to the table, in terms of \<open>add_vpc\<close>.\<close>

lemma get_block_table:
  assumes "table_inv vs st" "length vs + 1 < 2 ^ 32" "get_block v st = (b, st')"
  shows "table_inv (add_vpc v vs) st' \<and> b = vpc_id (add_vpc v vs) v
    \<and> cfg_blocks (r_cfg st') = cfg_blocks (r_cfg st) @ (if v \<in> set vs then [] else [fresh_block v (length vs)])
    \<and> entry_block (r_cfg st') = entry_block (r_cfg st)"
proof (cases "v \<in> set vs")
  case True
  with assms show ?thesis by (auto simp: get_block_def table_inv_def add_vpc_def)
next
  case False
  with assms have "get_block v st =
      (let (b, cfg) = add_block (r_cfg st) (vpc_label v)
       in (b, st\<lparr>r_cfg := cfg, vpc_to_block := (vpc_to_block st)(v \<mapsto> b)\<rparr>))"
    by (simp add: get_block_def table_inv_def)
  with assms(3) obtain cfg where cfg: "add_block (r_cfg st) (vpc_label v) = (b, cfg)"
    "st' = st\<lparr>r_cfg := cfg, vpc_to_block := (vpc_to_block st)(v \<mapsto> b)\<rparr>"
    by (auto split: prod.splits)
  have len: "length (cfg_blocks (r_cfg st)) = length vs" using assms(1) by (simp add: table_inv_def)
  from numbered_add_block [OF _ _ cfg(1)] assms(1,2) len
  have n: "numbered cfg" "b = of_nat (length vs)" by (auto simp: table_inv_def)
  have bs: "cfg_blocks cfg = cfg_blocks (r_cfg st) @ [fresh_block v (length vs)]"
    "entry_block cfg = entry_block (r_cfg st)"
    using cfg(1) n(2) by (auto simp: add_block_def Let_def fresh_block_def vpc_label_def)
  have "vpc_id (vs @ [v]) w = vpc_id vs w" if "w \<in> set vs" for w
    using that by (simp add: vpc_id_def vpc_index_append)
  moreover have "vpc_id (vs @ [v]) v = b" using False n(2) by (simp add: vpc_id_def vpc_index_snoc)
  ultimately show ?thesis
    using assms(1) False n cfg(2) bs by (auto simp: table_inv_def add_vpc_def fresh_block_def)
qed

subsection \<open>One round as a breadth-first step\<close>

definition seg_targets :: "SegmentResult \<Rightarrow> (u64 \<times> VMState) list" where
  "seg_targets res =
     (case seg_kind res of
        Seg_Goto \<Rightarrow> (case next_vpc res of Some v \<Rightarrow> [(v, out_state res)] | None \<Rightarrow> [])
      | Seg_Branch \<Rightarrow>
          (case (vpc_taken res, vpc_not_taken res) of
             (Some t, Some f) \<Rightarrow> [(t, out_state_taken res), (f, out_state_not_taken res)]
           | _ \<Rightarrow> [])
      | _ \<Rightarrow> [])"

definition seg_term :: "u64 list \<Rightarrow> SegmentResult \<Rightarrow> Terminator" where
  "seg_term vs res =
     (case (seg_kind res, map fst (seg_targets res)) of
        (Seg_Ret, _) \<Rightarrow> default_term\<lparr>term_kind := Term_RET, term_condition := ret_value res\<rparr>
      | (Seg_Goto, [v]) \<Rightarrow> default_term\<lparr>term_kind := Term_JMP, term_target := Some (vpc_id vs v)\<rparr>
      | (Seg_Branch, [t, f]) \<Rightarrow>
          default_term\<lparr>term_kind := Term_CJMP, term_condition := seg_condition res,
                       term_target := Some (vpc_id vs t), term_fallthrough := Some (vpc_id vs f)\<rparr>
      | _ \<Rightarrow> default_term)"

definition add_vpcs :: "u64 list \<Rightarrow> SegmentResult \<Rightarrow> u64 list" where
  "add_vpcs vs res = fold (\<lambda>p. add_vpc (fst p)) (seg_targets res) vs"

definition new_edges :: "u64 list \<Rightarrow> u32 \<Rightarrow> u64 set \<Rightarrow> SegmentResult \<Rightarrow> Edge list" where
  "new_edges vs bid done res =
     map (\<lambda>p. \<lparr>edge_from = bid, edge_to = vpc_id vs (fst p), is_backedge = fst p \<in> done\<rparr>) (seg_targets res)"

definition new_incoming :: "u64 list \<Rightarrow> u32 \<Rightarrow> SegmentResult \<Rightarrow> u32 \<Rightarrow> Incoming list" where
  "new_incoming vs bid res b =
     map (\<lambda>p. (bid, snd p)) (filter (\<lambda>p. vpc_id vs (fst p) = b) (seg_targets res))"

definition fresh_blocks :: "u64 list \<Rightarrow> u64 list \<Rightarrow> BasicBlock list" where
  "fresh_blocks vs vs' = map (\<lambda>k. fresh_block (vs' ! k) k) [length vs..<length vs']"

lemma fold_add_vpc:
  "set (fold (\<lambda>p. add_vpc (fst p)) ps vs) = set vs \<union> fst ` set ps
   \<and> length (fold (\<lambda>p. add_vpc (fst p)) ps vs) \<le> length vs + length ps
   \<and> (\<exists>ws. fold (\<lambda>p. add_vpc (fst p)) ps vs = vs @ ws)
   \<and> (distinct vs \<longrightarrow> distinct (fold (\<lambda>p. add_vpc (fst p)) ps vs))"
proof (induction ps arbitrary: vs)
  case (Cons p ps)
  from Cons [of "add_vpc (fst p) vs"] show ?case
    by (auto simp: add_vpc_def)
qed simp

lemma seg_targets_length: "length (seg_targets res) \<le> 2"
  by (auto simp: seg_targets_def split: SegmentKind.splits option.splits)

lemma add_vpcs_facts:
  "set (add_vpcs vs res) = set vs \<union> fst ` set (seg_targets res)"
  "length (add_vpcs vs res) \<le> length vs + 2"
  "\<exists>ws. add_vpcs vs res = vs @ ws"
  "distinct vs \<Longrightarrow> distinct (add_vpcs vs res)"
  using fold_add_vpc [of "seg_targets res" vs] seg_targets_length [of res]
  unfolding add_vpcs_def by (simp_all only:) (linarith | blast)+

lemma incoming_of_push:
  "incoming_of (push_incoming c inc st) b = incoming_of st b @ (if c = b then [inc] else [])"
  by (simp add: incoming_of_def push_incoming_def map_of_update)

lemma incoming_of_frame [simp]:
  "incoming_of (link a b c st) x = incoming_of st x" "incoming_of (enqueue v st) x = incoming_of st x"
  by (simp_all add: incoming_of_def)

lemma get_block_incoming: "get_block v st = (b, st') \<Longrightarrow> incoming_of st' x = incoming_of st x"
  using get_block_frame [of v st b st'] by (simp add: incoming_of_def)

lemma table_inv_frame [simp]:
  "table_inv vs (link a b c st) = table_inv vs st"
  "table_inv vs (push_incoming x i st) = table_inv vs st"
  "table_inv vs (enqueue v st) = table_inv vs st"
  by (simp_all add: table_inv_def numbered_def)

lemma link_edges [simp]:
  "cfg_edges (r_cfg (link a b c st)) = cfg_edges (r_cfg st) @ [\<lparr>edge_from = a, edge_to = b, is_backedge = c\<rparr>]"
  by (simp add: link_def add_edge_def)

lemma vpc_id_add: "v \<in> set vs \<Longrightarrow> vpc_id (add_vpc w vs) v = vpc_id vs v"
  by (simp add: vpc_id_def add_vpc_facts)

lemma enqueue_worklist: "worklist (enqueue v st) = (if v \<in> enqueued st then worklist st else worklist st @ [v])"
  by (simp add: enqueue_def)

definition term_spec :: "u64 list \<Rightarrow> u32 \<Rightarrow> SegmentResult \<Rightarrow> rec_state \<Rightarrow> rec_state \<Rightarrow> bool" where
  "term_spec vs bid res st st' \<longleftrightarrow>
     (let vs' = add_vpcs vs res
      in table_inv vs' st'
       \<and> cfg_blocks (r_cfg st') = cfg_blocks (r_cfg st) @ fresh_blocks vs vs'
       \<and> cfg_edges (r_cfg st') = cfg_edges (r_cfg st) @ new_edges vs' bid (processed st) res
       \<and> (\<forall>b. incoming_of st' b = incoming_of st b @ new_incoming vs' bid res b)
       \<and> processed st' = processed st \<and> enqueued st' = enqueued st \<union> fst ` set (seg_targets res)
       \<and> (enqueued st = set vs \<longrightarrow> worklist st' = worklist st @ drop (length vs) vs')
       \<and> entry_block (r_cfg st') = entry_block (r_cfg st))"

lemma make_term_goto:
  assumes inv: "table_inv vs st" "length vs + 2 < 2 ^ 32" and res: "seg_kind res = Seg_Goto" "next_vpc res = Some v"
    and "make_term bid res st = (t, st')"
  shows "t = seg_term (add_vpcs vs res) res \<and> term_spec vs bid res st st'"
proof -
  obtain s st1 where g: "get_block v st = (s, st1)" by force
  from get_block_table [OF inv(1) _ g] inv(2)
  have g': "table_inv (add_vpc v vs) st1" "s = vpc_id (add_vpc v vs) v"
    "cfg_blocks (r_cfg st1) = cfg_blocks (r_cfg st) @ (if v \<in> set vs then [] else [fresh_block v (length vs)])"
    "entry_block (r_cfg st1) = entry_block (r_cfg st)" by auto
  have st': "t = default_term\<lparr>term_kind := Term_JMP, term_target := Some s\<rparr>"
    "st' = enqueue v (push_incoming s (bid, out_state res) (link bid s (v \<in> processed st) st1))"
    using assms(5) res g by (auto simp: make_term_def Let_def)
  have tg: "seg_targets res = [(v, out_state res)]" "add_vpcs vs res = add_vpc v vs"
    using res by (simp_all add: seg_targets_def add_vpcs_def)
  show ?thesis
    unfolding term_spec_def Let_def tg st'(2)
    using get_block_frame [OF g] g' res tg(1) st'(1)
    by (simp add: seg_term_def new_edges_def new_incoming_def fresh_blocks_def incoming_of_push
        get_block_incoming [OF g] enqueue_worklist add_vpc_def)
qed

lemma make_term_branch:
  assumes inv: "table_inv vs st" "length vs + 2 < 2 ^ 32"
    and res: "seg_kind res = Seg_Branch" "vpc_taken res = Some vt" "vpc_not_taken res = Some vf"
    and "make_term bid res st = (t, st')"
  shows "t = seg_term (add_vpcs vs res) res \<and> term_spec vs bid res st st'"
proof -
  obtain a st1 where g1: "get_block vt st = (a, st1)" by force
  obtain b st2 where g2: "get_block vf st1 = (b, st2)" by force
  let ?v1 = "add_vpc vt vs" and ?v2 = "add_vpc vf (add_vpc vt vs)"
  from get_block_table [OF inv(1) _ g1] inv(2)
  have t1: "table_inv ?v1 st1" "a = vpc_id ?v1 vt"
    "cfg_blocks (r_cfg st1) = cfg_blocks (r_cfg st) @ (if vt \<in> set vs then [] else [fresh_block vt (length vs)])"
    "entry_block (r_cfg st1) = entry_block (r_cfg st)" by auto
  have "length ?v1 + 1 < 2 ^ 32" using add_vpc_facts(3) [of vt vs] inv(2) by linarith
  from get_block_table [OF t1(1) this g2]
  have t2: "table_inv ?v2 st2" "b = vpc_id ?v2 vf"
    "cfg_blocks (r_cfg st2) = cfg_blocks (r_cfg st1) @ (if vf \<in> set ?v1 then [] else [fresh_block vf (length ?v1)])"
    "entry_block (r_cfg st2) = entry_block (r_cfg st1)" by auto
  have a: "a = vpc_id ?v2 vt" using t1(2) by (simp add: vpc_id_add add_vpc_facts(1))
  have st': "t = default_term\<lparr>term_kind := Term_CJMP, term_condition := seg_condition res,
                              term_target := Some a, term_fallthrough := Some b\<rparr>"
    "st' = enqueue vf (enqueue vt (push_incoming b (bid, out_state_not_taken res) (push_incoming a (bid, out_state_taken res)
        (link bid b (vf \<in> processed st) (link bid a (vt \<in> processed st) st2)))))"
    using assms(6) res g1 g2 by (auto simp: make_term_def Let_def)
  have tg: "seg_targets res = [(vt, out_state_taken res), (vf, out_state_not_taken res)]" "add_vpcs vs res = ?v2"
    using res by (simp_all add: seg_targets_def add_vpcs_def)
  have bs: "cfg_blocks (r_cfg st2) = cfg_blocks (r_cfg st) @ fresh_blocks vs ?v2"
    unfolding t2(3) t1(3) by (auto simp: fresh_blocks_def add_vpc_def nth_append)
  have wl: "worklist (enqueue vf (enqueue vt st2)) = worklist st @ drop (length vs) ?v2" if "enqueued st = set vs"
    using that get_block_frame [OF g1] get_block_frame [OF g2]
    by (auto simp: enqueue_worklist add_vpc_def)
  have wl': "worklist (enqueue vf (enqueue vt (push_incoming x i (push_incoming y j (link p q c (link p' q' c' st2))))))
      = worklist (enqueue vf (enqueue vt st2))" for x i y j p q c p' q' c'
    by (simp add: enqueue_worklist)
  show ?thesis
    unfolding term_spec_def Let_def tg st'(2) wl'
    using get_block_frame [OF g1] get_block_frame [OF g2] t2(1,4) t1(4) a t2(2) res tg(1) st'(1) bs wl
    by (simp add: seg_term_def new_edges_def new_incoming_def incoming_of_push get_block_incoming [OF g1]
        get_block_incoming [OF g2] insert_commute)
qed

lemma make_term_spec:
  assumes inv: "table_inv vs st" "length vs + 2 < 2 ^ 32" and "make_term bid res st = (t, st')"
  shows "t = seg_term (add_vpcs vs res) res \<and> term_spec vs bid res st st'"
proof (cases "seg_targets res")
  case Nil
  then have "add_vpcs vs res = vs" by (simp add: add_vpcs_def)
  moreover have "st' = st" "t = seg_term vs res"
    using Nil assms(3)
    by (auto simp: make_term_def seg_targets_def seg_term_def Let_def
        split: SegmentKind.splits option.splits prod.splits)
  ultimately show ?thesis
    using inv Nil by (simp add: term_spec_def new_edges_def new_incoming_def fresh_blocks_def)
next
  case (Cons p ps)
  then consider v where "seg_kind res = Seg_Goto" "next_vpc res = Some v"
    | vt vf where "seg_kind res = Seg_Branch" "vpc_taken res = Some vt" "vpc_not_taken res = Some vf"
    by (auto simp: seg_targets_def split: SegmentKind.splits option.splits)
  then show ?thesis
    using make_term_goto [OF inv _ _ assms(3)] make_term_branch [OF inv _ _ _ assms(3)] by cases auto
qed

subsection \<open>The invariant of the loop\<close>

text \<open>
  Recovery is a breadth-first numbering: after \<open>p\<close> rounds the first \<open>p\<close> addresses of
  \<open>vs\<close> are processed and the rest is the worklist. A processed block holds what the oracle
  returned for its address on the state of its first incoming edge, and its edges are the
  targets of that segment, marked as back edges when the target was processed already.
\<close>

definition seg_input :: "CFGRecoveryConfig \<Rightarrow> VMState \<Rightarrow> nat \<Rightarrow> rec_state \<Rightarrow> VMState" where
  "seg_input config initial_state k st =
     (if full_ssa config \<and> tracked_regs config \<noteq> [] then
        foldl (\<lambda>m r. AList.update r (SymReg (entry_symbol r (of_nat k))) m) [] (tracked_regs config)
      else if k = 0 then initial_state else snd (hd (incoming_of st (of_nat k))))"

definition out_edges :: "rec_state \<Rightarrow> nat \<Rightarrow> Edge list" where
  "out_edges st k = filter (\<lambda>e. edge_from e = of_nat k) (cfg_edges (r_cfg st))"

definition done_block ::
  "'s segment_oracle \<Rightarrow> CFGRecoveryConfig \<Rightarrow> VMState \<Rightarrow> u64 list \<Rightarrow> rec_state \<Rightarrow> nat \<Rightarrow> bool" where
  "done_block oracle config initial_state vs st k \<longleftrightarrow>
     (\<exists>s res s'. oracle s (vs ! k) (seg_input config initial_state k st) = Some (res, s')
        \<and> fst ` set (seg_targets res) \<subseteq> set vs
        \<and> bb_instrs (cfg_blocks (r_cfg st) ! k) = seg_instrs res
        \<and> bb_term (cfg_blocks (r_cfg st) ! k) = seg_term vs res
        \<and> out_edges st k = new_edges vs (of_nat k) (set (take (Suc k) vs)) res)"

definition bfs_inv ::
  "'s segment_oracle \<Rightarrow> CFGRecoveryConfig \<Rightarrow> VMState \<Rightarrow> u64 list \<Rightarrow> nat \<Rightarrow> rec_state \<Rightarrow> bool" where
  "bfs_inv oracle config initial_state vs p st \<longleftrightarrow>
     table_inv vs st \<and> vs \<noteq> [] \<and> vs ! 0 = entry_vpc config \<and> entry_block (r_cfg st) = 0
     \<and> p \<le> length vs \<and> int (length vs) \<le> max 1 (max_blocks config + 2)
     \<and> worklist st = drop p vs \<and> processed st = set (take p vs) \<and> enqueued st = set vs
     \<and> (\<forall>k < p. done_block oracle config initial_state vs st k)
     \<and> (\<forall>k. p \<le> k \<and> k < length vs \<longrightarrow> cfg_blocks (r_cfg st) ! k = fresh_block (vs ! k) k)
     \<and> (\<forall>b. map fst (incoming_of st b) = predecessors (r_cfg st) b)
     \<and> (\<forall>e \<in> set (cfg_edges (r_cfg st)). \<exists>k < p. edge_from e = of_nat k)
     \<and> (\<forall>k. 0 < k \<and> k < length vs \<longrightarrow>
          (\<exists>e \<in> set (cfg_edges (r_cfg st)). edge_to e = of_nat k \<and> (\<exists>j < k. edge_from e = of_nat j)))"

lemma vpc_id_append: "v \<in> set vs \<Longrightarrow> vpc_id (vs @ ws) v = vpc_id vs v"
  by (simp add: vpc_id_def vpc_index_append)

lemma seg_term_append:
  "fst ` set (seg_targets res) \<subseteq> set vs \<Longrightarrow> seg_term (vs @ ws) res = seg_term vs res"
proof -
  assume "fst ` set (seg_targets res) \<subseteq> set vs"
  then have "list_all (\<lambda>p. vpc_id (vs @ ws) (fst p) = vpc_id vs (fst p)) (seg_targets res)"
    by (auto simp: list_all_iff vpc_id_append)
  then show ?thesis
    by (auto simp: seg_term_def seg_targets_def split: SegmentKind.splits option.splits)
qed

lemma new_edges_append:
  "fst ` set (seg_targets res) \<subseteq> set vs \<Longrightarrow> new_edges (vs @ ws) b d res = new_edges vs b d res"
  by (auto simp: new_edges_def vpc_id_append)

lemma incoming_grows:
  "incoming_of st b \<noteq> [] \<Longrightarrow> incoming_of st' b = incoming_of st b @ xs \<Longrightarrow>
   snd (hd (incoming_of st' b)) = snd (hd (incoming_of st b))"
  by simp

lemma seg_input_mono:
  assumes "\<And>b. \<exists>xs. incoming_of st' b = incoming_of st b @ xs" "k = 0 \<or> incoming_of st (of_nat k) \<noteq> []"
  shows "seg_input config i k st' = seg_input config i k st"
proof -
  obtain xs where "incoming_of st' (of_nat k) = incoming_of st (of_nat k) @ xs" using assms(1) by blast
  with assms(2) show ?thesis by (auto simp: seg_input_def)
qed

lemma bfs_incoming:
  assumes "bfs_inv oracle config i vs p st" "0 < k" "k < length vs"
  shows "incoming_of st (of_nat k) \<noteq> []"
proof -
  obtain e where "e \<in> set (cfg_edges (r_cfg st))" "edge_to e = of_nat k"
    using assms by (auto simp: bfs_inv_def)
  then have "predecessors (r_cfg st) (of_nat k) \<noteq> []"
    by (auto simp: predecessors_def filter_empty_conv)
  moreover have "map fst (incoming_of st (of_nat k)) = predecessors (r_cfg st) (of_nat k)"
    using assms(1) by (simp add: bfs_inv_def)
  ultimately show ?thesis by fastforce
qed

lemma bfs_incoming_entry:
  assumes "bfs_inv oracle config i vs 0 st"
  shows "incoming_of st b = []"
proof -
  have "cfg_edges (r_cfg st) = []" using assms by (auto simp: bfs_inv_def)
  then have "map fst (incoming_of st b) = []" using assms by (simp add: bfs_inv_def predecessors_def)
  then show ?thesis by simp
qed

text \<open>The state handed to the oracle is the one of the first incoming edge.\<close>

lemma drive_state_input:
  assumes "bfs_inv oracle config i vs p st" "p < length vs" "length vs < 2 ^ 32"
    and "\<And>b. incoming_of st1 b = incoming_of st b"
  shows "drive_state config i 0 (of_nat p) st1 = seg_input config i p st"
proof (cases "p = 0")
  case True
  then have "incoming_of st1 (of_nat p) = []" using bfs_incoming_entry assms(1,4) by metis
  with True show ?thesis by (simp add: drive_state_def seg_input_def)
next
  case False
  with bfs_incoming [OF assms(1) _ assms(2)] have ne: "incoming_of st (of_nat p) \<noteq> []" by simp
  have "(of_nat p :: u32) \<noteq> 0"
    using False of_nat_u32_inject [of p 0] assms(2,3) by simp
  then show ?thesis
    using False ne assms(4) by (cases "incoming_of st (of_nat p)") (simp_all add: drive_state_def seg_input_def)
qed

lemma done_block_mono:
  assumes d: "done_block oracle config i vs st k" and k: "k < length vs" "length vs < 2 ^ 32"
    and grow: "\<And>b. \<exists>xs. incoming_of st' b = incoming_of st b @ xs" "k = 0 \<or> incoming_of st (of_nat k) \<noteq> []"
    and same: "bb_instrs (cfg_blocks (r_cfg st') ! k) = bb_instrs (cfg_blocks (r_cfg st) ! k)"
      "bb_term (cfg_blocks (r_cfg st') ! k) = bb_term (cfg_blocks (r_cfg st) ! k)"
      "out_edges st' k = out_edges st k"
  shows "done_block oracle config i (vs @ ws) st' k"
proof -
  from d obtain s res s' where r: "oracle s (vs ! k) (seg_input config i k st) = Some (res, s')"
    "fst ` set (seg_targets res) \<subseteq> set vs" "bb_instrs (cfg_blocks (r_cfg st) ! k) = seg_instrs res"
    "bb_term (cfg_blocks (r_cfg st) ! k) = seg_term vs res"
    "out_edges st k = new_edges vs (of_nat k) (set (take (Suc k) vs)) res"
    by (auto simp: done_block_def)
  have "(vs @ ws) ! k = vs ! k" "take (Suc k) (vs @ ws) = take (Suc k) vs"
    using k(1) by (simp_all add: nth_append)
  with r same seg_input_mono [OF grow, of config i] seg_term_append [OF r(2)] new_edges_append [OF r(2)]
  show ?thesis unfolding done_block_def
    by (intro exI [of _ s] exI [of _ res] exI [of _ s'] conjI) auto
qed

definition finish_block :: "nat \<Rightarrow> SegmentResult \<Rightarrow> Terminator \<Rightarrow> rec_state \<Rightarrow> rec_state" where
  "finish_block p res t st =
     st\<lparr>r_cfg := (r_cfg st)\<lparr>cfg_blocks := (cfg_blocks (r_cfg st))
        [p := (cfg_blocks (r_cfg st) ! p)\<lparr>bb_instrs := seg_instrs res, bb_term := t\<rparr>]\<rparr>\<rparr>"

lemma recover_step_cases:
  assumes inv: "bfs_inv oracle config i vs p st" and p: "p < length vs" "length vs + 2 < 2 ^ 32"
    and step: "recover_step oracle config i 0 st s = Some (st', s')"
  obtains res st2 where "oracle s (vs ! p) (seg_input config i p st) = Some (res, s')"
    "term_spec vs (of_nat p) res (st\<lparr>worklist := drop (Suc p) vs, processed := set (take (Suc p) vs)\<rparr>) st2"
    "st' = finish_block p res (seg_term (add_vpcs vs res) res) st2"
proof -
  let ?st1 = "st\<lparr>worklist := drop (Suc p) vs, processed := set (take (Suc p) vs)\<rparr>"
  have tab: "table_inv vs st" and wl: "worklist st = drop p vs" "processed st = set (take p vs)"
    using inv by (simp_all add: bfs_inv_def)
  have dist: "distinct vs" using tab by (simp add: table_inv_def)
  then have new: "vs ! p \<notin> set (take p vs)"
    using p(1) by (auto simp: in_set_conv_nth nth_eq_iff_index_eq)
  have set_Suc: "set (take (Suc p) vs) = insert (vs ! p) (set (take p vs))"
    using p(1) by (simp add: take_Suc_conv_app_nth)
  have tab1: "table_inv vs ?st1" using tab by (simp add: table_inv_def)
  have idx: "index_block (vs ! p) ?st1 = (of_nat p, ?st1)"
    using tab1 p(1) dist by (simp add: index_block_def table_inv_def vpc_id_def vpc_index_nth)
  have hd: "hd (drop p vs) = vs ! p" "tl (drop p vs) = drop (Suc p) vs"
    using p(1) by (simp_all add: hd_drop_conv_nth tl_drop drop_Suc)
  have drive: "drive_state config i 0 (of_nat p) ?st1 = seg_input config i p st"
    using p by (intro drive_state_input [OF inv]) (simp_all add: incoming_of_def)
  have "process_block oracle config i 0 (vs ! p) (st\<lparr>worklist := drop (Suc p) vs\<rparr>) s = Some (st', s')"
    using step new wl hd by (simp add: recover_step_def Let_def)
  then obtain res t st2 cfg where
    run: "oracle s (vs ! p) (seg_input config i p st) = Some (res, s')"
    and mt: "make_term (of_nat p) res ?st1 = (t, st2)"
    and up: "update_block (r_cfg st2) (of_nat p) (\<lambda>b. b\<lparr>bb_instrs := seg_instrs res, bb_term := t\<rparr>) = Some cfg"
    and st': "st' = st2\<lparr>r_cfg := cfg\<rparr>"
    using wl(2) idx drive set_Suc
    by (auto simp: process_block_def Let_def split: prod.splits elim!: bind_SomeE)
  from make_term_spec [OF tab1 p(2) mt] have t: "t = seg_term (add_vpcs vs res) res"
    and spec: "term_spec vs (of_nat p) res ?st1 st2" by auto
  have "numbered (r_cfg st2)" "p < length (cfg_blocks (r_cfg st2))"
    using spec tab p(1) by (auto simp: term_spec_def table_inv_def Let_def)
  from numbered_lookup(2) [OF this] up st' have "st' = finish_block p res t st2"
    by (simp add: finish_block_def)
  with run spec t show ?thesis by (intro that) simp_all
qed

lemma table_inv_finish:
  assumes "table_inv vs st"
  shows "table_inv vs (finish_block p res t st)"
proof (cases "p < length (cfg_blocks (r_cfg st))")
  case True
  let ?b = "cfg_blocks (r_cfg st) ! p"
  have b: "?b \<in> set (cfg_blocks (r_cfg st))" using True by simp
  have num: "numbered (r_cfg (finish_block p res t st))"
    using assms numbered_update [of "r_cfg st" "\<lambda>b. b\<lparr>bb_instrs := seg_instrs res, bb_term := t\<rparr>" p]
    by (simp add: finish_block_def table_inv_def)
  have "map bb_label ((cfg_blocks (r_cfg st))[p := ?b\<lparr>bb_instrs := seg_instrs res, bb_term := t\<rparr>])
      = map bb_label (cfg_blocks (r_cfg st))"
    using True by (intro nth_equalityI) (auto simp: nth_list_update)
  moreover have "\<forall>b \<in> set ((cfg_blocks (r_cfg st))[p := ?b\<lparr>bb_instrs := seg_instrs res, bb_term := t\<rparr>]). bb_phis b = []"
    using assms b by (auto simp: table_inv_def dest!: set_update_subset_insert [THEN subsetD])
  ultimately show ?thesis using assms num by (simp add: table_inv_def finish_block_def)
next
  case False
  with assms show ?thesis by (simp add: table_inv_def finish_block_def list_update_beyond)
qed

lemma finish_block_frame [simp]:
  "worklist (finish_block p res t st) = worklist st" "processed (finish_block p res t st) = processed st"
  "enqueued (finish_block p res t st) = enqueued st" "incoming_of (finish_block p res t st) b = incoming_of st b"
  "cfg_edges (r_cfg (finish_block p res t st)) = cfg_edges (r_cfg st)"
  "entry_block (r_cfg (finish_block p res t st)) = entry_block (r_cfg st)"
  "predecessors (r_cfg (finish_block p res t st)) b = predecessors (r_cfg st) b"
  "out_edges (finish_block p res t st) k = out_edges st k"
  by (simp_all add: finish_block_def incoming_of_def predecessors_def out_edges_def)

lemma new_incoming_predecessors:
  "map fst (new_incoming vs bid res b) = map edge_from (filter (\<lambda>e. edge_to e = b) (new_edges vs bid d res))"
  by (simp add: new_incoming_def new_edges_def filter_map o_def)

lemma out_new_edges:
  "filter (\<lambda>e. edge_from e = c) (new_edges vs bid d res) = (if c = bid then new_edges vs bid d res else [])"
  by (simp add: new_edges_def filter_map o_def)

lemma bfs_step:
  assumes inv: "bfs_inv oracle config i vs p st" and run: "running config st" and mb: "max_blocks config < 2 ^ 31"
    and step: "recover_step oracle config i 0 st s = Some (st', s')"
  shows "\<exists>ws. bfs_inv oracle config i (vs @ ws) (Suc p) st'"
proof -
  note I = inv [unfolded bfs_inv_def]
  have len: "length (cfg_blocks (r_cfg st)) = length vs" and dist: "distinct vs"
    using I by (simp_all add: table_inv_def)
  have p: "p < length vs" using I run by (auto simp: running_def)
  have bound: "int (length vs) \<le> max_blocks config" using run len by (simp add: running_def)
  with mb have "int (length vs) < 2 ^ 31" by linarith
  then have small: "length vs + 2 < 2 ^ 32" by simp
  obtain res st2 where o: "oracle s (vs ! p) (seg_input config i p st) = Some (res, s')"
    and spec: "term_spec vs (of_nat p) res (st\<lparr>worklist := drop (Suc p) vs, processed := set (take (Suc p) vs)\<rparr>) st2"
    and st': "st' = finish_block p res (seg_term (add_vpcs vs res) res) st2"
    by (rule recover_step_cases [OF inv p small step])
  obtain ws where ws: "add_vpcs vs res = vs @ ws" using add_vpcs_facts(3) by blast
  have S: "table_inv (vs @ ws) st2" "cfg_blocks (r_cfg st2) = cfg_blocks (r_cfg st) @ fresh_blocks vs (vs @ ws)"
    "cfg_edges (r_cfg st2) = cfg_edges (r_cfg st) @ new_edges (vs @ ws) (of_nat p) (set (take (Suc p) vs)) res"
    "incoming_of st2 b = incoming_of st b @ new_incoming (vs @ ws) (of_nat p) res b"
    "processed st2 = set (take (Suc p) vs)" "enqueued st2 = set (vs @ ws)"
    "worklist st2 = drop (Suc p) vs @ ws" "entry_block (r_cfg st2) = 0" for b
    using spec I add_vpcs_facts(1) [of vs res] unfolding term_spec_def Let_def ws
    by (simp_all add: incoming_of_def)
  have tg: "fst ` set (seg_targets res) \<subseteq> set (vs @ ws)"
    using add_vpcs_facts(1) [of vs res] ws by auto
  have ids: "(of_nat p :: u32) \<noteq> of_nat k" if "k < length vs" "k \<noteq> p" for k
    using that p small of_nat_u32_inject [of p k] by simp
  have outs: "out_edges st' k = (if k = p then new_edges (vs @ ws) (of_nat p) (set (take (Suc p) vs)) res
      else out_edges st k)" if "k < length vs" for k
  proof (cases "k = p")
    case True
    have "out_edges st p = []"
      unfolding out_edges_def filter_empty_conv
    proof (intro ballI notI)
      fix e assume e: "e \<in> set (cfg_edges (r_cfg st))" "edge_from e = of_nat p"
      with I obtain j where "j < p" "edge_from e = of_nat j" by blast
      with e(2) ids [of j] p show False by simp
    qed
    with True show ?thesis by (simp add: st' out_edges_def S(3) out_new_edges)
  next
    case False
    with ids [OF that] show ?thesis by (simp add: st' out_edges_def S(3) out_new_edges)
  qed
  have bs: "cfg_blocks (r_cfg st') ! k = (if k = p then (cfg_blocks (r_cfg st) ! p)
        \<lparr>bb_instrs := seg_instrs res, bb_term := seg_term (vs @ ws) res\<rparr>
      else if k < length vs then cfg_blocks (r_cfg st) ! k else fresh_block ((vs @ ws) ! k) k)"
    if "k < length (vs @ ws)" for k
    using that p len by (simp add: st' finish_block_def S(2) ws nth_append fresh_blocks_def nth_list_update)
  have grow: "\<exists>xs. incoming_of st' b = incoming_of st b @ xs" for b by (simp add: st' S(4))
  have tab': "table_inv (vs @ ws) st'" using table_inv_finish [OF S(1)] by (simp add: st')
  have lenb: "int (length (vs @ ws)) \<le> max 1 (max_blocks config + 2)"
    using add_vpcs_facts(2) [of vs res] bound unfolding ws by simp
  have wl: "worklist st' = drop (Suc p) (vs @ ws)" "processed st' = set (take (Suc p) (vs @ ws))"
    "enqueued st' = set (vs @ ws)" "entry_block (r_cfg st') = 0"
    using p by (simp_all add: st' S(5-8))
  have db: "done_block oracle config i (vs @ ws) st' k" if "k < Suc p" for k
  proof (cases "k = p")
    case True
    have "seg_input config i p st' = seg_input config i p st"
      using bfs_incoming [OF inv, of p] p by (intro seg_input_mono [OF grow]) auto
    moreover have "(vs @ ws) ! p = vs ! p" "take (Suc p) (vs @ ws) = take (Suc p) vs"
      using p by (simp_all add: nth_append)
    ultimately show ?thesis
      using o tg p True outs [OF p] bs [of p] unfolding done_block_def
      by (intro exI [of _ s] exI [of _ res] exI [of _ s'] conjI) auto
  next
    case False
    with that have k: "k < p" "k < length vs" using p by simp_all
    have "done_block oracle config i vs st k" using I k(1) by blast
    then show ?thesis
      using k small False bfs_incoming [OF inv, of k] bs [of k] outs [OF k(2)]
      by (intro done_block_mono [OF _ _ _ grow]) auto
  qed
  have fr: "cfg_blocks (r_cfg st') ! k = fresh_block ((vs @ ws) ! k) k"
    if "Suc p \<le> k" "k < length (vs @ ws)" for k
    using I that bs [OF that(2)] by (auto simp: nth_append)
  have inc: "map fst (incoming_of st' b) = predecessors (r_cfg st') b" for b
    using I by (simp add: st' S(4) predecessors_def S(3) new_incoming_predecessors [of _ _ _ _ "set (take (Suc p) vs)"])
  have edg: "\<forall>e \<in> set (cfg_edges (r_cfg st')). \<exists>k < Suc p. edge_from e = of_nat k"
  proof
    fix e assume "e \<in> set (cfg_edges (r_cfg st'))"
    then consider "e \<in> set (cfg_edges (r_cfg st))" | "edge_from e = of_nat p"
      by (auto simp: st' S(3) new_edges_def)
    then show "\<exists>k < Suc p. edge_from e = of_nat k"
    proof cases
      case 1
      with I obtain k where "k < p" "edge_from e = of_nat k" by blast
      then show ?thesis by (intro exI [of _ k]) simp
    qed auto
  qed
  have rch: "\<exists>e \<in> set (cfg_edges (r_cfg st')). edge_to e = of_nat k \<and> (\<exists>j < k. edge_from e = of_nat j)"
    if k: "0 < k" "k < length (vs @ ws)" for k
  proof (cases "k < length vs")
    case True
    with I k(1) obtain e where "e \<in> set (cfg_edges (r_cfg st))"
      "edge_to e = of_nat k \<and> (\<exists>j < k. edge_from e = of_nat j)" by blast
    then show ?thesis by (intro bexI [of _ e]) (simp_all add: st' S(3))
  next
    case False
    have d: "distinct (vs @ ws)" using add_vpcs_facts(4) [OF dist, of res] ws by simp
    have "(vs @ ws) ! k \<in> set ws" using False k(2) by (auto simp: nth_append)
    then have "(vs @ ws) ! k \<in> fst ` set (seg_targets res)"
      using d add_vpcs_facts(1) [of vs res] ws by auto
    then obtain q where q: "q \<in> set (seg_targets res)" "fst q = (vs @ ws) ! k" by auto
    then have "vpc_id (vs @ ws) (fst q) = of_nat k"
      using vpc_index_nth [OF d k(2)] by (simp add: vpc_id_def)
    moreover let ?e = "\<lparr>edge_from = of_nat p, edge_to = vpc_id (vs @ ws) (fst q), is_backedge = fst q \<in> set (take (Suc p) vs)\<rparr>"
    have "?e \<in> set (cfg_edges (r_cfg st'))" using q(1) by (auto simp: st' S(3) new_edges_def)
    moreover have "\<exists>j < k. edge_from ?e = of_nat j" using False p by (intro exI [of _ p]) simp
    ultimately show ?thesis by (intro bexI [of _ ?e]) simp_all
  qed
  have hd: "vs @ ws \<noteq> []" "(vs @ ws) ! 0 = entry_vpc config" "Suc p \<le> length (vs @ ws)"
    using I p by (simp_all add: nth_append)
  have "bfs_inv oracle config i (vs @ ws) (Suc p) st'"
    unfolding bfs_inv_def
    by (intro conjI allI impI)
      (rule tab' lenb wl inc edg hd | (rule db, assumption) | (erule conjE, rule fr, assumption, assumption)
        | (erule conjE, rule rch, assumption, assumption))+
  then show ?thesis ..
qed

lemma bfs_loop:
  assumes "bfs_inv oracle config i vs p st" "max_blocks config < 2 ^ 31"
    "recover_loop oracle config i 0 st s = Some (st', s')"
  shows "\<exists>ws p'. bfs_inv oracle config i (vs @ ws) p' st' \<and> \<not> running config st'"
  using assms(1,3)
proof (induction "pending st" arbitrary: vs p st s rule: less_induct)
  case less
  show ?case
  proof (cases "running config st")
    case False
    with less.prems have "bfs_inv oracle config i (vs @ []) p st'" "\<not> running config st'"
      by (subst (asm) recover_loop.simps; simp)+
    then show ?thesis by blast
  next
    case True
    with less.prems(2) obtain st1 s1 where step: "recover_step oracle config i 0 st s = Some (st1, s1)"
      and rest: "recover_loop oracle config i 0 st1 s1 = Some (st', s')"
      by (subst (asm) recover_loop.simps) (auto elim!: bind_SomeE)
    obtain ws where inv: "bfs_inv oracle config i (vs @ ws) (Suc p) st1"
      using bfs_step [OF less.prems(1) True assms(2) step] by blast
    have "pending st1 < pending st"
      using recover_step_pending [OF step] True by (simp add: running_def)
    from less.hyps [OF this inv rest] show ?thesis by (metis append_assoc)
  qed
qed

lemma recover_step_defined:
  assumes inv: "bfs_inv oracle config i vs p st" and p: "p < length vs" "length vs + 2 < 2 ^ 32"
    and total: "oracle s (vs ! p) (seg_input config i p st) \<noteq> None"
  shows "\<exists>r. recover_step oracle config i 0 st s = Some r"
proof -
  let ?st1 = "st\<lparr>worklist := drop (Suc p) vs, processed := set (take (Suc p) vs)\<rparr>"
  have tab: "table_inv vs st" and wl: "worklist st = drop p vs" "processed st = set (take p vs)"
    using inv by (simp_all add: bfs_inv_def)
  have dist: "distinct vs" using tab by (simp add: table_inv_def)
  then have new: "vs ! p \<notin> set (take p vs)"
    using p(1) by (auto simp: in_set_conv_nth nth_eq_iff_index_eq)
  have set_Suc: "set (take (Suc p) vs) = insert (vs ! p) (set (take p vs))"
    using p(1) by (simp add: take_Suc_conv_app_nth)
  have tab1: "table_inv vs ?st1" using tab by (simp add: table_inv_def)
  have idx: "index_block (vs ! p) ?st1 = (of_nat p, ?st1)"
    using tab1 p(1) dist by (simp add: index_block_def table_inv_def vpc_id_def vpc_index_nth)
  have drive: "drive_state config i 0 (of_nat p) ?st1 = seg_input config i p st"
    using p by (intro drive_state_input [OF inv]) (simp_all add: incoming_of_def)
  obtain res s' where o: "oracle s (vs ! p) (drive_state config i 0 (of_nat p) ?st1) = Some (res, s')"
    using total unfolding drive by fastforce
  obtain t st2 where mt: "make_term (of_nat p) res ?st1 = (t, st2)" by force
  from make_term_spec [OF tab1 p(2) mt] have "table_inv (add_vpcs vs res) st2"
    "cfg_blocks (r_cfg st2) = cfg_blocks (r_cfg st) @ fresh_blocks vs (add_vpcs vs res)"
    by (auto simp: term_spec_def Let_def)
  then have num: "numbered (r_cfg st2)" "p < length (cfg_blocks (r_cfg st2))"
    using tab p(1) by (auto simp: table_inv_def)
  have hd: "hd (drop p vs) = vs ! p" "tl (drop p vs) = drop (Suc p) vs"
    using p(1) by (simp_all add: hd_drop_conv_nth tl_drop drop_Suc)
  from numbered_lookup(2) [OF num] o mt idx set_Suc show ?thesis
    by (simp add: recover_step_def process_block_def Let_def wl hd new)
qed

lemma recover_loop_defined:
  assumes "bfs_inv oracle config i vs p st" "max_blocks config < 2 ^ 31" "\<And>s v x. oracle s v x \<noteq> None"
  shows "\<exists>r. recover_loop oracle config i 0 st s = Some r"
  using assms(1)
proof (induction "pending st" arbitrary: vs p st s rule: less_induct)
  case less
  show ?case
  proof (cases "running config st")
    case False
    then show ?thesis by (subst recover_loop.simps) simp
  next
    case True
    have p: "p < length vs" using less.prems True by (auto simp: running_def bfs_inv_def)
    have "int (length vs) \<le> max_blocks config"
      using less.prems True by (auto simp: running_def bfs_inv_def table_inv_def)
    with assms(2) have "length vs + 2 < 2 ^ 32" by simp
    from recover_step_defined [OF less.prems p this assms(3)]
    obtain st1 s1 where step: "recover_step oracle config i 0 st s = Some (st1, s1)" by fastforce
    obtain ws where inv: "bfs_inv oracle config i (vs @ ws) (Suc p) st1"
      using bfs_step [OF less.prems True assms(2) step] by blast
    have "pending st1 < pending st"
      using recover_step_pending [OF step] True by (simp add: running_def)
    from less.hyps [OF this inv] step True show ?thesis by (subst recover_loop.simps) simp
  qed
qed

lemma initial_bfs:
  "\<exists>st. initial_rec_state (entry_vpc config) = (0, st) \<and> bfs_inv oracle config i [entry_vpc config] 0 st"
  by (auto simp: initial_rec_state_def get_block_def add_block_def new_cfg_def Let_def bfs_inv_def table_inv_def
      numbered_def vpc_label_def vpc_id_def vpc_index_def fresh_block_def default_term_def incoming_of_def predecessors_def)

subsection \<open>What the finishing steps keep\<close>

lemma add_phis_frame:
  "length (add_phis st tr bs n) = length bs"
  "k < length bs \<Longrightarrow> \<exists>phis. add_phis st tr bs n ! k = (bs ! k)\<lparr>bb_phis := phis\<rparr>"
proof (induction bs arbitrary: n k)
  case (Cons b bs)
  { case 1 from Cons.IH(1) show ?case by (auto simp: Let_def split: prod.splits) }
  { case 2
    have "\<exists>phis. b = b\<lparr>bb_phis := phis\<rparr>" by (rule exI [of _ "bb_phis b"]) simp
    with 2 Cons.IH(2) show ?case
      by (cases k) (auto simp: Let_def split: prod.splits) }
qed simp_all

lemma finish_cfg_frame [simp]:
  "cfg_edges (finish_cfg config i e st) = cfg_edges (r_cfg st)"
  "entry_block (finish_cfg config i e st) = entry_block (r_cfg st)"
  "successors (finish_cfg config i e st) b = successors (r_cfg st) b"
  "predecessors (finish_cfg config i e st) b = predecessors (r_cfg st) b"
  "length (cfg_blocks (finish_cfg config i e st)) = length (cfg_blocks (r_cfg st))"
  by (simp_all add: finish_cfg_def Let_def successors_def predecessors_def add_phis_frame)

lemma finish_cfg_nth:
  assumes "k < length (cfg_blocks (r_cfg st))"
  shows "bb_id (cfg_blocks (finish_cfg config i e st) ! k) = bb_id (cfg_blocks (r_cfg st) ! k)"
    "bb_label (cfg_blocks (finish_cfg config i e st) ! k) = bb_label (cfg_blocks (r_cfg st) ! k)"
    "map result_id (bb_instrs (cfg_blocks (finish_cfg config i e st) ! k))
       = map result_id (bb_instrs (cfg_blocks (r_cfg st) ! k))"
    "map op (bb_instrs (cfg_blocks (finish_cfg config i e st) ! k))
       = map op (bb_instrs (cfg_blocks (r_cfg st) ! k))"
    "(bb_term (cfg_blocks (finish_cfg config i e st) ! k))\<lparr>term_condition := None\<rparr>
       = (bb_term (cfg_blocks (r_cfg st) ! k))\<lparr>term_condition := None\<rparr>"
    "\<not> (full_ssa config \<and> tracked_regs config \<noteq> []) \<Longrightarrow>
       bb_instrs (cfg_blocks (finish_cfg config i e st) ! k) = bb_instrs (cfg_blocks (r_cfg st) ! k)
       \<and> bb_term (cfg_blocks (finish_cfg config i e st) ! k) = bb_term (cfg_blocks (r_cfg st) ! k)"
proof -
  let ?bs = "add_phis st (tracked_names config st) (cfg_blocks (r_cfg st)) (max_result_id (r_cfg st) + 1)"
  obtain phis where b: "?bs ! k = (cfg_blocks (r_cfg st) ! k)\<lparr>bb_phis := phis\<rparr>"
    using add_phis_frame(2) [OF assms] by blast
  have len: "k < length ?bs" using assms by (simp add: add_phis_frame)
  show "bb_id (cfg_blocks (finish_cfg config i e st) ! k) = bb_id (cfg_blocks (r_cfg st) ! k)"
    "bb_label (cfg_blocks (finish_cfg config i e st) ! k) = bb_label (cfg_blocks (r_cfg st) ! k)"
    "map result_id (bb_instrs (cfg_blocks (finish_cfg config i e st) ! k))
       = map result_id (bb_instrs (cfg_blocks (r_cfg st) ! k))"
    "map op (bb_instrs (cfg_blocks (finish_cfg config i e st) ! k))
       = map op (bb_instrs (cfg_blocks (r_cfg st) ! k))"
    "(bb_term (cfg_blocks (finish_cfg config i e st) ! k))\<lparr>term_condition := None\<rparr>
       = (bb_term (cfg_blocks (r_cfg st) ! k))\<lparr>term_condition := None\<rparr>"
    "\<not> (full_ssa config \<and> tracked_regs config \<noteq> []) \<Longrightarrow>
       bb_instrs (cfg_blocks (finish_cfg config i e st) ! k) = bb_instrs (cfg_blocks (r_cfg st) ! k)
       \<and> bb_term (cfg_blocks (finish_cfg config i e st) ! k) = bb_term (cfg_blocks (r_cfg st) ! k)"
    using b len by (auto simp: finish_cfg_def Let_def rewrite_block_def o_def)
qed

text \<open>Everything the loop guarantees, for the recovered function.\<close>

lemma recover_bfs:
  assumes "recover oracle config i s = Some (cfg, s')" "max_blocks config < 2 ^ 31"
  shows "\<exists>vs p st. bfs_inv oracle config i vs p st \<and> \<not> running config st \<and> cfg = finish_cfg config i 0 st"
proof -
  obtain st where st: "initial_rec_state (entry_vpc config) = (0, st)"
    "bfs_inv oracle config i [entry_vpc config] 0 st" using initial_bfs by blast
  with assms(1) obtain st' where "recover_loop oracle config i 0 st s = Some (st', s')"
    "cfg = finish_cfg config i 0 st'"
    by (auto simp: recover_def elim!: bind_SomeE)
  with bfs_loop [OF st(2) assms(2)] show ?thesis by blast
qed

end
