(* ===== verification/VM_Target.thy ===== *)
theory VM_Target
  imports Deobf_IR
begin

section \<open>VM targets (include/deobf/target.h, src/eval/target.cpp)\<close>

text \<open>
  A target is what the library knows about one virtual machine. The base class answers every question
  with a default; the four presets override some of the answers. The presets are constructors here, and
  a virtual method is a function on them.
\<close>

datatype VMTarget = VMP3Target | ThemidaTarget | ACETarget | GenericTarget

definition target_name :: "VMTarget \<Rightarrow> string" where
  "target_name t = (case t of
     VMP3Target \<Rightarrow> ''vmp3'' | ThemidaTarget \<Rightarrow> ''themida'' | ACETarget \<Rightarrow> ''ace'' | GenericTarget \<Rightarrow> ''generic'')"

definition vpc_reg :: "VMTarget \<Rightarrow> string" where
  "vpc_reg t = (case t of
     VMP3Target \<Rightarrow> ''r11'' | ThemidaTarget \<Rightarrow> ''rbp'' | ACETarget \<Rightarrow> ''r11'' | GenericTarget \<Rightarrow> ''r11'')"

definition initial_vpc :: "VMTarget \<Rightarrow> u64 \<Rightarrow> u64 option" where
  "initial_vpc t entry_va = None"

definition is_dispatcher :: "VMTarget \<Rightarrow> u64 \<Rightarrow> bool" where
  "is_dispatcher t va = False"

definition classify_handler :: "VMTarget \<Rightarrow> Function \<Rightarrow> string" where
  "classify_handler t handler_ir = ''unknown''"

definition is_vmexit :: "VMTarget \<Rightarrow> u64 \<Rightarrow> u64 \<Rightarrow> bool" where
  "is_vmexit t rsp_value init_rsp =
     (case t of
        VMP3Target \<Rightarrow> (let delta = rsp_value - init_rsp in delta = 0 \<or> delta = - 0x10)
      | ThemidaTarget \<Rightarrow> (let delta = rsp_value - init_rsp in delta = 0 \<or> delta = - 0x10)
      | _ \<Rightarrow> rsp_value = init_rsp)"

definition target_safe_ranges :: "VMTarget \<Rightarrow> (u64 \<times> u64) list" where
  "target_safe_ranges t = []"

text \<open>A conditional jump whose condition is not a constant.\<close>

definition open_cjmp :: "Instruction \<Rightarrow> bool" where
  "open_cjmp i \<longleftrightarrow> op i = Op_CJMP \<and> operands i \<noteq> [] \<and> \<not> is_const (operands i ! 0)"

definition is_vjcc :: "VMTarget \<Rightarrow> Function \<Rightarrow> bool" where
  "is_vjcc t handler_ir =
     (case t of ThemidaTarget \<Rightarrow> list_ex open_cjmp (instrs handler_ir) | _ \<Rightarrow> False)"

definition create_target :: "string \<Rightarrow> VMTarget" where
  "create_target name =
     (if name = ''vmp3'' \<or> name = ''vmp'' \<or> name = ''vmprotect'' then VMP3Target
      else if name = ''themida'' \<or> name = ''codevirtualizer'' then ThemidaTarget
      else if name = ''ace'' then ACETarget
      else GenericTarget)"

lemma create_target_name: "create_target (target_name t) = t"
  by (cases t) (simp_all add: create_target_def target_name_def)

end
