(* ===== verification/Text_Stream.thy ===== *)
theory Text_Stream
  imports Pass_Dead
begin

section \<open>Text written through an output stream\<close>

text \<open>
  The reports write numbers through \<^verbatim>\<open>std::ostringstream\<close>, whose manipulators \<^verbatim>\<open>std::hex\<close> and
  \<^verbatim>\<open>std::dec\<close> stay in force until the next one. What a function writes is a list of items; the text
  is rendered from a fresh stream, which is in decimal. A negative \<^verbatim>\<open>int\<close> is written in two's
  complement in hexadecimal.
\<close>

datatype os_item = Str string | Num nat | SNum int | Hex | Dec

fun render :: "bool \<Rightarrow> os_item list \<Rightarrow> string" where
  "render hex [] = ''''"
| "render hex (Str s # xs) = s @ render hex xs"
| "render hex (Num n # xs) = (if hex then to_hex n else to_string n) @ render hex xs"
| "render hex (SNum k # xs) = (if hex then to_hex (nat (k mod 2 ^ 32)) else int_to_string k) @ render hex xs"
| "render hex (Hex # xs) = render True xs"
| "render hex (Dec # xs) = render False xs"

abbreviation os_str :: "os_item list \<Rightarrow> string" where "os_str xs \<equiv> render False xs"

abbreviation nl :: string where "nl \<equiv> [CHR 0x0A]"

text \<open>The mode a list of items leaves behind.\<close>

fun mode_after :: "bool \<Rightarrow> os_item list \<Rightarrow> bool" where
  "mode_after hex [] = hex"
| "mode_after hex (Hex # xs) = mode_after True xs"
| "mode_after hex (Dec # xs) = mode_after False xs"
| "mode_after hex (x # xs) = mode_after hex xs"

lemma render_append [simp]: "render hex (xs @ ys) = render hex xs @ render (mode_after hex xs) ys"
  by (induction hex xs rule: mode_after.induct) auto

lemma mode_after_append [simp]: "mode_after hex (xs @ ys) = mode_after (mode_after hex xs) ys"
  by (induction hex xs rule: mode_after.induct) auto

end
