(* ===== verification/Guided_Eval.thy ===== *)
theory Guided_Eval
  imports Promotion X64_Lifter CFG_Recovery VM_Target Text_Stream
begin

section \<open>The guided evaluator (include/deobf/evaluator.h, src/eval/guided_eval.cpp)\<close>

text \<open>
  The evaluator follows the dispatch loop of a virtual machine. It lifts a block of the image, folds the
  whole function and promotes loads until the target of the block's jump is a constant, and goes on at
  that target. The first address it meets twice is taken for the dispatcher; from then on every return
  to it is a dispatch of one virtual instruction, which is recorded, and clears the set of visited
  addresses.

  Members of the class carry the prefix \<open>ge_\<close>; \<^verbatim>\<open>func_\<close> is the function of the lifting state. The
  decoder is a parameter (see \<open>X64_Lifter\<close>). \<open>None\<close> is the undefined case of the optimizer, or a read
  in front of the image. The counters are \<^verbatim>\<open>int\<close>s: \<open>steps\<close> stays below \<^verbatim>\<open>max_steps\<close> plus a window.
\<close>

subsection \<open>Data\<close>

record HandlerRecord =
  hr_vpc_before :: "u64 option"
  hr_vpc_after :: "u64 option"
  hr_handler_va :: u64
  hr_ir_start_idx :: nat
  hr_ir_end_idx :: nat

record VJCCBranch =
  vb_vjcc_va :: u64
  vb_vpc_taken :: "u64 option"
  vb_vpc_not_taken :: "u64 option"
  vb_explored_taken :: bool
  vb_explored_not_taken :: bool

datatype EvalResult =
    IN_PROGRESS | RET | VMEXIT_RET | VMEXIT_CALL | UNRESOLVED_TARGET | TARGET_OUTSIDE_IMAGE
  | VPC_CONVERGED | VPC_UNRESOLVED | INNER_LOOP | MAX_STEPS | MAX_VM_INSNS | OUT_OF_BOUNDS

definition eval_result_name :: "EvalResult \<Rightarrow> string" where
  "eval_result_name r = (case r of
     IN_PROGRESS \<Rightarrow> ''IN_PROGRESS''
   | RET \<Rightarrow> ''RET''
   | VMEXIT_RET \<Rightarrow> ''VMEXIT_RET''
   | VMEXIT_CALL \<Rightarrow> ''VMEXIT_CALL''
   | UNRESOLVED_TARGET \<Rightarrow> ''UNRESOLVED_TARGET''
   | TARGET_OUTSIDE_IMAGE \<Rightarrow> ''TARGET_OUTSIDE_IMAGE''
   | VPC_CONVERGED \<Rightarrow> ''VPC_CONVERGED''
   | VPC_UNRESOLVED \<Rightarrow> ''VPC_UNRESOLVED''
   | INNER_LOOP \<Rightarrow> ''INNER_LOOP''
   | MAX_STEPS \<Rightarrow> ''MAX_STEPS''
   | MAX_VM_INSNS \<Rightarrow> ''MAX_VM_INSNS''
   | OUT_OF_BOUNDS \<Rightarrow> ''OUT_OF_BOUNDS'')"

record EvalReport =
  er_result :: EvalResult
  er_stop_va :: u64
  er_steps :: int
  er_vm_insn_count :: int
  er_ir_count :: nat
  er_dispatcher_va :: "u64 option"
  er_final_vpc :: "u64 option"

record GuidedEvaluator =
  ge_image :: "u8 list"
  ge_base :: u64
  ge_vpc_reg :: string
  ge_state :: LiftState
  ge_memory :: ByteMemory
  ge_initial_regs :: VMState
  ge_visited :: "u64 set"
  ge_jmp_trace :: "u64 list"
  ge_dispatcher_va :: "u64 option"
  ge_vpc_trace :: "u64 option list"
  ge_handlers :: "HandlerRecord list"
  ge_handler_freq :: "(u64 \<times> int) list"
  ge_last_vpc :: "u64 option"
  ge_handler_ir_start :: nat
  ge_vm_insn_count :: int
  ge_vjcc_branches :: "VJCCBranch list"

abbreviation ge_func :: "GuidedEvaluator \<Rightarrow> Function" where
  "ge_func ev \<equiv> func (ge_state ev)"

definition new_evaluator :: "u8 list \<Rightarrow> u64 \<Rightarrow> string \<Rightarrow> GuidedEvaluator" where
  "new_evaluator img image_base vpc_register =
     \<lparr>ge_image = img, ge_base = image_base, ge_vpc_reg = vpc_register,
      ge_state = new_lift_state (new_function ''guided'') 0x7FFFFFFFD000, ge_memory = empty_memory,
      ge_initial_regs = [], ge_visited = {}, ge_jmp_trace = [], ge_dispatcher_va = None, ge_vpc_trace = [],
      ge_handlers = [], ge_handler_freq = [], ge_last_vpc = None, ge_handler_ir_start = 0,
      ge_vm_insn_count = 0, ge_vjcc_branches = []\<rparr>"

definition set_initial_regs :: "VMState \<Rightarrow> GuidedEvaluator \<Rightarrow> GuidedEvaluator" where
  "set_initial_regs rs ev = ev\<lparr>ge_initial_regs := rs\<rparr>"

text \<open>A safe range that lies in the image brings the bytes of the image with it.\<close>

definition guided_safe_range :: "u64 \<Rightarrow> u64 \<Rightarrow> GuidedEvaluator \<Rightarrow> GuidedEvaluator" where
  "guided_safe_range start stop ev =
     (let memory = add_safe_range (ge_memory ev) start stop;
          rva_start = unat (start - ge_base ev); rva_end = unat (stop - ge_base ev); img = ge_image ev
      in ev\<lparr>ge_memory :=
           if rva_start < length img \<and> rva_end \<le> length img then
             fold (\<lambda>k m. store m (start + of_nat k) [img ! (rva_start + k)]) [0..<rva_end - rva_start] memory
           else memory\<rparr>)"

subsection \<open>Queries\<close>

text \<open>The test of \<^verbatim>\<open>read_bytes\<close> wraps around for an address just below the image: it then gives a pointer
  to in front of the image (the outer \<open>None\<close>).\<close>

definition read_bytes :: "GuidedEvaluator \<Rightarrow> u64 \<Rightarrow> u64 \<Rightarrow> u8 list option option" where
  "read_bytes ev va len =
     (let rva = va - ge_base ev; n = length (ge_image ev)
      in if unat (rva + len) \<le> n then
           (if unat rva \<le> n then Some (Some (take (unat len) (drop (unat rva) (ge_image ev)))) else None)
         else Some None)"

definition is_in_image :: "GuidedEvaluator \<Rightarrow> u64 \<Rightarrow> bool" where
  "is_in_image ev va \<longleftrightarrow> unat (va - ge_base ev) < length (ge_image ev)"

text \<open>A load from private memory that is still a load is read directly.\<close>

definition resolve_vpc_load :: "GuidedEvaluator \<Rightarrow> Value \<Rightarrow> u64 option option" where
  "resolve_vpc_load ev resolved =
     (let vec = instrs (ge_func ev); im = build_instr_map vec
      in case get_instrref resolved of
           None \<Rightarrow> Some None
         | Some r \<Rightarrow>
             (case im r of
                None \<Rightarrow> Some None
              | Some k \<Rightarrow>
                  if op (vec ! k) = Op_LOAD \<and> operands (vec ! k) \<noteq> [] then
                    do { addr \<leftarrow> resolved_const vec im (operands (vec ! k) ! 0);
                         Some (case addr of
                                 Some a \<Rightarrow> if is_safe (ge_memory ev) a then load_u64 (ge_memory ev) a else None
                               | None \<Rightarrow> None) }
                  else Some None))"

definition resolve_vpc :: "GuidedEvaluator \<Rightarrow> u64 option option" where
  "resolve_vpc ev =
     (let vec = instrs (ge_func ev)
      in case map_of (regs (ge_state ev)) (ge_vpc_reg ev) of
           None \<Rightarrow> Some None
         | Some v \<Rightarrow>
             (case get_const v of
                Some (c, _) \<Rightarrow> Some (Some c)
              | None \<Rightarrow>
                  do { resolved \<leftarrow> resolve vec (build_instr_map vec) v;
                       case get_const resolved of
                         Some (c, _) \<Rightarrow> Some (Some c)
                       | None \<Rightarrow> resolve_vpc_load ev resolved }))"

fun last_jump :: "Instruction list \<Rightarrow> (u32 \<Rightarrow> nat option) \<Rightarrow> Instruction list \<Rightarrow> u64 option option" where
  "last_jump vec im [] = Some None"
| "last_jump vec im (i # is) =
     (if op i = Op_JMP \<or> op i = Op_CALL then
        (if operands i = [] then Some None else resolved_const vec im (operands i ! 0))
      else last_jump vec im is)"

definition resolve_jmp_target :: "Function \<Rightarrow> u64 option option" where
  "resolve_jmp_target f = last_jump (instrs f) (build_instr_map (instrs f)) (rev (instrs f))"

definition check_vmexit :: "LiftState \<Rightarrow> EvalResult option" where
  "check_vmexit st =
     (case map_of (regs st) ''rsp'' of
        None \<Rightarrow> None
      | Some v \<Rightarrow>
          (case get_const v of
             None \<Rightarrow> None
           | Some (c, _) \<Rightarrow>
               (let delta = c - 0x7FFFFFFFD000
                in if delta = 0 then Some VMEXIT_RET
                   else if delta = - 0x10 then Some VMEXIT_CALL
                   else None)))"

definition detect_vjcc :: "GuidedEvaluator \<Rightarrow> u64 \<Rightarrow> bool" where
  "detect_vjcc ev handler_va = list_ex open_cjmp (instrs (ge_func ev))"

subsection \<open>A round of the loop\<close>

definition freq_of :: "(u64 \<times> int) list \<Rightarrow> u64 \<Rightarrow> int" where
  "freq_of freq va = (case map_of freq va of Some n \<Rightarrow> n | None \<Rightarrow> 0)"

text \<open>At the dispatcher: the virtual instruction that ends here is recorded.\<close>

definition record_handler :: "u64 option \<Rightarrow> GuidedEvaluator \<Rightarrow> GuidedEvaluator" where
  "record_handler cur_vpc ev =
     (let n = length (instrs (ge_func ev))
      in if ge_last_vpc ev \<noteq> None \<and> ge_handler_ir_start ev < n then
           (let h_va = (if ge_jmp_trace ev = [] then 0 else last (ge_jmp_trace ev))
            in ev\<lparr>ge_handlers := ge_handlers ev @
                     [\<lparr>hr_vpc_before = ge_last_vpc ev, hr_vpc_after = cur_vpc, hr_handler_va = h_va,
                       hr_ir_start_idx = ge_handler_ir_start ev, hr_ir_end_idx = n\<rparr>],
                  ge_handler_freq := AList.update h_va (freq_of (ge_handler_freq ev) h_va + 1) (ge_handler_freq ev)\<rparr>)
         else ev)"

definition count_dispatch :: "u64 option \<Rightarrow> GuidedEvaluator \<Rightarrow> GuidedEvaluator" where
  "count_dispatch cur_vpc ev =
     ev\<lparr>ge_last_vpc := cur_vpc, ge_vpc_trace := ge_vpc_trace ev @ [cur_vpc],
        ge_handler_ir_start := length (instrs (ge_func ev)), ge_vm_insn_count := ge_vm_insn_count ev + 1\<rparr>"

text \<open>Entering a block; a result ends the loop, with the final virtual program counter.\<close>

definition enter_block ::
  "int \<Rightarrow> u64 \<Rightarrow> GuidedEvaluator \<Rightarrow> (GuidedEvaluator \<times> (EvalResult \<times> u64 option) option) option" where
  "enter_block max_vm_insns va ev =
     (if va \<notin> ge_visited ev then Some (ev\<lparr>ge_visited := insert va (ge_visited ev)\<rparr>, None)
      else
        (let ev = (if ge_dispatcher_va ev = None then ev\<lparr>ge_dispatcher_va := Some va\<rparr> else ev)
         in if ge_dispatcher_va ev \<noteq> Some va then Some (ev, Some (INNER_LOOP, None))
            else
              do { cur_vpc \<leftarrow> resolve_vpc ev;
                   let ev = record_handler cur_vpc ev;
                   if cur_vpc \<noteq> None \<and> ge_last_vpc ev \<noteq> None \<and> cur_vpc = ge_last_vpc ev then
                     Some (ev, Some (VPC_CONVERGED, cur_vpc))
                   else if cur_vpc = None \<and> ge_last_vpc ev = None \<and> ge_vm_insn_count ev > 0 then
                     Some (ev, Some (INNER_LOOP, None))
                   else
                     (let ev = count_dispatch cur_vpc ev
                      in if ge_vm_insn_count ev \<ge> max_vm_insns then Some (ev, Some (MAX_VM_INSNS, cur_vpc))
                         else Some (ev\<lparr>ge_visited := {va}\<rparr>, None)) }))"

definition with_func :: "Function \<Rightarrow> GuidedEvaluator \<Rightarrow> GuidedEvaluator" where
  "with_func f ev = ev\<lparr>ge_state := (ge_state ev)\<lparr>func := f\<rparr>\<rparr>"

text \<open>Lifting the decoded instructions up to the first \<^verbatim>\<open>ret\<close>, \<^verbatim>\<open>jmp\<close> or \<^verbatim>\<open>call\<close>: the step counter, the
  address, the result so far and the evaluator.\<close>

fun guided_lift ::
  "cs_insn list \<Rightarrow> int \<Rightarrow> u64 \<Rightarrow> GuidedEvaluator \<Rightarrow> (int \<times> u64 \<times> EvalResult \<times> GuidedEvaluator) option" where
  "guided_lift [] steps va ev = Some (steps, va, IN_PROGRESS, ev)"
| "guided_lift (i # is) steps va ev =
     (let ev = ev\<lparr>ge_state := lift_insn i (ge_state ev)\<rparr>; steps = steps + 1; m = mnemonic i
      in if m = ''ret'' then
           do { (f, _) \<leftarrow> run_fold_convergence (ge_func ev) 8;
                let ev = with_func f ev;
                ret_target \<leftarrow> resolve_jmp_target f;
                Some (case ret_target of
                        Some t \<Rightarrow>
                          if is_safe (ge_memory ev) t \<and> ge_dispatcher_va ev = None then (steps, t, IN_PROGRESS, ev)
                          else (steps, va, case check_vmexit (ge_state ev) of Some r \<Rightarrow> r | None \<Rightarrow> RET, ev)
                      | None \<Rightarrow> (steps, va, case check_vmexit (ge_state ev) of Some r \<Rightarrow> r | None \<Rightarrow> RET, ev)) }
         else if m = ''jmp'' \<or> m = ''call'' then Some (steps, va, IN_PROGRESS, ev)
         else guided_lift is steps va ev)"

definition guided_promote :: "GuidedEvaluator \<Rightarrow> GuidedEvaluator option" where
  "guided_promote ev =
     do { (f, memory) \<leftarrow> guided_promote_rounds 3 (ge_func ev) (ge_memory ev);
          Some ((with_func f ev)\<lparr>ge_memory := memory\<rparr>) }"

text \<open>Without a target the last conditional jump with an open condition is recorded.\<close>

definition vjcc_branch :: "u64 \<Rightarrow> Instruction \<Rightarrow> VJCCBranch" where
  "vjcc_branch va i =
     \<lparr>vb_vjcc_va = va,
      vb_vpc_taken = (if 2 \<le> length (operands i) then map_option fst (get_const (operands i ! 1)) else None),
      vb_vpc_not_taken = (if 3 \<le> length (operands i) then map_option fst (get_const (operands i ! 2)) else None),
      vb_explored_taken = False, vb_explored_not_taken = False\<rparr>"

definition record_vjcc :: "u64 \<Rightarrow> GuidedEvaluator \<Rightarrow> GuidedEvaluator" where
  "record_vjcc va ev =
     (case find open_cjmp (rev (instrs (ge_func ev))) of
        Some i \<Rightarrow> ev\<lparr>ge_vjcc_branches := ge_vjcc_branches ev @ [vjcc_branch va i]\<rparr>
      | None \<Rightarrow> ev)"

text \<open>The variables of the loop, and a round of it; the flag says whether the loop goes on (the code
  leaves it by \<^verbatim>\<open>break\<close>).\<close>

record guided_loop_state =
  gl_ev :: GuidedEvaluator
  gl_steps :: int
  gl_va :: u64
  gl_result :: EvalResult
  gl_final_vpc :: "u64 option"

definition guided_block ::
  "(u8 list \<Rightarrow> u64 \<Rightarrow> cs_insn list) \<Rightarrow> guided_loop_state \<Rightarrow> (guided_loop_state \<times> bool) option" where
  "guided_block decode s =
     (let va = gl_va s; ev = (gl_ev s)\<lparr>ge_jmp_trace := ge_jmp_trace (gl_ev s) @ [va]\<rparr>
      in do { code \<leftarrow> read_bytes ev va 256;
              case code of
                None \<Rightarrow> Some (s\<lparr>gl_ev := ev, gl_result := OUT_OF_BOUNDS\<rparr>, False)
              | Some code \<Rightarrow>
                  do { (steps, va, result, ev) \<leftarrow> guided_lift (decode code va) (gl_steps s) va ev;
                       ev \<leftarrow> guided_promote ev;
                       let s = s\<lparr>gl_ev := ev, gl_steps := steps, gl_va := va, gl_result := result\<rparr>;
                       if result \<noteq> IN_PROGRESS then Some (s, False)
                       else
                         do { target \<leftarrow> resolve_jmp_target (ge_func ev);
                              Some (case target of
                                      None \<Rightarrow> (s\<lparr>gl_ev := record_vjcc va ev, gl_result := UNRESOLVED_TARGET\<rparr>, False)
                                    | Some t \<Rightarrow>
                                        if \<not> is_in_image ev t then (s\<lparr>gl_result := TARGET_OUTSIDE_IMAGE\<rparr>, False)
                                        else (s\<lparr>gl_va := t\<rparr>, True)) } } })"

definition guided_step ::
  "(u8 list \<Rightarrow> u64 \<Rightarrow> cs_insn list) \<Rightarrow> int \<Rightarrow> guided_loop_state \<Rightarrow> (guided_loop_state \<times> bool) option" where
  "guided_step decode max_vm_insns s =
     do { (ev, stop) \<leftarrow> enter_block max_vm_insns (gl_va s) (gl_ev s);
          case stop of
            Some (result, final_vpc) \<Rightarrow> Some (s\<lparr>gl_ev := ev, gl_result := result, gl_final_vpc := final_vpc\<rparr>, False)
          | None \<Rightarrow> guided_block decode (s\<lparr>gl_ev := ev\<rparr>) }"

subsection \<open>The loop ends\<close>

text \<open>What a round leaves alone once the block has been entered.\<close>

definition same_frame :: "GuidedEvaluator \<Rightarrow> GuidedEvaluator \<Rightarrow> bool" where
  "same_frame ev ev' \<longleftrightarrow> ge_image ev' = ge_image ev \<and> ge_base ev' = ge_base ev \<and> ge_vpc_reg ev' = ge_vpc_reg ev
     \<and> ge_initial_regs ev' = ge_initial_regs ev \<and> ge_visited ev' = ge_visited ev
     \<and> ge_jmp_trace ev' = ge_jmp_trace ev \<and> ge_dispatcher_va ev' = ge_dispatcher_va ev
     \<and> ge_vpc_trace ev' = ge_vpc_trace ev \<and> ge_handlers ev' = ge_handlers ev \<and> ge_handler_freq ev' = ge_handler_freq ev
     \<and> ge_last_vpc ev' = ge_last_vpc ev \<and> ge_handler_ir_start ev' = ge_handler_ir_start ev
     \<and> ge_vm_insn_count ev' = ge_vm_insn_count ev"

lemma same_frame_refl [simp]: "same_frame ev ev"
  by (simp add: same_frame_def)

lemma same_frame_with_func [simp]: "same_frame ev (with_func f ev') = same_frame ev ev'"
  by (simp add: same_frame_def with_func_def)

lemma same_frame_updates [simp]:
  "same_frame ev (ev'\<lparr>ge_memory := m\<rparr>) = same_frame ev ev'"
  "same_frame ev (ev'\<lparr>ge_state := st\<rparr>) = same_frame ev ev'"
  "same_frame ev (record_vjcc va ev') = same_frame ev ev'"
  "same_frame (ev\<lparr>ge_state := st\<rparr>) ev' = same_frame ev ev'"
  by (auto simp: same_frame_def record_vjcc_def split: option.split)

lemma guided_lift_frame:
  "guided_lift is steps va ev = Some (steps', va', result, ev') \<Longrightarrow> same_frame ev ev' \<and> ge_memory ev' = ge_memory ev"
proof (induction "is" arbitrary: steps ev)
  case (Cons i "is")
  show ?case
  proof (cases "mnemonic i = ''ret''")
    case True
    with Cons.prems show ?thesis
      by (auto simp: Let_def with_func_def same_frame_def elim!: bind_SomeE split: option.splits if_splits)
  next
    case False
    show ?thesis
    proof (cases "mnemonic i = ''jmp'' \<or> mnemonic i = ''call''")
      case True
      with False Cons.prems show ?thesis by (auto simp: Let_def split: if_splits)
    next
      case neither: False
      with False Cons.prems
      have "guided_lift is (steps + 1) va (ev\<lparr>ge_state := lift_insn i (ge_state ev)\<rparr>) = Some (steps', va', result, ev')"
        by (simp add: Let_def)
      from Cons.IH [OF this] show ?thesis by simp
    qed
  qed
qed simp

lemma guided_promote_frame: "guided_promote ev = Some ev' \<Longrightarrow> same_frame ev ev'"
  by (auto simp: guided_promote_def elim!: bind_SomeE)

lemma same_frame_trans: "same_frame a b \<Longrightarrow> same_frame b c \<Longrightarrow> same_frame a c"
  by (simp add: same_frame_def)

lemma guided_block_frame:
  assumes "guided_block decode s = Some (s', go)"
  shows "same_frame ((gl_ev s)\<lparr>ge_jmp_trace := ge_jmp_trace (gl_ev s) @ [gl_va s]\<rparr>) (gl_ev s')
    \<and> gl_final_vpc s' = gl_final_vpc s"
proof -
  let ?ev = "(gl_ev s)\<lparr>ge_jmp_trace := ge_jmp_trace (gl_ev s) @ [gl_va s]\<rparr>"
  have chain: "same_frame ?ev ev2"
    if "guided_lift is k va ?ev = Some (steps, va', r, ev1)" "guided_promote ev1 = Some ev2" for "is" k va steps va' r ev1 ev2
    using guided_lift_frame [OF that(1)] guided_promote_frame [OF that(2)] same_frame_trans by blast
  from assms show ?thesis
    by (auto simp: guided_block_def Let_def elim!: bind_SomeE split: option.splits if_splits) (blast intro: chain)+
qed

lemma record_handler_frame [simp]:
  "ge_visited (record_handler c ev) = ge_visited ev" "ge_vm_insn_count (record_handler c ev) = ge_vm_insn_count ev"
  "ge_last_vpc (record_handler c ev) = ge_last_vpc ev" "ge_state (record_handler c ev) = ge_state ev"
  "ge_memory (record_handler c ev) = ge_memory ev" "ge_image (record_handler c ev) = ge_image ev"
  "ge_base (record_handler c ev) = ge_base ev" "ge_jmp_trace (record_handler c ev) = ge_jmp_trace ev"
  "ge_dispatcher_va (record_handler c ev) = ge_dispatcher_va ev" "ge_vpc_trace (record_handler c ev) = ge_vpc_trace ev"
  "ge_handler_ir_start (record_handler c ev) = ge_handler_ir_start ev" "ge_vpc_reg (record_handler c ev) = ge_vpc_reg ev"
  "ge_initial_regs (record_handler c ev) = ge_initial_regs ev" "ge_vjcc_branches (record_handler c ev) = ge_vjcc_branches ev"
  by (simp_all add: record_handler_def Let_def)

lemma count_dispatch_frame [simp]:
  "ge_vm_insn_count (count_dispatch c ev) = ge_vm_insn_count ev + 1"
  by (simp add: count_dispatch_def)

text \<open>Meeting an address again: what happens at the dispatcher, and elsewhere.\<close>

lemma enter_block_again:
  assumes "enter_block mx va ev = Some (ev', stop)" "va \<in> ge_visited ev"
  obtains (elsewhere) "ge_dispatcher_va ev \<noteq> None" "ev' = ev" "stop = Some (INNER_LOOP, None)"
  | (dispatcher) cur ev1 where "ge_dispatcher_va ev \<in> {None, Some va}" "ev1 = ev\<lparr>ge_dispatcher_va := Some va\<rparr>"
      "resolve_vpc ev1 = Some cur"
      "(if cur \<noteq> None \<and> cur = ge_last_vpc ev then
          ev' = record_handler cur ev1 \<and> stop = Some (VPC_CONVERGED, cur)
        else if cur = None \<and> ge_last_vpc ev = None \<and> 0 < ge_vm_insn_count ev then
          ev' = record_handler cur ev1 \<and> stop = Some (INNER_LOOP, None)
        else if mx \<le> ge_vm_insn_count ev + 1 then
          ev' = count_dispatch cur (record_handler cur ev1) \<and> stop = Some (MAX_VM_INSNS, cur)
        else ev' = (count_dispatch cur (record_handler cur ev1))\<lparr>ge_visited := {va}\<rparr> \<and> stop = None)"
proof (cases "ge_dispatcher_va ev \<in> {None, Some va}")
  case False
  with assms show thesis by (intro elsewhere) (auto simp: enter_block_def)
next
  case True
  define ev1 where "ev1 = ev\<lparr>ge_dispatcher_va := Some va\<rparr>"
  from True have e: "(if ge_dispatcher_va ev = None then ev\<lparr>ge_dispatcher_va := Some va\<rparr> else ev) = ev1"
    by (auto simp: ev1_def)
  have sel: "ge_dispatcher_va ev1 = Some va" "ge_last_vpc ev1 = ge_last_vpc ev" "ge_vm_insn_count ev1 = ge_vm_insn_count ev"
    by (simp_all add: ev1_def)
  from assms obtain cur where cur: "resolve_vpc ev1 = Some cur"
    unfolding enter_block_def Let_def e by (auto simp: sel elim!: bind_SomeE)
  have rest: "(if cur \<noteq> None \<and> cur = ge_last_vpc ev then
          ev' = record_handler cur ev1 \<and> stop = Some (VPC_CONVERGED, cur)
        else if cur = None \<and> ge_last_vpc ev = None \<and> 0 < ge_vm_insn_count ev then
          ev' = record_handler cur ev1 \<and> stop = Some (INNER_LOOP, None)
        else if mx \<le> ge_vm_insn_count ev + 1 then
          ev' = count_dispatch cur (record_handler cur ev1) \<and> stop = Some (MAX_VM_INSNS, cur)
        else ev' = (count_dispatch cur (record_handler cur ev1))\<lparr>ge_visited := {va}\<rparr> \<and> stop = None)"
    using assms unfolding enter_block_def Let_def e by (auto simp: sel cur split: if_splits)
  from dispatcher [OF True ev1_def cur rest] show thesis .
qed

text \<open>A block that is entered either is new or ends a virtual instruction within the bound.\<close>

lemma enter_block_cases:
  assumes "enter_block mx va ev = Some (ev', None)"
  obtains (fresh) "va \<notin> ge_visited ev" "ev' = ev\<lparr>ge_visited := insert va (ge_visited ev)\<rparr>"
  | (dispatch) cur ev1 where "va \<in> ge_visited ev" "ge_dispatcher_va ev \<in> {None, Some va}"
      "ev1 = ev\<lparr>ge_dispatcher_va := Some va\<rparr>" "resolve_vpc ev1 = Some cur"
      "ge_vm_insn_count ev + 1 < mx" "ev' = (count_dispatch cur (record_handler cur ev1))\<lparr>ge_visited := {va}\<rparr>"
proof (cases "va \<in> ge_visited ev")
  case False
  with assms show thesis by (intro fresh) (auto simp: enter_block_def)
next
  case True
  from assms True show thesis
  proof (cases rule: enter_block_again)
    case (dispatcher cur ev1)
    then show thesis by (intro dispatch [OF True dispatcher(1-3)]) (auto split: if_splits)
  qed simp
qed

lemma guided_step_decreases:
  assumes "guided_step decode mx s = Some (s', True)"
  shows "(nat (mx - ge_vm_insn_count (gl_ev s')) < nat (mx - ge_vm_insn_count (gl_ev s)))
    \<or> ge_vm_insn_count (gl_ev s') = ge_vm_insn_count (gl_ev s)
      \<and> card (- ge_visited (gl_ev s')) < card (- ge_visited (gl_ev s))"
proof -
  from assms obtain ev where ev: "enter_block mx (gl_va s) (gl_ev s) = Some (ev, None)"
    and blk: "guided_block decode (s\<lparr>gl_ev := ev\<rparr>) = Some (s', True)"
    by (auto simp: guided_step_def elim!: bind_SomeE split: option.splits)
  from guided_block_frame [OF blk] have same: "ge_visited (gl_ev s') = ge_visited ev" "ge_vm_insn_count (gl_ev s') = ge_vm_insn_count ev"
    by (simp_all add: same_frame_def)
  from ev show ?thesis
  proof (cases rule: enter_block_cases)
    case fresh
    then have "- insert (gl_va s) (ge_visited (gl_ev s)) \<subset> - ge_visited (gl_ev s)" by blast
    then have "card (- insert (gl_va s) (ge_visited (gl_ev s))) < card (- ge_visited (gl_ev s))" by (simp add: psubset_card_mono)
    with fresh same show ?thesis by simp
  next
    case (dispatch cur ev1)
    then show ?thesis by (simp add: same count_dispatch_def)
  qed
qed

function guided_loop ::
  "(u8 list \<Rightarrow> u64 \<Rightarrow> cs_insn list) \<Rightarrow> int \<Rightarrow> int \<Rightarrow> guided_loop_state \<Rightarrow> guided_loop_state option" where
  "guided_loop decode max_steps max_vm_insns s =
     (if \<not> gl_steps s < max_steps then Some s
      else do { (s', go) \<leftarrow> guided_step decode max_vm_insns s;
                if go then guided_loop decode max_steps max_vm_insns s' else Some s' })"
  by pat_completeness auto
termination
  by (relation "measures [\<lambda>(decode, ms, mx, s). nat (mx - ge_vm_insn_count (gl_ev s)),
      \<lambda>(decode, ms, mx, s). card (- ge_visited (gl_ev s))]")
    (auto dest!: guided_step_decreases)

declare guided_loop.simps [simp del]

subsection \<open>A run\<close>

text \<open>The loop starts from a concrete stack pointer, the stack as a safe range, and the caller's
  registers.\<close>

definition guided_start :: "GuidedEvaluator \<Rightarrow> GuidedEvaluator" where
  "guided_start ev =
     (let ev = ev\<lparr>ge_state := set_reg ''rsp'' (Const64 0x7FFFFFFFD000) (ge_state ev)\<rparr>;
          ev = guided_safe_range (0x7FFFFFFFD000 - 0x200000) (0x7FFFFFFFD000 + 0x10000) ev
      in ev\<lparr>ge_state := foldl (\<lambda>st (k, v). set_reg k v st) (ge_state ev) (ge_initial_regs ev)\<rparr>)"

definition guided_run ::
  "disassembler \<Rightarrow> u64 \<Rightarrow> int \<Rightarrow> int \<Rightarrow> GuidedEvaluator \<Rightarrow> (EvalReport \<times> GuidedEvaluator) option" where
  "guided_run dis start_va max_steps max_vm_insns ev =
     (let ev = guided_start ev
      in case dis of
           None \<Rightarrow>
             Some (\<lparr>er_result = OUT_OF_BOUNDS, er_stop_va = 0, er_steps = 0, er_vm_insn_count = 0, er_ir_count = 0,
                    er_dispatcher_va = None, er_final_vpc = None\<rparr>, ev)
         | Some decode \<Rightarrow>
             do { s \<leftarrow> guided_loop decode max_steps max_vm_insns
                        \<lparr>gl_ev = ev, gl_steps = 0, gl_va = start_va, gl_result = IN_PROGRESS, gl_final_vpc = None\<rparr>;
                  let result = (if gl_steps s \<ge> max_steps \<and> gl_result s = IN_PROGRESS then MAX_STEPS else gl_result s);
                  (f, _) \<leftarrow> run_to_convergence (ge_func (gl_ev s)) 32;
                  let ev = with_func f (gl_ev s);
                  Some (\<lparr>er_result = result, er_stop_va = gl_va s, er_steps = gl_steps s,
                         er_vm_insn_count = ge_vm_insn_count ev, er_ir_count = length (instrs f),
                         er_dispatcher_va = ge_dispatcher_va ev, er_final_vpc = gl_final_vpc s\<rparr>, ev) })"

subsection \<open>Dumps\<close>

definition dump_vjcc_branches :: "GuidedEvaluator \<Rightarrow> string" where
  "dump_vjcc_branches ev =
     os_str
       ([Str ''=== VJCC Branches ('', Num (length (ge_vjcc_branches ev)), Str ('') ==='' @ nl)]
        @ concat (map (\<lambda>(i, b).
            [Str ''  ['', Num i, Str ''] VA=0x'', Hex, Num (unat (vb_vjcc_va b))]
            @ (case vb_vpc_taken b of Some t \<Rightarrow> [Str '' taken=0x'', Num (unat t)] | None \<Rightarrow> [])
            @ (case vb_vpc_not_taken b of Some t \<Rightarrow> [Str '' not_taken=0x'', Num (unat t)] | None \<Rightarrow> [])
            @ [Str '' explored='', Str (if vb_explored_taken b then ''T'' else ''-''),
               Str (if vb_explored_not_taken b then ''F'' else ''-''), Str nl])
          (List.enumerate 0 (ge_vjcc_branches ev))))"

text \<open>The catalog copies a hash map and sorts the copy by decreasing count with a sort that is not
  stable: the order of the entries before a stable sort is a parameter.\<close>

definition by_count :: "((u64 \<times> int) list \<Rightarrow> (u64 \<times> int) list) \<Rightarrow> (u64 \<times> int) list \<Rightarrow> (u64 \<times> int) list" where
  "by_count hash_order freq = sort_key (\<lambda>(va, cnt). - cnt) (hash_order freq)"

definition dump_handler_catalog :: "((u64 \<times> int) list \<Rightarrow> (u64 \<times> int) list) \<Rightarrow> GuidedEvaluator \<Rightarrow> string" where
  "dump_handler_catalog hash_order ev =
     os_str
       ([Str ''=== Handler Catalog ('', Num (length (ge_handlers ev)), Str '' dispatches, '',
         Num (length (ge_handler_freq ev)), Str ('' unique) ==='' @ nl)]
        @ concat (map (\<lambda>(va, cnt). [Str ''  0x'', Hex, Num (unat va), Str '': '', Dec, SNum cnt, Str ('' times'' @ nl)])
            (by_count hash_order (ge_handler_freq ev))))"

definition vpc_trace_lines :: "nat \<Rightarrow> u64 option list \<Rightarrow> string \<Rightarrow> os_item list" where
  "vpc_trace_lines limit trc indent =
     concat (map (\<lambda>(i, v).
       [Str (indent @ ''[''), Num i, Str ''] '']
       @ (case v of Some x \<Rightarrow> [Str ''0x'', Hex, Num (unat x)] | None \<Rightarrow> [Str ''symbolic''])
       @ [Str nl]) (List.enumerate 0 (take limit trc)))"

definition dump_vpc_trace :: "GuidedEvaluator \<Rightarrow> string" where
  "dump_vpc_trace ev =
     (let trc = ge_vpc_trace ev
      in os_str
        ([Str ''=== VPC Trace ('', Num (length trc), Str ('' entries) ==='' @ nl)]
         @ vpc_trace_lines 100 trc ''  ''
         @ (if length trc > 100 then [Str ''  ... '', Num (length trc - 100), Str ('' more'' @ nl)] else [])))"

end
