(* ===== verification/Segment_Eval.thy ===== *)
theory Segment_Eval
  imports Promotion X64_Lifter CFG_Recovery
begin

section \<open>The segment evaluator (include/deobf/segment_eval.h, src/eval/segment_eval.cpp)\<close>

text \<open>
  A segment is a straight line of machine code: windows of at most 256 bytes are decoded and
  lifted, the function is promoted and folded after every window, and the evaluator goes on as
  long as control leaves the window by a jump it can resolve and is told to follow. The decoder is a
  parameter, as in \<open>X64_Lifter\<close>. The native recovery runs the CFG recovery over this evaluator until no
  new leader is found.

  The step counter and the bound are \<^verbatim>\<open>int\<close>s; an image is shorter than \<open>2 ^ 64\<close> bytes. The result
  \<open>None\<close> is the undefined case of the optimizer (see \<open>Pass_Fold\<close>).
\<close>

datatype SegStop =
  Stop_Ret | Stop_JmpResolved | Stop_JmpUnresolved | Stop_Cjmp | Stop_HitLeader | Stop_Limit | Stop_OutOfBounds

definition seg_stop_name :: "SegStop \<Rightarrow> string" where
  "seg_stop_name s = (case s of
     Stop_Ret \<Rightarrow> ''Ret''
   | Stop_JmpResolved \<Rightarrow> ''JmpResolved''
   | Stop_JmpUnresolved \<Rightarrow> ''JmpUnresolved''
   | Stop_Cjmp \<Rightarrow> ''Cjmp''
   | Stop_Limit \<Rightarrow> ''Limit''
   | Stop_OutOfBounds \<Rightarrow> ''OutOfBounds''
   | _ \<Rightarrow> ''?'')"

record SegmentRun =
  sr_stop :: SegStop
  sr_func :: Function
  sr_exit_regs :: VMState
  sr_stop_va :: u64
  sr_next_va :: u64
  sr_resolved_target :: "u64 option"
  sr_condition :: "Value option"

text \<open>Setting the fields that describe where and why the run stops.\<close>

definition stop_with :: "SegStop \<Rightarrow> SegmentRun \<Rightarrow> SegmentRun" where
  "stop_with s r = r\<lparr>sr_stop := s\<rparr>"

definition stop_at :: "cs_insn \<Rightarrow> SegmentRun \<Rightarrow> SegmentRun" where
  "stop_at i r = r\<lparr>sr_stop_va := insn_address i, sr_next_va := insn_address i + insn_size i\<rparr>"

definition stop_resolved :: "SegStop \<Rightarrow> u64 \<Rightarrow> SegmentRun \<Rightarrow> SegmentRun" where
  "stop_resolved s target r = r\<lparr>sr_stop := s, sr_resolved_target := Some target\<rparr>"

subsection \<open>One window\<close>

datatype window_end = Window_Out | Window_Term | Window_Ret | Window_Leader

text \<open>The loop over the decoded instructions: how it ends (\<open>Window_Term\<close> is \<^verbatim>\<open>term\<close> without
  \<^verbatim>\<open>done\<close>), with the step counter, the lifting state and the run.\<close>

fun lift_window ::
  "u64 set option \<Rightarrow> u64 \<Rightarrow> int \<Rightarrow> cs_insn list \<Rightarrow> int \<Rightarrow> LiftState \<Rightarrow> SegmentRun
   \<Rightarrow> window_end \<times> int \<times> LiftState \<times> SegmentRun" where
  "lift_window leaders start_va max_steps [] steps st r = (Window_Out, steps, st, r)"
| "lift_window leaders start_va max_steps (i # is) steps st r =
     (if (case leaders of Some L \<Rightarrow> insn_address i \<noteq> start_va \<and> insn_address i \<in> L | None \<Rightarrow> False) then
        (Window_Leader, steps, st,
         r\<lparr>sr_stop := Stop_HitLeader, sr_stop_va := insn_address i, sr_next_va := insn_address i,
           sr_resolved_target := Some (insn_address i)\<rparr>)
      else
        (let st = lift_insn i st; steps = steps + 1; m = mnemonic i
         in if m = ''ret'' then (Window_Ret, steps, st, stop_with Stop_Ret (stop_at i r))
            else if take 1 m = ''j'' \<or> m = ''call'' then (Window_Term, steps, st, stop_at i r)
            else if steps \<ge> max_steps then (Window_Term, steps, st, r)
            else lift_window leaders start_va max_steps is steps st r))"

text \<open>The backward search for the branch that ended the window: the constant target of the last
  jump or call, or the condition and constant target of a later conditional jump.\<close>

fun find_branch ::
  "Instruction list \<Rightarrow> (u32 \<Rightarrow> nat option) \<Rightarrow> Instruction list \<Rightarrow> (u64 option \<times> Value option) option" where
  "find_branch vec im [] = Some (None, None)"
| "find_branch vec im (i # is) =
     (if op i = Op_JMP \<or> op i = Op_CALL then
        (if operands i \<noteq> [] then
           do { t \<leftarrow> resolved_const vec im (operands i ! 0); Some (t, None) }
         else Some (None, None))
      else if op i = Op_CJMP \<and> operands i \<noteq> [] then
        Some (if \<not> is_const (operands i ! 0) then
                (if 2 \<le> length (operands i) then map_option fst (get_const (operands i ! 1)) else None,
                 Some (operands i ! 0))
              else (None, None))
      else find_branch vec im is)"

definition resolve_branch :: "Function \<Rightarrow> (u64 option \<times> Value option) option" where
  "resolve_branch f = find_branch (instrs f) (build_instr_map (instrs f)) (rev (instrs f))"

definition disasm_window :: "(u8 list \<Rightarrow> u64 \<Rightarrow> cs_insn list) \<Rightarrow> u8 list \<Rightarrow> u64 \<Rightarrow> u64 \<Rightarrow> cs_insn list" where
  "disasm_window decode img base va = decode (take 256 (drop (unat (va - base)) img)) va"

subsection \<open>The segment\<close>

text \<open>What the loop changes: the steps, the lifting state with the function, the memory, the run.\<close>

record seg_state =
  ss_steps :: int
  ss_lift :: LiftState
  ss_memory :: ByteMemory
  ss_run :: SegmentRun

text \<open>After a window: promote and fold, then decide; \<open>Inr\<close> is the address to go on at.\<close>

definition after_window ::
  "u8 list \<Rightarrow> u64 \<Rightarrow> bool \<Rightarrow> window_end \<times> int \<times> LiftState \<times> SegmentRun \<Rightarrow> ByteMemory
   \<Rightarrow> (seg_state \<times> u64 option) option" where
  "after_window img base follow_direct_jmps w memory =
     (case w of (how, steps, st, r) \<Rightarrow>
        do { (f, memory) \<leftarrow> promote_and_optimize (func st) memory;
             let s = (\<lambda>r. \<lparr>ss_steps = steps, ss_lift = st\<lparr>func := f\<rparr>, ss_memory = memory, ss_run = r\<rparr>);
             if how = Window_Ret \<or> how = Window_Leader then Some (s r, None)
             else if how = Window_Out then Some (s (stop_with Stop_Limit r), None)
             else do { (target, cond) \<leftarrow> resolve_branch f;
                       Some (if cond \<noteq> None then
                               (s (r\<lparr>sr_stop := Stop_Cjmp, sr_condition := cond, sr_resolved_target := target\<rparr>), None)
                             else case target of
                               None \<Rightarrow> (s (stop_with Stop_JmpUnresolved r), None)
                             | Some t \<Rightarrow>
                                 if \<not> unat (t - base) < length img then (s (stop_resolved Stop_JmpResolved t r), None)
                                 else if \<not> follow_direct_jmps then (s (stop_resolved Stop_JmpResolved t r), None)
                                 else (s r, Some t)) } })"

text \<open>The loop ends because every round visits an address it has not visited before.\<close>

function segment_loop ::
  "(u8 list \<Rightarrow> u64 \<Rightarrow> cs_insn list) \<Rightarrow> u8 list \<Rightarrow> u64 \<Rightarrow> u64 \<Rightarrow> int \<Rightarrow> bool \<Rightarrow> u64 set option
   \<Rightarrow> u64 \<Rightarrow> u64 set \<Rightarrow> seg_state \<Rightarrow> seg_state option" where
  "segment_loop decode img base start_va max_steps follow leaders va visited s =
     (if \<not> ss_steps s < max_steps then Some s
      else if va \<in> visited then Some (s\<lparr>ss_run := stop_with Stop_Limit (ss_run s)\<rparr>)
      else if \<not> unat (va - base) < length img then Some (s\<lparr>ss_run := stop_with Stop_OutOfBounds (ss_run s)\<rparr>)
      else
        (case disasm_window decode img base va of
           [] \<Rightarrow> Some (s\<lparr>ss_run := stop_with Stop_OutOfBounds (ss_run s)\<rparr>)
         | is \<Rightarrow>
             do { (s', next) \<leftarrow> after_window img base follow
                    (lift_window leaders start_va max_steps is (ss_steps s) (ss_lift s) (ss_run s)) (ss_memory s);
                  case next of
                    None \<Rightarrow> Some s'
                  | Some va' \<Rightarrow>
                      segment_loop decode img base start_va max_steps follow leaders va' (insert va visited) s' }))"
  by pat_completeness auto
termination
proof (relation "measure (\<lambda>(decode, img, base, start_va, max_steps, follow, leaders, va, visited, s). card (- visited))",
    goal_cases)
  case (2 decode img base start_va max_steps follow leaders va visited s)
  then have "- insert va visited \<subset> - visited" by blast
  then show ?case by (simp add: psubset_card_mono)
qed simp

declare segment_loop.simps [simp del]

definition exit_registers :: "Function \<Rightarrow> VMState \<Rightarrow> VMState option" where
  "exit_registers f rs =
     those (map (\<lambda>(k, v). map_option (Pair k) (resolve (instrs f) (build_instr_map (instrs f)) v)) rs)"

definition initial_segment :: "u32 \<Rightarrow> VMState \<Rightarrow> ByteMemory \<Rightarrow> seg_state" where
  "initial_segment id_base in_regs memory =
     (let f = set_next_id id_base (new_function ''segment'')
      in \<lparr>ss_steps = 0,
          ss_lift = foldl (\<lambda>st (k, v). set_reg k v st) (new_lift_state f 0x7FFFFFFFD000) in_regs,
          ss_memory = memory,
          ss_run = \<lparr>sr_stop = Stop_OutOfBounds, sr_func = f, sr_exit_regs = [], sr_stop_va = 0, sr_next_va = 0,
                    sr_resolved_target = None, sr_condition = None\<rparr>\<rparr>)"

definition lift_and_optimize_segment ::
  "disassembler \<Rightarrow> u8 list \<Rightarrow> u64 \<Rightarrow> u64 \<Rightarrow> VMState \<Rightarrow> ByteMemory \<Rightarrow> int \<Rightarrow> u32 \<Rightarrow> bool \<Rightarrow> u64 set option
   \<Rightarrow> (SegmentRun \<times> ByteMemory) option" where
  "lift_and_optimize_segment dis img base start_va in_regs memory max_steps id_base follow_direct_jmps leaders =
     (let s = initial_segment id_base in_regs memory
      in case dis of
           None \<Rightarrow> Some (ss_run s, memory)
         | Some decode \<Rightarrow>
             do { s \<leftarrow> segment_loop decode img base start_va max_steps follow_direct_jmps leaders start_va {} s;
                  let r = (if ss_steps s \<ge> max_steps \<and> sr_stop (ss_run s) = Stop_OutOfBounds
                           then stop_with Stop_Limit (ss_run s) else ss_run s);
                  f \<leftarrow> fold_converge (func (ss_lift s)) 32;
                  rs \<leftarrow> exit_registers f (regs (ss_lift s));
                  Some (r\<lparr>sr_func := f, sr_exit_regs := rs\<rparr>, ss_memory s) })"

subsection \<open>Native recovery\<close>

text \<open>The oracle keeps the next free id and the leaders discovered so far.\<close>

definition native_oracle ::
  "disassembler \<Rightarrow> u8 list \<Rightarrow> u64 \<Rightarrow> u64 set \<Rightarrow> (u32 \<times> u64 set) segment_oracle" where
  "native_oracle dis img base leaders = (\<lambda>(free_id, discovered) va inp.
     do { (sr, _) \<leftarrow> lift_and_optimize_segment dis img base va inp empty_memory 8000 free_id False (Some leaders);
          let res = default_segment\<lparr>seg_instrs := instrs (sr_func sr)\<rparr>;
          let out = sr_exit_regs sr;
          let free_id = next_id (sr_func sr);
          let unresolved = (res\<lparr>seg_kind := Seg_Unresolved\<rparr>, (free_id, discovered));
          Some (case sr_stop sr of
                  Stop_Ret \<Rightarrow> (res\<lparr>seg_kind := Seg_Ret, out_state := out\<rparr>, (free_id, discovered))
                | Stop_Cjmp \<Rightarrow>
                    (case sr_resolved_target sr of
                       Some t \<Rightarrow> (res\<lparr>seg_kind := Seg_Branch, seg_condition := sr_condition sr, vpc_taken := Some t,
                                    vpc_not_taken := Some (sr_next_va sr), out_state_taken := out,
                                    out_state_not_taken := out\<rparr>,
                                (free_id, insert (sr_next_va sr) (insert t discovered)))
                     | None \<Rightarrow> unresolved)
                | s \<Rightarrow>
                    if s = Stop_HitLeader \<or> s = Stop_JmpResolved then
                      (case sr_resolved_target sr of
                         Some t \<Rightarrow> (res\<lparr>seg_kind := Seg_Goto, next_vpc := Some t, out_state := out\<rparr>,
                                    (free_id, insert t discovered))
                       | None \<Rightarrow> unresolved)
                    else unresolved) })"

definition native_config :: "u64 \<Rightarrow> int \<Rightarrow> CFGRecoveryConfig" where
  "native_config entry_va max_blks =
     \<lparr>entry_vpc = entry_va, max_blocks = max_blks, tracked_regs = [], full_ssa = False\<rparr>"

text \<open>The passes of the leader fixpoint that are left, from a set of leaders.\<close>

fun native_passes ::
  "disassembler \<Rightarrow> u8 list \<Rightarrow> u64 \<Rightarrow> u64 \<Rightarrow> int \<Rightarrow> nat \<Rightarrow> u64 set \<Rightarrow> CFGFunction \<Rightarrow> CFGFunction option" where
  "native_passes dis img base entry_va max_blks 0 leaders cfg = Some cfg"
| "native_passes dis img base entry_va max_blks (Suc n) leaders cfg =
     do { (cfg, (_, discovered)) \<leftarrow>
            recover (native_oracle dis img base leaders) (native_config entry_va max_blks) [] (1, leaders);
          if card discovered = card leaders then Some cfg
          else native_passes dis img base entry_va max_blks n discovered cfg }"

definition stack_rewrite_blocks :: "BasicBlock list \<Rightarrow> BasicBlock list option" where
  "stack_rewrite_blocks bs =
     those (map (\<lambda>b. map_option (\<lambda>(is, _). b\<lparr>bb_instrs := is\<rparr>) (stack_rewrite_instrs (bb_instrs b) 0x7FFFFFFFD000)) bs)"

definition recover_native_cfg :: "disassembler \<Rightarrow> u8 list \<Rightarrow> u64 \<Rightarrow> u64 \<Rightarrow> int \<Rightarrow> CFGFunction option" where
  "recover_native_cfg dis img base entry_va max_blks =
     do { cfg \<leftarrow> native_passes dis img base entry_va max_blks 64 {entry_va} (new_cfg ''native'');
          bs \<leftarrow> stack_rewrite_blocks (cfg_blocks cfg);
          Some (cfg\<lparr>cfg_blocks := bs\<rparr>) }"

end
