(* ===== verification/Lifter_Correct.thy ===== *)
theory Lifter_Correct
  imports X64_Lifter Convergence
begin

section \<open>What the lifter guarantees\<close>

text \<open>
  Lifted code is in single-assignment form, which is what the optimizer passes are proved for,
  and, for the instructions and operand forms on which the lifter is right, it computes what
  the instruction does: a reference semantics of 64-bit x86 code is refined by the IR.
\<close>

subsection \<open>The invariant of a lifting state\<close>

text \<open>
  A lifting run numbers its instructions from \<open>lb_base\<close>; \<open>lb_ext\<close> are the ids that
  values injected from outside may name, and \<open>lb_limit\<close> bounds the number of instructions,
  so that no number is reused.
\<close>

record bounds =
  lb_base :: u32
  lb_limit :: nat
  lb_ext :: "u32 set"

definition bounds_ok :: "bounds \<Rightarrow> bool" where
  "bounds_ok B \<longleftrightarrow> lb_limit B \<le> 2 ^ 32 \<and> (\<forall>k < lb_limit B. lb_base B + of_nat k \<notin> lb_ext B)"

abbreviation n_emitted :: "LiftState \<Rightarrow> nat" where
  "n_emitted st \<equiv> length (instrs (func st))"

definition known_ids :: "bounds \<Rightarrow> nat \<Rightarrow> u32 set" where
  "known_ids B n = lb_ext B \<union> (\<lambda>k. lb_base B + of_nat k) ` {..<n}"

definition val_ok :: "bounds \<Rightarrow> LiftState \<Rightarrow> Value \<Rightarrow> bool" where
  "val_ok B st v \<longleftrightarrow> (\<forall>j. v = InstrRef j \<longrightarrow> j \<in> known_ids B (n_emitted st))"

definition lift_ok :: "bounds \<Rightarrow> LiftState \<Rightarrow> bool" where
  "lift_ok B st \<longleftrightarrow>
     bounds_ok B \<and> n_emitted st \<le> lb_limit B
     \<and> next_id (func st) = lb_base B + of_nat (n_emitted st)
     \<and> map result_id (instrs (func st)) = map (\<lambda>k. lb_base B + of_nat k) [0..<n_emitted st]
     \<and> (\<forall>i \<in> set (instrs (func st)). set (ref_ids i) \<subseteq> known_ids B (n_emitted st))
     \<and> ssa (instrs (func st))
     \<and> (\<forall>nv \<in> set (regs st). val_ok B st (snd nv))"

lemma known_ids_mono: "m \<le> n \<Longrightarrow> known_ids B m \<subseteq> known_ids B n"
  by (auto simp: known_ids_def)

lemma val_ok_simps [simp]:
  "val_ok B st (Const c b)" "val_ok B st (SymReg n)" "val_ok B st (SymMem r b)"
  by (simp_all add: val_ok_def)

lemma next_id_fresh:
  assumes "lift_ok B st" "n_emitted st < lb_limit B"
  shows "next_id (func st) \<notin> known_ids B (n_emitted st)"
proof
  assume "next_id (func st) \<in> known_ids B (n_emitted st)"
  moreover have "next_id (func st) \<notin> lb_ext B"
    using assms by (simp add: lift_ok_def bounds_ok_def)
  ultimately obtain k where k: "k < n_emitted st" "lb_base B + of_nat (n_emitted st) = lb_base B + of_nat k"
    using assms(1) by (auto simp: known_ids_def lift_ok_def)
  have "n_emitted st < 2 ^ 32" using assms by (auto simp: lift_ok_def bounds_ok_def)
  then have "unat (of_nat (n_emitted st) :: u32) = n_emitted st" "unat (of_nat k :: u32) = k"
    using k(1) by (simp_all add: unat_of_nat)
  with k show False by (metis add_left_cancel nat_neq_iff)
qed

lemma emit_ref_fields:
  assumes "emit_ref x vs ann st = (v, st')"
  shows "v = InstrRef (next_id (func st))" "regs st' = regs st"
    "instrs (func st') = instrs (func st) @ [\<lparr>op = x, operands = vs, result_id = next_id (func st), annotations = ann\<rparr>]"
    "next_id (func st') = next_id (func st) + 1"
  using assms by (auto simp: emit_ref_def emit_def Let_def ref_def)

definition lx :: "env \<Rightarrow> state \<Rightarrow> LiftState \<Rightarrow> state" where
  "lx E s st = exec E s (instrs (func st))"

text \<open>
  \<open>extends B E s k st st'\<close>: \<open>st'\<close> has at most \<open>k\<close> instructions more than \<open>st\<close>, the
  register file is the same, and every value known before still has the value it had.
\<close>

definition extends :: "bounds \<Rightarrow> env \<Rightarrow> state \<Rightarrow> nat \<Rightarrow> LiftState \<Rightarrow> LiftState \<Rightarrow> bool" where
  "extends B E s k st st' \<longleftrightarrow>
     lift_ok B st' \<and> regs st' = regs st \<and> n_emitted st' \<le> n_emitted st + k
     \<and> (\<forall>u. val_ok B st u \<longrightarrow> val_ok B st' u \<and> eval_val E (lx E s st') u = eval_val E (lx E s st) u)"

lemma extendsD:
  assumes "extends B E s k st st'"
  shows "lift_ok B st'" "regs st' = regs st" "n_emitted st' \<le> n_emitted st + k"
    "val_ok B st u \<Longrightarrow> val_ok B st' u"
    "val_ok B st u \<Longrightarrow> eval_val E (lx E s st') u = eval_val E (lx E s st) u"
  using assms by (simp_all add: extends_def)

lemma extends_refl: "lift_ok B st \<Longrightarrow> extends B E s 0 st st"
  by (simp add: extends_def)

lemma extends_trans:
  "extends B E s k st st' \<Longrightarrow> extends B E s l st' st'' \<Longrightarrow> extends B E s (k + l) st st''"
  by (auto simp: extends_def)

lemma extends_le: "extends B E s k st st' \<Longrightarrow> k \<le> l \<Longrightarrow> extends B E s l st st'"
  by (auto simp: extends_def)

lemma emit_ref_step:
  assumes "emit_ref x vs ann st = (v, st')" "lift_ok B st" "\<forall>u \<in> set vs. val_ok B st u"
    and "n_emitted st < lb_limit B"
  shows "extends B E s 1 st st'" "val_ok B st' v"
    "eval_val E (lx E s st') v = result_of E (mem (lx E s st)) x (map (eval_val E (lx E s st)) vs)"
    "mem (lx E s st') = memory_after E (mem (lx E s st)) x (map (eval_val E (lx E s st)) vs)"
    "trace (lx E s st') = trace (lx E s st) @ events_of x (map (eval_val E (lx E s st)) vs)"
proof -
  let ?n = "n_emitted st" and ?i = "\<lparr>op = x, operands = vs, result_id = next_id (func st), annotations = ann\<rparr>"
  note f = emit_ref_fields [OF assms(1)]
  have lx': "lx E s st' = exec_instr E (lx E s st) ?i" by (simp add: lx_def f(3))
  have fresh: "next_id (func st) \<notin> known_ids B ?n" by (rule next_id_fresh [OF assms(2,4)])
  have known: "val_ok B st u \<Longrightarrow> val_ok B st' u" for u
    using known_ids_mono [of ?n "Suc ?n" B] by (auto simp: val_ok_def f(3))
  have refs: "set (ref_ids ?i) \<subseteq> known_ids B ?n"
    using assms(3) by (auto simp: set_ref_ids val_ok_def)
  have "ids (instrs (func st)) \<subseteq> known_ids B ?n"
  proof -
    have "set (map result_id (instrs (func st))) \<subseteq> known_ids B ?n"
      using assms(2) by (simp add: lift_ok_def known_ids_def image_Un lessThan_atLeast0)
    then show ?thesis by simp
  qed
  then have "ssa (instrs (func st'))"
    using assms(2) fresh refs unfolding lift_ok_def f(3) ssa_append
    by (fastforce simp: ssa_Cons_iff simp del: ssa.simps(2))
  then have "lift_ok B st'"
    using assms(2,4) refs known subset_trans [OF _ known_ids_mono [of ?n "Suc ?n" B]]
    unfolding lift_ok_def by (auto simp: f)
  moreover have "eval_val E (lx E s st') u = eval_val E (lx E s st) u" if "val_ok B st u" for u
  proof -
    have "u \<noteq> InstrRef (result_id ?i)" using that fresh by (auto simp: val_ok_def)
    then show ?thesis unfolding lx' by (rule eval_val_exec_instr)
  qed
  ultimately show "extends B E s 1 st st'" using known by (simp add: extends_def f)
  show "val_ok B st' v"
    using assms(2) by (auto simp: val_ok_def known_ids_def f lift_ok_def)
  show "eval_val E (lx E s st') v = result_of E (mem (lx E s st)) x (map (eval_val E (lx E s st)) vs)"
    "mem (lx E s st') = memory_after E (mem (lx E s st)) x (map (eval_val E (lx E s st)) vs)"
    "trace (lx E s st') = trace (lx E s st) @ events_of x (map (eval_val E (lx E s st)) vs)"
    unfolding lx' by (simp_all add: f(1))
qed

lemma get_reg_ok: "lift_ok B st \<Longrightarrow> val_ok B st (get_reg st n)"
  by (auto simp: get_reg_def lift_ok_def split: option.splits dest!: map_of_SomeD)

lemma set_reg_func [simp]: "func (set_reg n v st) = func st"
  by (simp add: set_reg_def)

lemma set_reg_ok:
  assumes "lift_ok B st" "val_ok B st v"
  shows "lift_ok B (set_reg n v st)"
proof -
  have val: "val_ok B (set_reg n v st) = val_ok B st" by (rule ext) (simp add: val_ok_def)
  have "set (AList.update n v xs) \<subseteq> insert (n, v) (set xs)" for xs :: "(string \<times> Value) list"
    by (induction xs) auto
  then have "nv \<in> set (regs (set_reg n v st)) \<Longrightarrow> nv = (n, v) \<or> nv \<in> set (regs st)" for nv
    by (auto simp: set_reg_def)
  then have "\<forall>nv \<in> set (regs (set_reg n v st)). val_ok B st (snd nv)"
    using assms unfolding lift_ok_def by fastforce
  with assms(1) show ?thesis by (simp add: lift_ok_def val)
qed

lemma get_reg_set_reg [simp]: "get_reg (set_reg n v st) m = (if m = n then v else get_reg st m)"
  by (simp add: get_reg_def set_reg_def map_of_update)

lemma lx_set_reg [simp]: "lx E s (set_reg n v st) = lx E s st"
  by (simp add: lx_def)

lemma get_reg_extends: "extends B E s k st st' \<Longrightarrow> get_reg st' n = get_reg st n"
  by (simp add: extends_def get_reg_def)

lemma set_dst_ok: "lift_ok B st \<Longrightarrow> val_ok B st v \<Longrightarrow> lift_ok B (set_dst d v st)"
  by (auto simp: set_dst_def set_reg_ok split: x86_op.splits)

lemma set_dst_func [simp]: "func (set_dst d v st) = func st"
  by (simp add: set_dst_def split: x86_op.splits)

subsection \<open>Every instruction keeps the invariant\<close>

lemma mem_base_value_ok: "lift_ok B st \<Longrightarrow> val_ok B st (mem_base_value insn base st)"
  by (simp add: mem_base_value_def get_reg_ok)

lemma emit_ref_ext:
  assumes "emit_ref x vs ann st = (v, st')" "extends B E s k st0 st" "\<forall>u \<in> set vs. val_ok B st u"
    and "n_emitted st0 + k < lb_limit B"
  shows "extends B E s (k + 1) st0 st'" "val_ok B st' v" "extends B E s 1 st st'"
proof -
  have "lift_ok B st" "n_emitted st < lb_limit B"
    using extendsD(1,3) [OF assms(2)] assms(4) by auto
  note e = emit_ref_step(1) [OF assms(1) this(1) assms(3) this(2), of E s]
    emit_ref_step(2) [OF assms(1) this(1) assms(3) this(2)]
  show "extends B E s (k + 1) st0 st'" by (rule extends_trans [OF assms(2) e(1)])
  show "val_ok B st' v" "extends B E s 1 st st'" by (rule e)+
qed

lemma add_index_ext:
  assumes "add_index index scale addr st = (v, st')" "extends B E s k st0 st" "val_ok B st addr"
    and "n_emitted st0 + k + 1 < lb_limit B"
  shows "extends B E s (k + 2) st0 st'" "val_ok B st' v"
proof -
  have ok: "lift_ok B st" by (rule extendsD(1) [OF assms(2)])
  have "extends B E s (k + 2) st0 st' \<and> val_ok B st' v"
  proof (cases "index = RegInvalid")
    case True
    with assms show ?thesis by (auto simp: add_index_def intro: extends_le)
  next
    case False
    obtain sc st1 where e1: "emit_ref Op_MUL [get_reg st (reg_name index), Const64 scale] [] st = (sc, st1)"
      by fastforce
    with assms(1) False have e2: "emit_ref Op_ADD [addr, sc] [] st1 = (v, st')"
      by (simp add: add_index_def)
    have "\<forall>u \<in> set [get_reg st (reg_name index), Const64 scale]. val_ok B st u"
      using get_reg_ok [OF ok] by simp
    note a = emit_ref_ext [OF e1 assms(2) this] assms(4)
    then have x1: "extends B E s (k + 1) st0 st1" "val_ok B st1 sc" "extends B E s 1 st st1" by simp_all
    have "\<forall>u \<in> set [addr, sc]. val_ok B st1 u"
      using x1 extendsD(4) [OF x1(3) assms(3)] by simp
    from emit_ref_ext [OF e2 x1(1) this] assms(4) show ?thesis by simp
  qed
  then show "extends B E s (k + 2) st0 st'" "val_ok B st' v" by simp_all
qed

lemma op_value_ext:
  assumes "op_value insn idx st = (v, st')" "extends B E s k st0 st" "n_emitted st0 + k + 3 < lb_limit B"
  shows "extends B E s (k + 4) st0 st'" "val_ok B st' v"
proof -
  have ok: "lift_ok B st" by (rule extendsD(1) [OF assms(2)])
  have le: "extends B E s (k + 4) st0 st" by (rule extends_le [OF assms(2)]) simp
  have "extends B E s (k + 4) st0 st' \<and> val_ok B st' v"
  proof (cases "x86_operands insn ! idx")
    case (X86_OP_MEM base index scale disp)
    obtain a1 st1 where e1: "emit_ref Op_ADD [mem_base_value insn base st, Const64 disp] [(''addr_calc'', ''1'')] st = (a1, st1)"
      by fastforce
    obtain a2 st2 where e2: "add_index index scale a1 st1 = (a2, st2)" by fastforce
    have e3: "emit_ref Op_LOAD [a2] [va_ann insn] st2 = (v, st')"
      using assms(1) e1 e2 X86_OP_MEM by (simp add: op_value_def)
    have "\<forall>u \<in> set [mem_base_value insn base st, Const64 disp]. val_ok B st u"
      using mem_base_value_ok [OF ok] by simp
    from emit_ref_ext(1,2) [OF e1 assms(2) this] assms(3)
    have x1: "extends B E s (k + 1) st0 st1" "val_ok B st1 a1" by simp_all
    from add_index_ext [OF e2 x1] assms(3)
    have x2: "extends B E s (k + 3) st0 st2" "val_ok B st2 a2" by (simp_all add: eval_nat_numeral)
    from emit_ref_ext(1,2) [OF e3 x2(1)] x2(2) assms(3) show ?thesis by (simp add: add.commute)
  qed (use assms(1) le get_reg_ok [OF ok] in \<open>auto simp: op_value_def split: if_splits\<close>)
  then show "extends B E s (k + 4) st0 st'" "val_ok B st' v" by simp_all
qed

lemma dst_address_ext:
  assumes "dst_address base disp st = (v, st')" "extends B E s k st0 st" "n_emitted st0 + k < lb_limit B"
  shows "extends B E s (k + 1) st0 st'" "val_ok B st' v" "extends B E s 1 st st'"
proof -
  have "lift_ok B st" by (rule extendsD(1) [OF assms(2)])
  then have "\<forall>u \<in> set [if base \<noteq> RegInvalid then get_reg st (reg_name base) else Const64 0, Const64 disp].
      val_ok B st u"
    by (simp add: get_reg_ok)
  from emit_ref_ext [OF assms(1) [unfolded dst_address_def] assms(2) this assms(3)]
  show "extends B E s (k + 1) st0 st'" "val_ok B st' v" "extends B E s 1 st st'" .
qed

text \<open>
  The cases of \<open>lift_insn\<close> are chains of these operations that end in an update of the
  register file; no case emits more than ten instructions.
\<close>

definition keeps :: "bounds \<Rightarrow> LiftState \<Rightarrow> LiftState \<Rightarrow> bool" where
  "keeps B st0 st \<longleftrightarrow> lift_ok B st \<and> n_emitted st \<le> n_emitted st0 + 10"

definition reach :: "bounds \<Rightarrow> nat \<Rightarrow> LiftState \<Rightarrow> LiftState \<Rightarrow> bool" where
  "reach B k st0 st \<longleftrightarrow>
     n_emitted st0 + 10 \<le> lb_limit B \<and> lift_ok B st \<and> n_emitted st \<le> n_emitted st0 + k"

lemma chain:
  assumes "reach B k st0 st" "k + l \<le> 10"
    and "\<And>E s. n_emitted st + l \<le> lb_limit B \<Longrightarrow> extends B E s l st st' \<and> val_ok B st' v"
  shows "reach B (k + l) st0 st'" "val_ok B st' v" "\<forall>u. val_ok B st u \<longrightarrow> val_ok B st' u"
proof -
  have "n_emitted st + l \<le> lb_limit B" using assms(1,2) by (simp add: reach_def)
  note x = assms(3) [OF this, THEN conjunct1] assms(3) [OF this, THEN conjunct2]
  show "reach B (k + l) st0 st'" using assms(1) extendsD(1,3) [OF x(1)] by (simp add: reach_def)
  show "val_ok B st' v" by (rule x(2))
  show "\<forall>u. val_ok B st u \<longrightarrow> val_ok B st' u" using extendsD(4) [OF x(1)] by blast
qed

lemma emit_wp:
  assumes "reach B k st0 st" "k + 1 \<le> 10" "\<forall>u \<in> set vs. val_ok B st u"
    and "\<And>v st'. reach B (k + 1) st0 st' \<Longrightarrow> val_ok B st' v \<Longrightarrow>
        \<forall>u. val_ok B st u \<longrightarrow> val_ok B st' u \<Longrightarrow> keeps B st0 (f v st')"
  shows "keeps B st0 (case emit_ref x vs ann st of (v, st') \<Rightarrow> f v st')"
proof -
  obtain v st' where e: "emit_ref x vs ann st = (v, st')" by fastforce
  have ok: "lift_ok B st" using assms(1) by (simp add: reach_def)
  have "n_emitted st + 1 \<le> lb_limit B \<Longrightarrow> extends B E s 1 st st' \<and> val_ok B st' v" for E s
    using emit_ref_step(1,2) [OF e ok assms(3)] by simp
  note c = chain [OF assms(1,2) this]
  with e show ?thesis by (simp add: assms(4))
qed

lemma op_value_wp:
  assumes "reach B k st0 st" "k + 4 \<le> 10"
    and "\<And>v st'. reach B (k + 4) st0 st' \<Longrightarrow> val_ok B st' v \<Longrightarrow>
        \<forall>u. val_ok B st u \<longrightarrow> val_ok B st' u \<Longrightarrow> keeps B st0 (f v st')"
  shows "keeps B st0 (case op_value insn idx st of (v, st') \<Rightarrow> f v st')"
proof -
  obtain v st' where e: "op_value insn idx st = (v, st')" by fastforce
  have ok: "lift_ok B st" using assms(1) by (simp add: reach_def)
  have "n_emitted st + 4 \<le> lb_limit B \<Longrightarrow> extends B E s 4 st st' \<and> val_ok B st' v" for E s
    using op_value_ext(1) [OF e extends_refl [OF ok], of E s] op_value_ext(2) [OF e extends_refl [OF ok]] by simp
  note c = chain [OF assms(1,2) this]
  with e show ?thesis by (simp add: assms(3))
qed

lemma add_index_wp:
  assumes "reach B k st0 st" "k + 2 \<le> 10" "val_ok B st addr"
    and "\<And>v st'. reach B (k + 2) st0 st' \<Longrightarrow> val_ok B st' v \<Longrightarrow>
        \<forall>u. val_ok B st u \<longrightarrow> val_ok B st' u \<Longrightarrow> keeps B st0 (f v st')"
  shows "keeps B st0 (case add_index index scale addr st of (v, st') \<Rightarrow> f v st')"
proof -
  obtain v st' where e: "add_index index scale addr st = (v, st')" by fastforce
  have ok: "lift_ok B st" using assms(1) by (simp add: reach_def)
  have "n_emitted st + 2 \<le> lb_limit B \<Longrightarrow> extends B E s 2 st st' \<and> val_ok B st' v" for E s
    using add_index_ext(1) [OF e extends_refl [OF ok] assms(3), of E s]
      add_index_ext(2) [OF e extends_refl [OF ok] assms(3)] by (simp add: numeral_2_eq_2)
  note c = chain [OF assms(1,2) this]
  with e show ?thesis by (simp add: assms(4))
qed

lemma dst_address_wp:
  assumes "reach B k st0 st" "k + 1 \<le> 10"
    and "\<And>v st'. reach B (k + 1) st0 st' \<Longrightarrow> val_ok B st' v \<Longrightarrow>
        \<forall>u. val_ok B st u \<longrightarrow> val_ok B st' u \<Longrightarrow> keeps B st0 (f v st')"
  shows "keeps B st0 (case dst_address base disp st of (v, st') \<Rightarrow> f v st')"
proof -
  obtain v st' where e: "dst_address base disp st = (v, st')" by fastforce
  have ok: "lift_ok B st" using assms(1) by (simp add: reach_def)
  have "n_emitted st + 1 \<le> lb_limit B \<Longrightarrow> extends B E s 1 st st' \<and> val_ok B st' v" for E s
    using dst_address_ext(1) [OF e extends_refl [OF ok], of E s] dst_address_ext(2) [OF e extends_refl [OF ok]] by simp
  note c = chain [OF assms(1,2) this]
  with e show ?thesis by (simp add: assms(3))
qed

lemma keeps_reach: "reach B k st0 st \<Longrightarrow> k \<le> 10 \<Longrightarrow> keeps B st0 st"
  by (auto simp: reach_def keeps_def)

lemma emit_snd_wp:
  assumes "reach B k st0 st" "k + 1 \<le> 10" "\<forall>u \<in> set vs. val_ok B st u"
  shows "keeps B st0 (snd (emit_ref x vs ann st))"
  unfolding snd_def by (rule emit_wp [OF assms]) (use assms(2) in \<open>simp add: keeps_reach\<close>)

lemma reach_set_reg: "reach B k st0 st \<Longrightarrow> val_ok B st v \<Longrightarrow> reach B k st0 (set_reg n v st)"
  by (simp add: reach_def set_reg_ok)

lemma keeps_set_reg: "reach B k st0 st \<Longrightarrow> k \<le> 10 \<Longrightarrow> val_ok B st v \<Longrightarrow> keeps B st0 (set_reg n v st)"
  by (auto intro: keeps_reach reach_set_reg)

lemma keeps_set_dst: "reach B k st0 st \<Longrightarrow> k \<le> 10 \<Longrightarrow> val_ok B st v \<Longrightarrow> keeps B st0 (set_dst d v st)"
  by (auto simp: reach_def keeps_def set_dst_ok)

lemma val_ok_set_reg [simp]: "val_ok B (set_reg n v st) = val_ok B st"
  by (rule ext) (simp add: val_ok_def)

lemma get_reg_reach: "reach B k st0 st \<Longrightarrow> val_ok B st (get_reg st n)"
  by (simp add: reach_def get_reg_ok)

lemma mem_base_reach: "reach B k st0 st \<Longrightarrow> val_ok B st (mem_base_value insn base st)"
  by (simp add: reach_def mem_base_value_ok)

lemmas lift_wp = op_value_wp add_index_wp dst_address_wp emit_snd_wp emit_wp keeps_set_reg keeps_set_dst
lemmas lift_handlers = lift_push_def lift_pop_def lift_mov_def lift_lea_def lift_binop_def lift_unop_def
  lift_inc_dec_def lift_call_def lift_ret_def lift_jmp_def lift_pushfq_def lift_popfq_def lift_flags_def
  lift_jcc_def lift_xchg_def lift_cdqe_def lift_extend_def lift_setcc_def lift_cmov_def lift_unsupported_def

lemma lift_cases_keep:
  assumes "reach B 0 st st"
  shows "keeps B st (lift_push insn st)" "keeps B st (lift_pop insn st)" "keeps B st (lift_mov insn st)"
    "keeps B st (lift_lea insn st)" "keeps B st (lift_binop x insn st)" "keeps B st (lift_unop x insn st)"
    "keeps B st (lift_inc_dec insn st)" "keeps B st (lift_call insn st)" "keeps B st (lift_ret insn st)"
    "keeps B st (lift_jmp insn st)" "keeps B st (lift_pushfq insn st)" "keeps B st (lift_popfq insn st)"
    "keeps B st (lift_flags x insn st)" "keeps B st (lift_jcc insn st)" "keeps B st (lift_xchg insn st)"
    "keeps B st (lift_cdqe insn st)" "keeps B st (lift_extend x insn st)" "keeps B st (lift_setcc insn st)"
    "keeps B st (lift_cmov insn st)" "keeps B st (lift_unsupported insn st)"
  unfolding lift_handlers Let_def
  by (insert assms)
    (assumption | rule lift_wp reach_set_reg | fastforce simp: get_reg_reach mem_base_reach intro: keeps_reach
      | (simp split: x86_op.split, intro allI conjI impI))+

lemma keeps_if: "keeps B st0 a \<Longrightarrow> keeps B st0 b \<Longrightarrow> keeps B st0 (if c then a else b)"
  by simp

lemma lift_insn_keeps:
  assumes "lift_ok B st" "n_emitted st + 10 \<le> lb_limit B"
  shows "lift_ok B (lift_insn insn st)" "n_emitted (lift_insn insn st) \<le> n_emitted st + 10"
proof -
  have r: "reach B 0 st st" using assms by (simp add: reach_def)
  then have "keeps B st st" by (rule keeps_reach) simp
  then have "keeps B st (lift_insn insn st)"
    unfolding lift_insn_def Let_def by (intro keeps_if lift_cases_keep [OF r])
  then show "lift_ok B (lift_insn insn st)" "n_emitted (lift_insn insn st) \<le> n_emitted st + 10"
    by (simp_all add: keeps_def)
qed

lemma lift_loop_keeps:
  "lift_ok B st \<Longrightarrow> n_emitted st + 10 * length is \<le> lb_limit B \<Longrightarrow>
   lift_ok B (lift_loop is c m st) \<and> n_emitted (lift_loop is c m st) \<le> n_emitted st + 10 * length is"
proof (induction "is" c m st rule: lift_loop.induct)
  case (2 i "is" c m st)
  from "2.prems" have l: "lift_ok B (lift_insn i st)" "n_emitted (lift_insn i st) \<le> n_emitted st + 10"
    using lift_insn_keeps [of B st i] by auto
  show ?case
  proof (cases "c < m \<and> \<not> (mnemonic i = ''ret'' \<or> mnemonic i = ''jmp'')")
    case True
    have "n_emitted (lift_insn i st) + 10 * length is \<le> lb_limit B" using l(2) "2.prems"(2) by simp
    from "2.IH" [OF _ refl _ l(1) this] True have
      "lift_ok B (lift_loop is (c + 1) m (lift_insn i st))"
      "n_emitted (lift_loop is (c + 1) m (lift_insn i st)) \<le> n_emitted (lift_insn i st) + 10 * length is" by auto
    with True l(2) show ?thesis by simp
  next
    case False
    with l "2.prems" show ?thesis by (auto simp: Let_def)
  qed
qed simp

text \<open>A fresh state is well formed, for any first id and any outside ids it does not meet.\<close>

lemma default_regs_ok: "(n, v) \<in> set (default_regs rsp) \<Longrightarrow> val_ok B st v"
  by (auto simp: default_regs_def)

lemma new_lift_state_ok:
  "bounds_ok B \<Longrightarrow> lift_ok B (new_lift_state (set_next_id (lb_base B) (new_function name)) rsp)"
  by (auto simp: lift_ok_def new_lift_state_def set_next_id_def new_function_def dest: default_regs_ok)

subsection \<open>A reference semantics of 64-bit code\<close>

text \<open>
  What the processor does for the instructions with 64-bit operands: registers, memory, and
  the jumps it takes. Flags, and with them the conditional instructions, are left out, and so
  are \<^verbatim>\<open>call\<close>, which leaves the straight line, and \<^verbatim>\<open>ret\<close>. The count of a shift or
  rotate is the \<^verbatim>\<open>cl\<close> register or an immediate, of which the processor uses six bits.
\<close>

record x86_state =
  x_reg :: "gpr \<Rightarrow> u64"
  x_mem :: memory
  x_events :: "event list"

definition x86_ea :: "cs_insn \<Rightarrow> x86_state \<Rightarrow> x86_reg \<Rightarrow> x86_reg \<Rightarrow> u64 \<Rightarrow> u64 \<Rightarrow> u64 option" where
  "x86_ea insn m base index scale disp =
     do { b \<leftarrow> (case base of RegInvalid \<Rightarrow> Some 0 | R64 g \<Rightarrow> Some (x_reg m g)
                  | RIP \<Rightarrow> Some (insn_address insn + insn_size insn) | _ \<Rightarrow> None);
          i \<leftarrow> (case index of RegInvalid \<Rightarrow> Some 0 | R64 g \<Rightarrow> Some (x_reg m g * scale) | _ \<Rightarrow> None);
          Some (b + disp + i) }"

definition x86_read :: "cs_insn \<Rightarrow> x86_state \<Rightarrow> x86_op \<Rightarrow> u64 option" where
  "x86_read insn m arg = (case arg of
     X86_OP_REG (R64 g) \<Rightarrow> Some (x_reg m g)
   | X86_OP_IMM v \<Rightarrow> Some v
   | X86_OP_MEM base index scale disp \<Rightarrow> map_option (rd64 (x_mem m)) (x86_ea insn m base index scale disp)
   | _ \<Rightarrow> None)"

definition x86_write :: "cs_insn \<Rightarrow> x86_op \<Rightarrow> u64 \<Rightarrow> x86_state \<Rightarrow> x86_state option" where
  "x86_write insn arg v m = (case arg of
     X86_OP_REG (R64 g) \<Rightarrow> Some (m\<lparr>x_reg := (x_reg m)(g := v)\<rparr>)
   | X86_OP_MEM base index scale disp \<Rightarrow>
       map_option (\<lambda>a. m\<lparr>x_mem := wr64 (x_mem m) a v\<rparr>) (x86_ea insn m base index scale disp)
   | _ \<Rightarrow> None)"

definition x86_count :: "x86_state \<Rightarrow> x86_op \<Rightarrow> nat option" where
  "x86_count m arg = (case arg of
     X86_OP_REG (R8L RCX) \<Rightarrow> Some (unat (ucast (x_reg m RCX) AND (63 :: u8)))
   | X86_OP_IMM v \<Rightarrow> Some (unat (v AND 63))
   | _ \<Rightarrow> None)"

definition x86_alu :: "(string \<times> (u64 \<Rightarrow> u64 \<Rightarrow> u64)) list" where
  "x86_alu = [(''add'', (+)), (''sub'', (-)), (''xor'', (XOR)), (''and'', (AND)), (''or'', (OR))]"

definition x86_shift :: "(string \<times> (nat \<Rightarrow> u64 \<Rightarrow> u64)) list" where
  "x86_shift = [(''shl'', push_bit), (''shr'', drop_bit), (''sar'', signed_drop_bit),
     (''rol'', word_rotl), (''ror'', word_rotr)]"

definition x86_unary :: "(string \<times> (u64 \<Rightarrow> u64)) list" where
  "x86_unary = [(''not'', NOT), (''neg'', uminus), (''bswap'', byte_swap), (''inc'', \<lambda>a. a + 1), (''dec'', \<lambda>a. a - 1)]"

definition x86_push :: "u64 \<Rightarrow> x86_state \<Rightarrow> x86_state" where
  "x86_push v m =
     (let sp = x_reg m RSP - 8
      in m\<lparr>x_mem := wr64 (x_mem m) sp v, x_reg := (x_reg m)(RSP := sp)\<rparr>)"

definition x86_step :: "cs_insn \<Rightarrow> x86_state \<Rightarrow> x86_state option" where
  "x86_step insn m =
     (case x86_operands insn of
        [] \<Rightarrow> if mnemonic insn = ''nop'' \<or> mnemonic insn = ''endbr64'' then Some m else None
      | [a] \<Rightarrow>
          (if mnemonic insn = ''push'' then map_option (\<lambda>v. x86_push v m) (x86_read insn m a)
           else if mnemonic insn = ''pop'' then
             x86_write insn a (rd64 (x_mem m) (x_reg m RSP)) (m\<lparr>x_reg := (x_reg m)(RSP := x_reg m RSP + 8)\<rparr>)
           else if mnemonic insn = ''jmp'' then
             map_option (\<lambda>v. m\<lparr>x_events := x_events m @ [E_Jump [v]]\<rparr>) (x86_read insn m a)
           else do { f \<leftarrow> map_of x86_unary (mnemonic insn); v \<leftarrow> x86_read insn m a; x86_write insn a (f v) m })
      | [a, b] \<Rightarrow>
          (if mnemonic insn = ''mov'' \<or> mnemonic insn = ''movabs'' then
             do { v \<leftarrow> x86_read insn m b; x86_write insn a v m }
           else if mnemonic insn = ''lea'' then
             (case b of X86_OP_MEM base index scale disp \<Rightarrow>
                do { v \<leftarrow> x86_ea insn m base index scale disp; x86_write insn a v m } | _ \<Rightarrow> None)
           else if mnemonic insn = ''xchg'' then
             do { v \<leftarrow> x86_read insn m a; w \<leftarrow> x86_read insn m b; m' \<leftarrow> x86_write insn a w m; x86_write insn b v m' }
           else (case map_of x86_alu (mnemonic insn) of
               Some f \<Rightarrow> do { v \<leftarrow> x86_read insn m a; w \<leftarrow> x86_read insn m b; x86_write insn a (f v w) m }
             | None \<Rightarrow> do { f \<leftarrow> map_of x86_shift (mnemonic insn); v \<leftarrow> x86_read insn m a; n \<leftarrow> x86_count m b;
                           x86_write insn a (f n v) m }))
      | _ \<Rightarrow> None)"

text \<open>
  The operand forms on which the lifter is right: a memory destination only for
  \<^verbatim>\<open>mov\<close>, \<^verbatim>\<open>inc\<close> and \<^verbatim>\<open>dec\<close>, and only without an index and not relative to
  the instruction pointer.
\<close>

definition reg_arg :: "x86_op \<Rightarrow> bool" where
  "reg_arg arg = (case arg of X86_OP_REG _ \<Rightarrow> True | _ \<Rightarrow> False)"

definition plain_dst :: "x86_op \<Rightarrow> bool" where
  "plain_dst arg = (case arg of X86_OP_MEM base index _ _ \<Rightarrow> index = RegInvalid \<and> \<not> is_rip base | _ \<Rightarrow> True)"

definition exact_form :: "cs_insn \<Rightarrow> bool" where
  "exact_form insn \<longleftrightarrow>
     (if mnemonic insn \<in> {''mov'', ''movabs'', ''inc'', ''dec''} then plain_dst (x86_operands insn ! 0)
      else if mnemonic insn \<in> {''push'', ''jmp'', ''nop'', ''endbr64''} then True
      else list_all reg_arg (take 1 (x86_operands insn))
        \<and> (mnemonic insn = ''xchg'' \<longrightarrow> list_all reg_arg (x86_operands insn)))"

subsection \<open>The simulation\<close>

definition sim :: "bounds \<Rightarrow> env \<Rightarrow> state \<Rightarrow> LiftState \<Rightarrow> x86_state \<Rightarrow> bool" where
  "sim B E s st m \<longleftrightarrow> lift_ok B st
     \<and> (\<forall>g. eval_val E (lx E s st) (get_reg st (gpr_name g)) = x_reg m g)
     \<and> mem (lx E s st) = x_mem m \<and> trace (lx E s st) = x_events m"

definition vsem :: "bounds \<Rightarrow> env \<Rightarrow> state \<Rightarrow> LiftState \<Rightarrow> Value \<Rightarrow> u64 \<Rightarrow> bool" where
  "vsem B E s st v a \<longleftrightarrow> val_ok B st v \<and> eval_val E (lx E s st) v = a"

definition grows :: "bounds \<Rightarrow> env \<Rightarrow> state \<Rightarrow> nat \<Rightarrow> LiftState \<Rightarrow> LiftState \<Rightarrow> bool" where
  "grows B E s k st st' \<longleftrightarrow> n_emitted st' \<le> n_emitted st + k
     \<and> (\<forall>v a. vsem B E s st v a \<longrightarrow> vsem B E s st' v a)"

lemma vsem_Const [simp]: "vsem B E s st (Const c b) a \<longleftrightarrow> c = a"
  by (simp add: vsem_def)

lemma growsD:
  "grows B E s k st st' \<Longrightarrow> vsem B E s st v a \<Longrightarrow> vsem B E s st' v a"
  "grows B E s k st st' \<Longrightarrow> n_emitted st' \<le> n_emitted st + k"
  by (simp_all add: grows_def)

lemma grows_refl: "grows B E s 0 st st"
  by (simp add: grows_def)

lemma grows_trans: "grows B E s k st st' \<Longrightarrow> grows B E s l st' st'' \<Longrightarrow> grows B E s (k + l) st st''"
  by (auto simp: grows_def)

lemma sim_reg: "sim B E s st m \<Longrightarrow> vsem B E s st (get_reg st (gpr_name g)) (x_reg m g)"
  by (simp add: sim_def vsem_def get_reg_ok)

lemma gpr_name_inject [simp]: "gpr_name g = gpr_name h \<longleftrightarrow> g = h"
  by (cases g; cases h) simp_all

lemma reg_name_R64 [simp]: "reg_name (R64 g) = gpr_name g"
  by (cases g) (simp_all add: reg_name_def gpr64_map_def gprs_def)

lemma reg_name_CL [simp]: "reg_name (R8L RCX) = gpr_name RCX"
  by (simp add: reg_name_def gpr64_map_def gprs_def)

lemma gpr_RSP [simp]: "gpr_name g = ''rsp'' \<longleftrightarrow> g = RSP"
  using gpr_name_inject [of g RSP] by simp

lemma emit_sim:
  assumes "emit_ref x vs ann st = (v, st')" "sim B E s st m" "n_emitted st < lb_limit B"
    and "list_all2 (vsem B E s st) vs as"
  shows "sim B E s st' (m\<lparr>x_mem := memory_after E (x_mem m) x as, x_events := x_events m @ events_of x as\<rparr>)"
    "vsem B E s st' v (result_of E (x_mem m) x as)" "grows B E s 1 st st'"
proof -
  have ok: "lift_ok B st" and mem: "mem (lx E s st) = x_mem m" "trace (lx E s st) = x_events m"
    using assms(2) by (simp_all add: sim_def)
  have vs: "\<forall>u \<in> set vs. val_ok B st u" "map (eval_val E (lx E s st)) vs = as"
    using assms(4) by (auto simp: vsem_def list_all2_conv_all_nth in_set_conv_nth intro: nth_equalityI)
  note e2 = emit_ref_step(2) [OF assms(1) ok vs(1) assms(3)]
  have x: "extends B E s 1 st st'" using emit_ref_step(1) [OF assms(1) ok vs(1) assms(3)] .
  show "grows B E s 1 st st'"
    using extendsD(3-5) [OF x] by (auto simp: grows_def vsem_def)
  have "eval_val E (lx E s st') (get_reg st' (gpr_name g)) = x_reg m g" for g
    using assms(2) extendsD(5) [OF x get_reg_ok [OF ok]] by (simp add: sim_def get_reg_extends [OF x])
  then show "sim B E s st' (m\<lparr>x_mem := memory_after E (x_mem m) x as, x_events := x_events m @ events_of x as\<rparr>)"
    using extendsD(1) [OF x] emit_ref_step(4,5) [OF assms(1) ok vs(1) assms(3), of E s]
    by (simp add: sim_def vs(2) mem)
  show "vsem B E s st' v (result_of E (x_mem m) x as)"
    using e2 emit_ref_step(3) [OF assms(1) ok vs(1) assms(3), of E s] by (simp add: vsem_def vs(2) mem)
qed

lemma emit_sim_pure:
  assumes "emit_ref x vs ann st = (v, st')" "sim B E s st m" "n_emitted st < lb_limit B"
    and "list_all2 (vsem B E s st) vs as" "plain_op x \<or> x = Op_LOAD"
  shows "sim B E s st' m" "vsem B E s st' v (result_of E (x_mem m) x as)" "grows B E s 1 st st'"
proof -
  have "m\<lparr>x_mem := memory_after E (x_mem m) x as, x_events := x_events m @ events_of x as\<rparr> = m"
    using assms(5) by (auto simp: memory_after_def events_of_def plain_op_def)
  with emit_sim [OF assms(1-4)]
  show "sim B E s st' m" "vsem B E s st' v (result_of E (x_mem m) x as)" "grows B E s 1 st st'" by simp_all
qed

lemma vsem_set_reg [simp]: "vsem B E s (set_reg n v st) = vsem B E s st"
  by (intro ext) (simp add: vsem_def)

lemma sim_set_reg:
  assumes "sim B E s st m" "vsem B E s st v a"
  shows "sim B E s (set_reg (gpr_name g) v st) (m\<lparr>x_reg := (x_reg m)(g := a)\<rparr>)"
  using assms by (auto simp: sim_def vsem_def set_reg_ok)

lemma result_of_foldable:
  "op_is_foldable_binary x \<Longrightarrow> result_of E m x [a, b] = binop_sem x a b"
  "op_is_foldable_unary x \<Longrightarrow> result_of E m x [a] = unop_sem x a"
  "result_of E m Op_LOAD [a] = rd64 m a"
  by (cases x; simp add: result_of_def pure_result_def)+

lemma mem_base_sim:
  assumes "sim B E s st m"
    and "(case base of RegInvalid \<Rightarrow> Some 0 | R64 g \<Rightarrow> Some (x_reg m g)
        | RIP \<Rightarrow> Some (insn_address insn + insn_size insn) | _ \<Rightarrow> None) = Some b"
  shows "vsem B E s st (mem_base_value insn base st) b"
  using assms sim_reg [OF assms(1)]
  by (auto simp: mem_base_value_def is_rip_def next_address_def split: x86_reg.splits)

text \<open>An address computed with base, displacement and scaled index.\<close>

lemma address_sim:
  assumes "emit_ref Op_ADD [mem_base_value insn base st, Const64 disp] ann st = (a1, st1)"
    and "add_index index scale a1 st1 = (a2, st2)"
    and "sim B E s st m" "x86_ea insn m base index scale disp = Some ea" "n_emitted st + 3 \<le> lb_limit B"
  shows "sim B E s st2 m" "vsem B E s st2 a2 ea" "grows B E s 3 st st2"
proof -
  from assms(4) obtain b i where b: "(case base of RegInvalid \<Rightarrow> Some 0 | R64 g \<Rightarrow> Some (x_reg m g)
        | RIP \<Rightarrow> Some (insn_address insn + insn_size insn) | _ \<Rightarrow> None) = Some b"
    and i: "(case index of RegInvalid \<Rightarrow> Some 0 | R64 g \<Rightarrow> Some (x_reg m g * scale) | _ \<Rightarrow> None) = Some i"
    and ea: "ea = b + disp + i"
    by (auto simp: x86_ea_def elim!: bind_SomeE)
  have vs: "list_all2 (vsem B E s st) [mem_base_value insn base st, Const64 disp] [b, disp]"
    using mem_base_sim [OF assms(3) b] by simp
  have n0: "n_emitted st < lb_limit B" using assms(5) by simp
  from emit_sim_pure [OF assms(1,3) n0 vs]
  have x1: "sim B E s st1 m" "vsem B E s st1 a1 (b + disp)" "grows B E s 1 st st1"
    by (simp_all add: result_of_foldable binop_sem_def plain_op_def)
  have "sim B E s st2 m \<and> vsem B E s st2 a2 ea \<and> grows B E s 3 st st2"
  proof (cases "index = RegInvalid")
    case True
    with assms(2) i x1 show ?thesis by (auto simp: add_index_def ea grows_def)
  next
    case False
    then obtain g where g: "index = R64 g" "i = x_reg m g * scale" using i by (auto split: x86_reg.splits)
    obtain sc st' where e2: "emit_ref Op_MUL [get_reg st1 (gpr_name g), Const64 scale] [] st1 = (sc, st')"
      by fastforce
    with assms(2) g have e3: "emit_ref Op_ADD [a1, sc] [] st' = (a2, st2)"
      by (simp add: add_index_def)
    have n1: "n_emitted st1 < lb_limit B" using growsD(2) [OF x1(3)] assms(5) by simp
    have vs1: "list_all2 (vsem B E s st1) [get_reg st1 (gpr_name g), Const64 scale] [x_reg m g, scale]"
      using sim_reg [OF x1(1)] by simp
    from emit_sim_pure [OF e2 x1(1) n1 vs1]
    have x2: "sim B E s st' m" "vsem B E s st' sc i" "grows B E s 1 st1 st'"
      by (simp_all add: result_of_foldable binop_sem_def plain_op_def g)
    have n2: "n_emitted st' < lb_limit B" using growsD(2) [OF x1(3)] growsD(2) [OF x2(3)] assms(5) by simp
    have vs2: "list_all2 (vsem B E s st') [a1, sc] [b + disp, i]"
      using growsD(1) [OF x2(3) x1(2)] x2(2) by simp
    from emit_sim_pure [OF e3 x2(1) n2 vs2]
    have "sim B E s st2 m" "vsem B E s st2 a2 ea" "grows B E s 1 st' st2"
      by (simp_all add: result_of_foldable binop_sem_def plain_op_def ea)
    with grows_trans [OF x1(3) grows_trans [OF x2(3)]] show ?thesis by (simp add: numeral_3_eq_3)
  qed
  then show "sim B E s st2 m" "vsem B E s st2 a2 ea" "grows B E s 3 st st2" by simp_all
qed

lemma op_value_sim:
  assumes "op_value insn idx st = (v, st')" "sim B E s st m" "n_emitted st + 4 \<le> lb_limit B"
    and "x86_read insn m (x86_operands insn ! idx) = Some a"
  shows "sim B E s st' m" "vsem B E s st' v a" "grows B E s 4 st st'"
proof -
  have le: "grows B E s 4 st st" by (simp add: grows_def)
  have "sim B E s st' m \<and> vsem B E s st' v a \<and> grows B E s 4 st st'"
  proof (cases "x86_operands insn ! idx")
    case (X86_OP_REG r)
    with assms(4) obtain g where "r = R64 g" "a = x_reg m g" by (auto simp: x86_read_def split: x86_reg.splits)
    with X86_OP_REG assms(1,2) le sim_reg [OF assms(2)] show ?thesis
      by (auto simp: op_value_def is_rip_def)
  next
    case (X86_OP_MEM base index scale disp)
    with assms(4) obtain ea where ea: "x86_ea insn m base index scale disp = Some ea" "a = rd64 (x_mem m) ea"
      by (auto simp: x86_read_def)
    obtain a1 st1 where e1: "emit_ref Op_ADD [mem_base_value insn base st, Const64 disp] [(''addr_calc'', ''1'')] st = (a1, st1)"
      by fastforce
    obtain a2 st2 where e2: "add_index index scale a1 st1 = (a2, st2)" by fastforce
    have e3: "emit_ref Op_LOAD [a2] [va_ann insn] st2 = (v, st')"
      using assms(1) e1 e2 X86_OP_MEM by (simp add: op_value_def)
    note x = address_sim [OF e1 e2 assms(2) ea(1)]
    have x2: "sim B E s st2 m" "vsem B E s st2 a2 ea" "grows B E s 3 st st2" using x assms(3) by simp_all
    have "n_emitted st2 < lb_limit B" using growsD(2) [OF x2(3)] assms(3) by simp
    from emit_sim_pure [OF e3 x2(1) this, of "[ea]"] x2(2)
    have "sim B E s st' m" "vsem B E s st' v a" "grows B E s 1 st2 st'"
      by (simp_all add: result_of_foldable ea(2))
    with grows_trans [OF x2(3), of 1 st'] show ?thesis by simp
  qed (use assms(1,2,4) le in \<open>auto simp: op_value_def x86_read_def\<close>)
  then show "sim B E s st' m" "vsem B E s st' v a" "grows B E s 4 st st'" by simp_all
qed

text \<open>The count of a shift: the low six bits of the value the lifter uses are the processor's count.\<close>

lemma count_bits: "unat (ucast (w :: u64) AND (63 :: u8)) = unat (w AND 63)"
proof -
  have "(ucast (ucast w AND (63 :: u8)) :: u64) = w AND 63"
  proof (rule bit_word_eqI)
    fix k assume "k < LENGTH(64)"
    have "bit (63 :: u64) k \<longleftrightarrow> k < 6" "bit (63 :: int) k \<longleftrightarrow> k < 6" "bit (63 :: u8) k \<longleftrightarrow> k < 6"
      using bit_mask_iff [of 6 k, where 'a = int] bit_mask_iff [of 6 k, where 'a = u8]
        bit_mask_iff [of 6 k, where 'a = u64] \<open>k < LENGTH(64)\<close>
      by (auto simp: mask_eq_exp_minus_1 possible_bit_def)
    then show "bit (ucast (ucast w AND (63 :: u8)) :: u64) k \<longleftrightarrow> bit (w AND 63) k"
      using \<open>k < LENGTH(64)\<close> by (auto simp: bit_simps)
  qed
  moreover have "unat (ucast (b :: u8) :: u64) = unat b" for b
    by transfer (simp add: take_bit_int_eq_self_iff nat_take_bit_eq)
  ultimately show ?thesis by metis
qed

lemma count_sim:
  assumes "op_value insn idx st = (v, st')" "sim B E s st m" "x86_count m (x86_operands insn ! idx) = Some n"
  shows "st' = st" "\<exists>w. vsem B E s st v w \<and> unat (w AND 63) = n"
proof -
  have "st' = st \<and> (\<exists>w. vsem B E s st v w \<and> unat (w AND 63) = n)"
  proof (cases "x86_operands insn ! idx")
    case (X86_OP_REG r)
    with assms(3) have "r = R8L RCX" "n = unat (x_reg m RCX AND 63)"
      by (auto simp: x86_count_def count_bits split: x86_reg.splits gpr.splits)
    with X86_OP_REG assms(1) sim_reg [OF assms(2), of RCX] show ?thesis
      by (auto simp: op_value_def is_rip_def simp del: gpr_name.simps)
  qed (use assms(1,3) in \<open>auto simp: op_value_def x86_count_def\<close>)
  then show "st' = st" "\<exists>w. vsem B E s st v w \<and> unat (w AND 63) = n" by simp_all
qed

lemma set_dst_sim:
  assumes "sim B E s st m" "vsem B E s st v a" "x86_write insn arg a m = Some m'" "reg_arg arg"
  shows "sim B E s (set_dst arg v st) m'"
  using assms sim_set_reg [OF assms(1,2)]
  by (auto simp: x86_write_def reg_arg_def set_dst_def split: x86_op.splits x86_reg.splits)

text \<open>Storing to a plain memory destination.\<close>

lemma store_sim:
  assumes "dst_address base disp st = (a1, st1)" "emit_ref Op_STORE [a1, v] ann st1 = (r, st2)"
    and "sim B E s st m" "vsem B E s st v a" "n_emitted st + 2 \<le> lb_limit B"
    and "x86_ea insn m base RegInvalid scale disp = Some ea" "\<not> is_rip base"
  shows "sim B E s st2 (m\<lparr>x_mem := wr64 (x_mem m) ea a\<rparr>)"
proof -
  from assms(6,7) obtain b where b: "vsem B E s st (if base \<noteq> RegInvalid then get_reg st (reg_name base) else Const64 0) b"
    and ea: "ea = b + disp"
    using sim_reg [OF assms(3)] by (auto simp: x86_ea_def is_rip_def split: x86_reg.splits elim!: bind_SomeE)
  have n0: "n_emitted st < lb_limit B" using assms(5) by simp
  from emit_sim_pure [OF assms(1) [unfolded dst_address_def] assms(3) n0, of "[b, disp]"] b
  have x1: "sim B E s st1 m" "vsem B E s st1 a1 ea" "grows B E s 1 st st1"
    by (simp_all add: result_of_foldable binop_sem_def plain_op_def ea)
  have n1: "n_emitted st1 < lb_limit B" using growsD(2) [OF x1(3)] assms(5) by simp
  from emit_sim(1) [OF assms(2) x1(1) n1, of "[ea, a]"] x1(2) growsD(1) [OF x1(3) assms(4)]
  show ?thesis by (simp add: memory_after_def events_of_def)
qed

lemma write_sim:
  assumes "sim B E s st m" "vsem B E s st v a" "x86_write insn arg a m = Some m'" "plain_dst arg"
    and "n_emitted st + 2 \<le> lb_limit B"
  shows "sim B E s (case arg of X86_OP_REG r \<Rightarrow> set_reg (reg_name r) v st
     | X86_OP_MEM base index scale disp \<Rightarrow>
         (case dst_address base disp st of (addr, st) \<Rightarrow> snd (emit_ref Op_STORE [addr, v] ann st))
     | _ \<Rightarrow> st) m'"
proof (cases arg)
  case (X86_OP_REG r)
  with set_dst_sim [OF assms(1-3)] show ?thesis by (simp add: reg_arg_def set_dst_def)
next
  case (X86_OP_MEM base index scale disp)
  with assms(3,4) obtain ea where ea: "x86_ea insn m base RegInvalid scale disp = Some ea" "\<not> is_rip base"
    "m' = m\<lparr>x_mem := wr64 (x_mem m) ea a\<rparr>" by (auto simp: x86_write_def plain_dst_def)
  obtain a1 st1 r st2 where e: "dst_address base disp st = (a1, st1)" "emit_ref Op_STORE [a1, v] ann st1 = (r, st2)"
    by fastforce
  from store_sim [OF e assms(1,2,5) ea(1,2)] e X86_OP_MEM ea(3) show ?thesis by simp
qed (use assms(3) in \<open>simp_all add: x86_write_def\<close>)

lemma sp_sim:
  assumes "emit_ref x [get_reg st ''rsp'', Const64 8] ann st = (v, st')" "sim B E s st m" "n_emitted st < lb_limit B"
    and "x = Op_ADD \<or> x = Op_SUB"
  shows "sim B E s st' m" "vsem B E s st' v (binop_sem x (x_reg m RSP) 8)" "grows B E s 1 st st'"
proof -
  have "list_all2 (vsem B E s st) [get_reg st ''rsp'', Const64 8] [x_reg m RSP, 8]"
    using sim_reg [OF assms(2), of RSP] by simp
  from emit_sim_pure [OF assms(1-3) this] assms(4)
  show "sim B E s st' m" "vsem B E s st' v (binop_sem x (x_reg m RSP) 8)" "grows B E s 1 st st'"
    by (auto simp: result_of_foldable plain_op_def)
qed

lemma lift_push_sim:
  assumes "sim B E s st m" "n_emitted st + 10 \<le> lb_limit B" "x86_read insn m (x86_operands insn ! 0) = Some a"
  shows "sim B E s (lift_push insn st) (x86_push a m)"
proof -
  obtain v st1 sp st2 r st3 where e: "op_value insn 0 st = (v, st1)"
    "emit_ref Op_SUB [get_reg st1 ''rsp'', Const64 8] [] st1 = (sp, st2)"
    "emit_ref Op_STORE [sp, v] [va_ann insn] st2 = (r, st3)"
    by fastforce
  have "n_emitted st + 4 \<le> lb_limit B" using assms(2) by simp
  note x1 = op_value_sim [OF e(1) assms(1) this assms(3)]
  have "n_emitted st1 < lb_limit B" using growsD(2) [OF x1(3)] assms(2) by simp
  note x2 = sp_sim [OF e(2) x1(1) this disjI2 [OF refl]]
  have "n_emitted st2 < lb_limit B" using growsD(2) [OF x1(3)] growsD(2) [OF x2(3)] assms(2) by simp
  from emit_sim [OF e(3) x2(1) this, of "[x_reg m RSP - 8, a]"] x2(2) growsD(1) [OF x2(3) x1(2)]
  have "sim B E s st3 (m\<lparr>x_mem := wr64 (x_mem m) (x_reg m RSP - 8) a\<rparr>)" "grows B E s 1 st2 st3"
    by (simp_all add: binop_sem_def memory_after_def events_of_def)
  from sim_set_reg [OF this(1) growsD(1) [OF this(2) x2(2)], of RSP] e show ?thesis
    by (simp add: lift_push_def x86_push_def Let_def binop_sem_def)
qed

lemma lift_pop_sim:
  assumes "sim B E s st m" "n_emitted st + 10 \<le> lb_limit B" "reg_arg (x86_operands insn ! 0)"
    and "x86_write insn (x86_operands insn ! 0) (rd64 (x_mem m) (x_reg m RSP))
           (m\<lparr>x_reg := (x_reg m)(RSP := x_reg m RSP + 8)\<rparr>) = Some m'"
  shows "sim B E s (lift_pop insn st) m'"
proof -
  obtain ld st1 sp st2 where e: "emit_ref Op_LOAD [get_reg st ''rsp''] [va_ann insn] st = (ld, st1)"
    "emit_ref Op_ADD [get_reg st ''rsp'', Const64 8] [] st1 = (sp, st2)"
    by fastforce
  have n0: "n_emitted st < lb_limit B" using assms(2) by simp
  from emit_sim_pure [OF e(1) assms(1) n0, of "[x_reg m RSP]"] sim_reg [OF assms(1), of RSP]
  have x1: "sim B E s st1 m" "vsem B E s st1 ld (rd64 (x_mem m) (x_reg m RSP))" "grows B E s 1 st st1"
    by (simp_all add: result_of_foldable)
  have n1: "n_emitted st1 < lb_limit B" using growsD(2) [OF x1(3)] assms(2) by simp
  have "get_reg st1 ''rsp'' = get_reg st ''rsp''"
    using emit_ref_fields(2) [OF e(1)] by (simp add: get_reg_def)
  note x2 = sp_sim [OF e(2) [folded this] x1(1) n1 disjI1 [OF refl]]
  note rsp = sim_set_reg [OF x2(1,2), of RSP]
  have "vsem B E s (set_reg ''rsp'' sp st2) ld (rd64 (x_mem m) (x_reg m RSP))"
    using growsD(1) [OF x2(3) x1(2)] by simp
  with set_dst_sim [OF rsp _ _ assms(3)] assms(4) e show ?thesis
    by (simp add: lift_pop_def Let_def binop_sem_def)
qed

lemma lift_mov_sim:
  assumes "sim B E s st m" "n_emitted st + 10 \<le> lb_limit B" "x86_read insn m (x86_operands insn ! 1) = Some a"
    and "x86_write insn (x86_operands insn ! 0) a m = Some m'" "plain_dst (x86_operands insn ! 0)"
  shows "sim B E s (lift_mov insn st) m'"
proof -
  obtain v st1 where e: "op_value insn 1 st = (v, st1)" by fastforce
  have "n_emitted st + 4 \<le> lb_limit B" using assms(2) by simp
  note x1 = op_value_sim [OF e assms(1) this assms(3)]
  have "n_emitted st1 + 2 \<le> lb_limit B" using growsD(2) [OF x1(3)] assms(2) by simp
  from write_sim [OF x1(1,2) assms(4,5) this] e show ?thesis unfolding lift_mov_def Let_def by simp
qed

lemma lift_lea_sim:
  assumes "sim B E s st m" "n_emitted st + 10 \<le> lb_limit B"
    and "x86_operands insn ! 1 = X86_OP_MEM base index scale disp" "x86_ea insn m base index scale disp = Some a"
    and "x86_write insn (x86_operands insn ! 0) a m = Some m'" "reg_arg (x86_operands insn ! 0)"
  shows "sim B E s (lift_lea insn st) m'"
proof -
  obtain a1 st1 a2 st2 where e: "emit_ref Op_ADD [mem_base_value insn base st, Const64 disp] [] st = (a1, st1)"
    "add_index index scale a1 st1 = (a2, st2)" by fastforce
  have "n_emitted st + 3 \<le> lb_limit B" using assms(2) by simp
  note x = address_sim [OF e assms(1,4) this]
  from set_dst_sim [OF x(1,2) assms(5,6)] e assms(3) show ?thesis by (simp add: lift_lea_def Let_def)
qed

lemma lift_binop_sim:
  assumes "sim B E s st m" "n_emitted st + 10 \<le> lb_limit B" "x86_read insn m (x86_operands insn ! 0) = Some a"
    and "x86_read insn m (x86_operands insn ! 1) = Some b \<and> r = binop_sem x a b
       \<or> x86_count m (x86_operands insn ! 1) = Some n \<and> (\<forall>w. unat (w AND 63) = n \<longrightarrow> binop_sem x a w = r)"
    and "x86_write insn (x86_operands insn ! 0) r m = Some m'"
    and "reg_arg (x86_operands insn ! 0)" "op_is_foldable_binary x"
  shows "sim B E s (lift_binop x insn st) m'"
proof -
  obtain v st1 w st2 q st3 where e: "op_value insn 0 st = (v, st1)" "op_value insn 1 st1 = (w, st2)"
    "emit_ref x [v, w] [va_ann insn] st2 = (q, st3)" by fastforce
  have "n_emitted st + 4 \<le> lb_limit B" using assms(2) by simp
  note x1 = op_value_sim [OF e(1) assms(1) this assms(3)]
  have n1: "n_emitted st1 + 4 \<le> lb_limit B" using growsD(2) [OF x1(3)] assms(2) by simp
  have "\<exists>c. sim B E s st2 m \<and> vsem B E s st2 w c \<and> grows B E s 4 st1 st2 \<and> binop_sem x a c = r"
    using assms(4)
  proof
    assume "x86_read insn m (x86_operands insn ! 1) = Some b \<and> r = binop_sem x a b"
    with op_value_sim [OF e(2) x1(1) n1] show ?thesis by blast
  next
    assume c: "x86_count m (x86_operands insn ! 1) = Some n \<and> (\<forall>w. unat (w AND 63) = n \<longrightarrow> binop_sem x a w = r)"
    from count_sim [OF e(2) x1(1)] c obtain u where "st2 = st1" "vsem B E s st1 w u" "unat (u AND 63) = n" by blast
    with c x1(1) show ?thesis by (auto simp: grows_def)
  qed
  then obtain c where x2: "sim B E s st2 m" "vsem B E s st2 w c" "grows B E s 4 st1 st2" "binop_sem x a c = r"
    by blast
  have n2: "n_emitted st2 < lb_limit B" using growsD(2) [OF x1(3)] growsD(2) [OF x2(3)] assms(2) by simp
  have "list_all2 (vsem B E s st2) [v, w] [a, c]" using x2(2) growsD(1) [OF x2(3) x1(2)] by simp
  from emit_sim_pure [OF e(3) x2(1) n2 this] assms(7)
  have "sim B E s st3 m" "vsem B E s st3 q r"
    by (simp_all add: result_of_foldable foldable_plain x2(4))
  from set_dst_sim [OF this assms(5,6)] e show ?thesis by (simp add: lift_binop_def Let_def)
qed

lemma lift_unop_sim:
  assumes "sim B E s st m" "n_emitted st + 10 \<le> lb_limit B" "x86_read insn m (x86_operands insn ! 0) = Some a"
    and "x86_write insn (x86_operands insn ! 0) (unop_sem x a) m = Some m'"
    and "reg_arg (x86_operands insn ! 0)" "op_is_foldable_unary x"
  shows "sim B E s (lift_unop x insn st) m'"
proof -
  obtain v st1 q st2 where e: "op_value insn 0 st = (v, st1)" "emit_ref x [v] [va_ann insn] st1 = (q, st2)" by fastforce
  have "n_emitted st + 4 \<le> lb_limit B" using assms(2) by simp
  note x1 = op_value_sim [OF e(1) assms(1) this assms(3)]
  have n1: "n_emitted st1 < lb_limit B" using growsD(2) [OF x1(3)] assms(2) by simp
  from emit_sim_pure [OF e(2) x1(1) n1, of "[a]"] x1(2) assms(6)
  have "sim B E s st2 m" "vsem B E s st2 q (unop_sem x a)"
    by (simp_all add: result_of_foldable foldable_plain)
  from set_dst_sim [OF this assms(4,5)] e show ?thesis by (simp add: lift_unop_def Let_def)
qed

lemma lift_inc_dec_sim:
  assumes "sim B E s st m" "n_emitted st + 10 \<le> lb_limit B" "x86_read insn m (x86_operands insn ! 0) = Some a"
    and "x86_write insn (x86_operands insn ! 0) (if mnemonic insn = ''inc'' then a + 1 else a - 1) m = Some m'"
    and "plain_dst (x86_operands insn ! 0)"
  shows "sim B E s (lift_inc_dec insn st) m'"
proof -
  let ?x = "if mnemonic insn = ''inc'' then Op_ADD else Op_SUB"
  obtain v st1 q st2 where e: "op_value insn 0 st = (v, st1)" "emit_ref ?x [v, Const64 1] [va_ann insn] st1 = (q, st2)"
    by fastforce
  have "n_emitted st + 4 \<le> lb_limit B" using assms(2) by simp
  note x1 = op_value_sim [OF e(1) assms(1) this assms(3)]
  have n1: "n_emitted st1 < lb_limit B" using growsD(2) [OF x1(3)] assms(2) by simp
  from emit_sim_pure [OF e(2) x1(1) n1, of "[a, 1]"] x1(2)
  have x2: "sim B E s st2 m" "vsem B E s st2 q (if mnemonic insn = ''inc'' then a + 1 else a - 1)" "grows B E s 1 st1 st2"
    by (auto simp: result_of_foldable binop_sem_def plain_op_def split: if_splits)
  have "n_emitted st2 + 2 \<le> lb_limit B" using growsD(2) [OF x1(3)] growsD(2) [OF x2(3)] assms(2) by simp
  from write_sim [OF x2(1,2) assms(4,5) this] e show ?thesis unfolding lift_inc_dec_def Let_def by simp
qed

lemma lift_jmp_sim:
  assumes "sim B E s st m" "n_emitted st + 10 \<le> lb_limit B" "x86_read insn m (x86_operands insn ! 0) = Some a"
  shows "sim B E s (lift_jmp insn st) (m\<lparr>x_events := x_events m @ [E_Jump [a]]\<rparr>)"
proof -
  obtain v st1 q st2 where e: "op_value insn 0 st = (v, st1)" "emit_ref Op_JMP [v] [va_ann insn] st1 = (q, st2)" by fastforce
  have "n_emitted st + 4 \<le> lb_limit B" using assms(2) by simp
  note x1 = op_value_sim [OF e(1) assms(1) this assms(3)]
  have n1: "n_emitted st1 < lb_limit B" using growsD(2) [OF x1(3)] assms(2) by simp
  from emit_sim(1) [OF e(2) x1(1) n1, of "[a]"] x1(2) e show ?thesis
    by (simp add: memory_after_def events_of_def lift_jmp_def Let_def)
qed

lemma lift_xchg_sim:
  assumes "sim B E s st m" "x86_operands insn ! 0 = X86_OP_REG (R64 g)" "x86_operands insn ! 1 = X86_OP_REG (R64 h)"
  shows "sim B E s (lift_xchg insn st) (m\<lparr>x_reg := (x_reg m)(g := x_reg m h, h := x_reg m g)\<rparr>)"
proof -
  note r = sim_reg [OF assms(1)]
  from sim_set_reg [OF assms(1) r [of h], of g]
  have "sim B E s (set_reg (gpr_name g) (get_reg st (gpr_name h)) st) (m\<lparr>x_reg := (x_reg m)(g := x_reg m h)\<rparr>)" .
  from sim_set_reg [OF this, of "get_reg st (gpr_name g)" "x_reg m g" h] r [of g] assms(2,3)
  show ?thesis by (simp add: lift_xchg_def)
qed

lemma alu_binop:
  "map_of x86_alu mn = Some f \<Longrightarrow>
   \<exists>x. map_of binop_map mn = Some x \<and> op_is_foldable_binary x \<and> (\<forall>a b. f a b = binop_sem x a b)"
  by (auto simp: x86_alu_def binop_map_def binop_sem_def split: if_splits)

lemma shift_binop:
  "map_of x86_shift mn = Some f \<Longrightarrow>
   \<exists>x. map_of binop_map mn = Some x \<and> op_is_foldable_binary x \<and> (\<forall>a b. f (unat (b AND 63)) a = binop_sem x a b)"
  by (auto simp: x86_shift_def binop_map_def binop_sem_def split: if_splits)

lemma unary_cases:
  "map_of x86_unary mn = Some f \<Longrightarrow>
     (\<exists>x. map_of unop_map mn = Some x \<and> op_is_foldable_unary x \<and> (\<forall>a. f a = unop_sem x a))
     \<or> (mn \<in> {''inc'', ''dec''} \<and> (\<forall>a. f a = (if mn = ''inc'' then a + 1 else a - 1)))"
  by (auto simp: x86_unary_def unop_map_def unop_sem_def split: if_splits)

text \<open>Which case of the dispatch an instruction takes.\<close>

lemma dispatch_binop:
  "map_of binop_map (mnemonic insn) = Some x \<Longrightarrow> op_count insn = 2 \<Longrightarrow> lift_insn insn st = lift_binop x insn st"
  by (auto simp: lift_insn_def binop_map_def split: if_splits)

lemma dispatch_unop:
  "map_of unop_map (mnemonic insn) = Some x \<Longrightarrow> op_count insn = 1 \<Longrightarrow> lift_insn insn st = lift_unop x insn st"
  by (auto simp: lift_insn_def unop_map_def split: if_splits)

lemma dispatch_simps:
  "mnemonic insn = ''nop'' \<Longrightarrow> lift_insn insn st = st"
  "mnemonic insn = ''endbr64'' \<Longrightarrow> lift_insn insn st = st"
  "mnemonic insn = ''push'' \<Longrightarrow> op_count insn = 1 \<Longrightarrow> lift_insn insn st = lift_push insn st"
  "mnemonic insn = ''pop'' \<Longrightarrow> op_count insn = 1 \<Longrightarrow> lift_insn insn st = lift_pop insn st"
  "mnemonic insn = ''mov'' \<Longrightarrow> op_count insn = 2 \<Longrightarrow> lift_insn insn st = lift_mov insn st"
  "mnemonic insn = ''movabs'' \<Longrightarrow> op_count insn = 2 \<Longrightarrow> lift_insn insn st = lift_mov insn st"
  "mnemonic insn = ''lea'' \<Longrightarrow> op_count insn = 2 \<Longrightarrow> lift_insn insn st = lift_lea insn st"
  "mnemonic insn = ''inc'' \<Longrightarrow> op_count insn = 1 \<Longrightarrow> lift_insn insn st = lift_inc_dec insn st"
  "mnemonic insn = ''dec'' \<Longrightarrow> op_count insn = 1 \<Longrightarrow> lift_insn insn st = lift_inc_dec insn st"
  "mnemonic insn = ''jmp'' \<Longrightarrow> op_count insn = 1 \<Longrightarrow> lift_insn insn st = lift_jmp insn st"
  "mnemonic insn = ''xchg'' \<Longrightarrow> op_count insn = 2 \<Longrightarrow> lift_insn insn st = lift_xchg insn st"
  by (simp_all add: lift_insn_def binop_map_def unop_map_def jcc_mnems_def)

lemma lift_insn_sim1:
  assumes "sim B E s st m" "n_emitted st + 10 \<le> lb_limit B" "exact_form insn"
    and "x86_operands insn = [a]" "x86_step insn m = Some m'"
  shows "sim B E s (lift_insn insn st) m'"
proof -
  note st = assms(1,2)
  have n: "op_count insn = 1" by (simp add: op_count_def assms(4))
  consider (push) v where "mnemonic insn = ''push''" "x86_read insn m a = Some v" "m' = x86_push v m"
    | (pop) "mnemonic insn = ''pop''" "x86_write insn a (rd64 (x_mem m) (x_reg m RSP)) (m\<lparr>x_reg := (x_reg m)(RSP := x_reg m RSP + 8)\<rparr>) = Some m'"
    | (jmp) v where "mnemonic insn = ''jmp''" "x86_read insn m a = Some v" "m' = m\<lparr>x_events := x_events m @ [E_Jump [v]]\<rparr>"
    | (un) f v where "map_of x86_unary (mnemonic insn) = Some f" "x86_read insn m a = Some v" "x86_write insn a (f v) m = Some m'"
    using assms(4,5) by (auto simp: x86_step_def split: if_splits elim!: bind_SomeE)
  then show ?thesis
  proof cases
    case push
    with lift_push_sim [OF st] n assms(4) show ?thesis by (simp add: dispatch_simps)
  next
    case pop
    moreover have "reg_arg a" using assms(3,4) pop(1) by (simp add: exact_form_def)
    ultimately show ?thesis using lift_pop_sim [OF st] n assms(4) by (simp add: dispatch_simps)
  next
    case jmp
    with lift_jmp_sim [OF st] n assms(4) show ?thesis by (simp add: dispatch_simps)
  next
    case un
    from unary_cases [OF un(1)] show ?thesis
    proof
      assume "\<exists>x. map_of unop_map (mnemonic insn) = Some x \<and> op_is_foldable_unary x \<and> (\<forall>a. f a = unop_sem x a)"
      then obtain x where x: "map_of unop_map (mnemonic insn) = Some x" "op_is_foldable_unary x" "f v = unop_sem x v" by blast
      have "reg_arg a" using assms(3,4) x(1) by (auto simp: exact_form_def unop_map_def split: if_splits)
      with lift_unop_sim [OF st] un x n assms(4) show ?thesis by (simp add: dispatch_unop)
    next
      assume f: "mnemonic insn \<in> {''inc'', ''dec''} \<and> (\<forall>a. f a = (if mnemonic insn = ''inc'' then a + 1 else a - 1))"
      have "plain_dst a" using assms(3,4) f by (auto simp: exact_form_def)
      with lift_inc_dec_sim [OF st] un f n assms(4) show ?thesis by (auto simp: dispatch_simps)
    qed
  qed
qed

lemma lift_insn_sim2:
  assumes "sim B E s st m" "n_emitted st + 10 \<le> lb_limit B" "exact_form insn"
    and "x86_operands insn = [a, b]" "x86_step insn m = Some m'"
  shows "sim B E s (lift_insn insn st) m'"
proof -
  note st = assms(1,2)
  have n: "op_count insn = 2" by (simp add: op_count_def assms(4))
  consider (mov) v where "mnemonic insn \<in> {''mov'', ''movabs''}" "x86_read insn m b = Some v" "x86_write insn a v m = Some m'"
    | (lea) base index scale disp v where "mnemonic insn = ''lea''" "b = X86_OP_MEM base index scale disp"
        "x86_ea insn m base index scale disp = Some v" "x86_write insn a v m = Some m'"
    | (xchg) v w m1 where "mnemonic insn = ''xchg''" "x86_read insn m a = Some v" "x86_read insn m b = Some w"
        "x86_write insn a w m = Some m1" "x86_write insn b v m1 = Some m'"
    | (alu) f v w where "map_of x86_alu (mnemonic insn) = Some f" "x86_read insn m a = Some v" "x86_read insn m b = Some w"
        "x86_write insn a (f v w) m = Some m'"
    | (shift) f v k where "map_of x86_shift (mnemonic insn) = Some f" "x86_read insn m a = Some v" "x86_count m b = Some k"
        "x86_write insn a (f k v) m = Some m'"
    using assms(4,5)
    by (auto simp: x86_step_def split: if_splits option.splits x86_op.splits elim!: bind_SomeE)
  then show ?thesis
  proof cases
    case mov
    have "plain_dst a" using assms(3,4) mov(1) by (auto simp: exact_form_def)
    with lift_mov_sim [OF st] mov n assms(4) show ?thesis by (auto simp: dispatch_simps)
  next
    case lea
    have "reg_arg a" using assms(3,4) lea(1) by (simp add: exact_form_def)
    with lift_lea_sim [OF st] lea n assms(4) show ?thesis by (simp add: dispatch_simps)
  next
    case xchg
    have "reg_arg a" "reg_arg b" using assms(3,4) xchg(1) by (simp_all add: exact_form_def)
    with xchg obtain g h where gh: "a = X86_OP_REG (R64 g)" "b = X86_OP_REG (R64 h)"
      by (auto simp: reg_arg_def x86_read_def split: x86_op.splits x86_reg.splits)
    with xchg have "m' = m\<lparr>x_reg := (x_reg m)(g := x_reg m h, h := x_reg m g)\<rparr>"
      by (auto simp: x86_read_def x86_write_def)
    with lift_xchg_sim [OF st(1)] gh n assms(4) xchg(1) show ?thesis by (simp add: dispatch_simps)
  next
    case alu
    from alu_binop [OF alu(1)] obtain x where x: "map_of binop_map (mnemonic insn) = Some x"
      "op_is_foldable_binary x" "f v w = binop_sem x v w" by blast
    have "reg_arg a" using assms(3,4) x(1) by (auto simp: exact_form_def binop_map_def split: if_splits)
    with lift_binop_sim [OF st, of insn v w "f v w" x 0] alu x n assms(4) show ?thesis by (simp add: dispatch_binop)
  next
    case shift
    from shift_binop [OF shift(1)] obtain x where x: "map_of binop_map (mnemonic insn) = Some x"
      "op_is_foldable_binary x" "\<forall>a b. f (unat (b AND 63)) a = binop_sem x a b" by blast
    have "reg_arg a" using assms(3,4) x(1) by (auto simp: exact_form_def binop_map_def split: if_splits)
    moreover have "\<forall>w. unat (w AND 63) = k \<longrightarrow> binop_sem x v w = f k v" using x(3) by metis
    ultimately show ?thesis using lift_binop_sim [OF st, of insn v 0 "f k v" x k] shift x n assms(4)
      by (simp add: dispatch_binop)
  qed
qed

lemma lift_insn_sim:
  assumes "sim B E s st m" "n_emitted st + 10 \<le> lb_limit B" "exact_form insn" "x86_step insn m = Some m'"
  shows "sim B E s (lift_insn insn st) m'"
proof -
  consider "x86_operands insn = []" | a where "x86_operands insn = [a]" | a b where "x86_operands insn = [a, b]"
    using assms(4) by (cases "x86_operands insn"; cases "tl (x86_operands insn)")
      (auto simp: x86_step_def split: list.splits)
  then show ?thesis
  proof cases
    case 1
    with assms show ?thesis by (auto simp: x86_step_def dispatch_simps split: if_splits)
  qed (use lift_insn_sim1 [OF assms(1-3) _ assms(4)] lift_insn_sim2 [OF assms(1-3) _ assms(4)] in auto)
qed

text \<open>A straight line of instructions, up to and including the first jump.\<close>

fun x86_run :: "cs_insn list \<Rightarrow> x86_state \<Rightarrow> x86_state option" where
  "x86_run [] m = Some m"
| "x86_run (i # is) m =
     do { m' \<leftarrow> x86_step i m;
          if mnemonic i = ''ret'' \<or> mnemonic i = ''jmp'' then Some m' else x86_run is m' }"

lemma lift_loop_sim:
  "sim B E s st m \<Longrightarrow> n_emitted st + 10 * length is \<le> lb_limit B \<Longrightarrow> list_all exact_form is \<Longrightarrow>
   x86_run is m = Some m' \<Longrightarrow> c + int (length is) \<le> mx \<Longrightarrow> sim B E s (lift_loop is c mx st) m'"
proof (induction "is" arbitrary: m c st)
  case (Cons i "is")
  from Cons.prems(4) obtain m1 where m1: "x86_step i m = Some m1"
    "(if mnemonic i = ''ret'' \<or> mnemonic i = ''jmp'' then Some m1 else x86_run is m1) = Some m'"
    by (auto elim!: bind_SomeE)
  have room: "n_emitted st + 10 \<le> lb_limit B" using Cons.prems(2) by simp
  have s1: "sim B E s (lift_insn i st) m1"
    using lift_insn_sim [OF Cons.prems(1) room _ m1(1)] Cons.prems(3) by simp
  have ok: "lift_ok B st" using Cons.prems(1) by (simp add: sim_def)
  show ?case
  proof (cases "mnemonic i = ''ret'' \<or> mnemonic i = ''jmp''")
    case True
    with s1 m1(2) Cons.prems(5) show ?thesis by (auto simp: Let_def)
  next
    case False
    have "n_emitted (lift_insn i st) + 10 * length is \<le> lb_limit B"
      using lift_insn_keeps(2) [OF ok room, of i] Cons.prems(2) by simp
    from Cons.IH [OF s1 this, of "c + 1"] False m1(2) Cons.prems(3,5) show ?thesis by (simp add: Let_def)
  qed
qed simp

definition fresh_state :: "u32 \<Rightarrow> string \<Rightarrow> u64 \<Rightarrow> LiftState" where
  "fresh_state first_id name rsp = new_lift_state (set_next_id first_id (new_function name)) rsp"

definition fresh_bounds :: "u32 \<Rightarrow> bounds" where
  "fresh_bounds first_id = \<lparr>lb_base = first_id, lb_limit = 2 ^ 32, lb_ext = {}\<rparr>"

lemma fresh_ok: "lift_ok (fresh_bounds b) (fresh_state b name rsp)"
  using new_lift_state_ok [of "fresh_bounds b" name rsp]
  by (simp add: bounds_ok_def fresh_bounds_def fresh_state_def)

lemma fresh_instrs [simp]: "instrs (func (fresh_state b name rsp)) = []"
  by (simp add: fresh_state_def new_lift_state_def set_next_id_def new_function_def)

text \<open>The machine state that an environment and an initial state of a run stand for.\<close>

definition initial_x86 :: "env \<Rightarrow> state \<Rightarrow> u64 \<Rightarrow> x86_state" where
  "initial_x86 E s rsp =
     \<lparr>x_reg = \<lambda>g. if g = RSP then rsp else sym E (gpr_name g), x_mem = mem s, x_events = trace s\<rparr>"

lemma fresh_reg:
  "get_reg (fresh_state b name rsp) (gpr_name g) = (if g = RSP then Const64 rsp else SymReg (gpr_name g))"
  by (cases g) (simp_all add: fresh_state_def new_lift_state_def get_reg_def default_regs_def)

lemma fresh_sim: "sim (fresh_bounds b) E s (fresh_state b name rsp) (initial_x86 E s rsp)"
  by (simp add: sim_def fresh_ok fresh_reg lx_def initial_x86_def)

subsection \<open>Properties\<close>

text \<open>
  Lifted code is in single-assignment form, whatever the decoder returns: the
  instructions of a block are numbered consecutively from the function's first id, every
  operand and every register of the final state that names an instruction names an earlier one
  of the block, and no id is assigned twice, as long as fewer than \<open>2 ^ 32\<close> ids are used (a
  machine instruction uses at most ten).
\<close>

theorem lift_block_ssa:
  assumes "10 * length (decode code va) \<le> 2 ^ 32"
    and "st = lift_block (Some decode) code va (fresh_state first_id name rsp) max_instrs"
  shows "ssa (instrs (func st))
    \<and> map result_id (instrs (func st)) = map (\<lambda>k. first_id + of_nat k) [0..<length (instrs (func st))]
    \<and> next_id (func st) = first_id + of_nat (length (instrs (func st)))
    \<and> (\<forall>i \<in> set (instrs (func st)). set (ref_ids i) \<subseteq> ids (instrs (func st)))
    \<and> (\<forall>n j. map_of (regs st) n = Some (InstrRef j) \<longrightarrow> j \<in> ids (instrs (func st)))"
proof -
  let ?B = "fresh_bounds first_id"
  have "lift_ok ?B st"
    using lift_loop_keeps [OF fresh_ok, of first_id name rsp "decode code va" 0 max_instrs] assms
    by (simp add: lift_block_def fresh_bounds_def)
  then have ok: "ssa (instrs (func st))"
    "map result_id (instrs (func st)) = map (\<lambda>k. first_id + of_nat k) [0..<n_emitted st]"
    "next_id (func st) = first_id + of_nat (n_emitted st)"
    "\<forall>i \<in> set (instrs (func st)). set (ref_ids i) \<subseteq> known_ids ?B (n_emitted st)"
    "\<forall>nv \<in> set (regs st). val_ok ?B st (snd nv)"
    by (auto simp: lift_ok_def fresh_bounds_def)
  have "set (map result_id (instrs (func st))) = known_ids ?B (n_emitted st)"
    by (simp add: ok(2) known_ids_def fresh_bounds_def lessThan_atLeast0)
  then have known: "known_ids ?B (n_emitted st) = ids (instrs (func st))" by simp
  have "j \<in> ids (instrs (func st))" if "map_of (regs st) n = Some (InstrRef j)" for n j
    using map_of_SomeD [OF that] ok(5) known by (force simp: val_ok_def)
  then show ?thesis using ok(1-3) ok(4) [unfolded known] by blast
qed

definition sample_code :: "cs_insn list" where
  "sample_code =
     [\<lparr>mnemonic = ''mov'', insn_address = 0x1000, insn_size = 3, x86_operands = [X86_OP_REG (R64 RAX), X86_OP_REG (R64 RCX)]\<rparr>,
      \<lparr>mnemonic = ''push'', insn_address = 0x1003, insn_size = 1, x86_operands = [X86_OP_REG (R64 RAX)]\<rparr>,
      \<lparr>mnemonic = ''add'', insn_address = 0x1004, insn_size = 8,
        x86_operands = [X86_OP_REG (R64 RAX), X86_OP_MEM (R64 RDX) (R64 RBX) 4 0x20]\<rparr>,
      \<lparr>mnemonic = ''shl'', insn_address = 0x100C, insn_size = 3, x86_operands = [X86_OP_REG (R64 RAX), X86_OP_REG (R8L RCX)]\<rparr>,
      \<lparr>mnemonic = ''jmp'', insn_address = 0x100F, insn_size = 2, x86_operands = [X86_OP_REG (R64 RAX)]\<rparr>]"

theorem lift_block_ssa_witness:
  "ssa (instrs (func (lift_block (Some (\<lambda>c va. sample_code)) [] 0x1000 (fresh_state 7 ''f'' 0x8000) 500)))"
proof -
  have "10 * length ((\<lambda>c va. sample_code) ([] :: u8 list) (0x1000 :: u64)) \<le> 2 ^ 32"
    by (simp add: sample_code_def)
  from lift_block_ssa [OF this refl] show ?thesis by blast
qed

text \<open>
  Property C23. Lifting is right on the instructions of the reference semantics, in the forms the
  lifter is meant for: running the lifted block ends with the memory and the jumps of the
  processor, and the \<open>Value\<close> the lifter keeps for a register evaluates to what the register
  holds.
\<close>

theorem lift_refines_x86:
  assumes "x86_run (decode code va) (initial_x86 E s rsp) = Some m"
    and "list_all exact_form (decode code va)"
    and "10 * length (decode code va) \<le> 2 ^ 32" "int (length (decode code va)) \<le> max_instrs"
    and "st = lift_block (Some decode) code va (fresh_state first_id name rsp) max_instrs"
  shows "mem (exec E s (instrs (func st))) = x_mem m
    \<and> trace (exec E s (instrs (func st))) = x_events m
    \<and> (\<forall>g. eval_val E (exec E s (instrs (func st))) (get_reg st (gpr_name g)) = x_reg m g)"
proof -
  have "sim (fresh_bounds first_id) E s st m"
    using lift_loop_sim [OF fresh_sim, of first_id name rsp "decode code va"] assms
    by (simp add: lift_block_def fresh_bounds_def)
  then show ?thesis by (simp add: sim_def lx_def)
qed

lemma sample_run:
  "\<exists>m. x86_run sample_code (initial_x86 E s rsp) = Some m \<and> x_reg m RSP = rsp - 8"
  by (simp add: sample_code_def x86_step_def x86_read_def x86_write_def x86_ea_def x86_push_def x86_alu_def
      x86_shift_def x86_count_def Let_def initial_x86_def)

theorem lift_refines_x86_witness:
  "\<forall>E s. eval_val E (exec E s (instrs (func (lift_block (Some (\<lambda>c va. sample_code)) [] 0x1000 (fresh_state 7 ''f'' 0x8000) 500))))
      (get_reg (lift_block (Some (\<lambda>c va. sample_code)) [] 0x1000 (fresh_state 7 ''f'' 0x8000) 500) ''rsp'') = 0x7FF8"
proof (intro allI)
  fix E s
  obtain m where m: "x86_run sample_code (initial_x86 E s 0x8000) = Some m" "x_reg m RSP = 0x7FF8"
    using sample_run [of E s "0x8000"] by auto
  have "list_all exact_form sample_code"
    by (simp add: sample_code_def exact_form_def reg_arg_def plain_dst_def)
  with lift_refines_x86 [of "\<lambda>c va. sample_code" "[]" "0x1000" E s "0x8000" m 500 _ 7 "''f''", OF _ _ _ _ refl] m
  show "eval_val E (exec E s (instrs (func (lift_block (Some (\<lambda>c va. sample_code)) [] 0x1000 (fresh_state 7 ''f'' 0x8000) 500))))
      (get_reg (lift_block (Some (\<lambda>c va. sample_code)) [] 0x1000 (fresh_state 7 ''f'' 0x8000) 500) ''rsp'') = 0x7FF8"
    by (auto simp: sample_code_def dest!: spec [of _ RSP])
qed

text \<open>
  From machine code through the optimizer: a block lifted and then folded, the way
  the guided evaluator treats it, still computes what the processor computes, when its stores do
  not overlap each other.
\<close>

theorem lift_and_fold_refines_x86:
  assumes "x86_run (decode code va) (initial_x86 E s rsp) = Some m"
    and "list_all exact_form (decode code va)"
    and "10 * length (decode code va) \<le> 2 ^ 32" "int (length (decode code va)) \<le> max_instrs"
    and "st = lift_block (Some decode) code va (fresh_state first_id name rsp) max_instrs"
    and "no_calls (instrs (func st))" "stores_isolated E s (instrs (func st))"
    and "run_fold_convergence (func st) max_iters = Some (f', report)"
  shows "mem (exec E s (instrs f')) = x_mem m \<and> trace (exec E s (instrs f')) = x_events m
    \<and> (\<forall>g. eval_val E (exec E s (instrs f')) (get_reg st (gpr_name g)) = x_reg m g)"
proof -
  let ?B = "fresh_bounds first_id"
  have "sim ?B E s st m"
    using lift_loop_sim [OF fresh_sim, of first_id name rsp "decode code va"] assms(1-5)
    by (simp add: lift_block_def fresh_bounds_def)
  then have sim: "lift_ok ?B st" "mem (exec E s (instrs (func st))) = x_mem m"
    "trace (exec E s (instrs (func st))) = x_events m"
    "\<forall>g. eval_val E (exec E s (instrs (func st))) (get_reg st (gpr_name g)) = x_reg m g"
    by (simp_all add: sim_def lx_def)
  then have "ssa (instrs (func st))" by (simp add: lift_ok_def)
  then have "fold_good E s (func st)" using assms(6,7) by (simp add: fold_good_def)
  from fold_pipeline.converge_good [OF assms(8) [unfolded run_fold_convergence_def] this]
  have "exec E s (instrs f') = exec E s (instrs (func st))" by (auto simp: fold_rel_def)
  with sim show ?thesis by simp
qed

definition constant_code :: "cs_insn list" where
  "constant_code =
     [\<lparr>mnemonic = ''mov'', insn_address = 0, insn_size = 7, x86_operands = [X86_OP_REG (R64 RAX), X86_OP_IMM 5]\<rparr>,
      \<lparr>mnemonic = ''add'', insn_address = 7, insn_size = 4, x86_operands = [X86_OP_REG (R64 RAX), X86_OP_IMM 3]\<rparr>,
      \<lparr>mnemonic = ''jmp'', insn_address = 11, insn_size = 2, x86_operands = [X86_OP_REG (R64 RAX)]\<rparr>]"

theorem lift_and_fold_refines_x86_witness:
  "\<exists>f' report. run_fold_convergence (func (lift_block (Some (\<lambda>c va. constant_code)) [] 0 (fresh_state 0 ''f'' 0x8000) 500)) 8
      = Some (f', report)
     \<and> (\<forall>E s. trace (exec E s (instrs f')) = trace s @ [E_Jump [8]])"
proof -
  let ?st = "lift_block (Some (\<lambda>c va. constant_code)) [] 0 (fresh_state 0 ''f'' 0x8000) 500"
  have lifted: "map (\<lambda>i. (op i, operands i)) (instrs (func ?st))
      = [(Op_ADD, [Const64 5, Const64 3]), (Op_JMP, [InstrRef 0])]"
    by code_simp
  then obtain i j where ij: "instrs (func ?st) = [i, j]" "op i = Op_ADD" "op j = Op_JMP" by auto
  have "map_option (\<lambda>_. ()) (run_fold_convergence (func ?st) 8) = Some ()" by code_simp
  then obtain f' report where run: "run_fold_convergence (func ?st) 8 = Some (f', report)" by auto
  have "no_calls (instrs (func ?st))" "\<And>E s. stores_isolated E s (instrs (func ?st))"
    by (simp_all add: ij no_calls_def stores_isolated_def store_targets_def is_store_def)
  moreover have "\<exists>m. x86_run constant_code (initial_x86 E s 0x8000) = Some m \<and> x_events m = trace s @ [E_Jump [8]]" for E s
    by (simp add: constant_code_def x86_step_def x86_read_def x86_write_def x86_alu_def initial_x86_def)
  moreover have "list_all exact_form constant_code"
    by (simp add: constant_code_def exact_form_def reg_arg_def plain_dst_def)
  moreover have "length constant_code = 3" by (simp add: constant_code_def)
  ultimately have "trace (exec E s (instrs f')) = trace s @ [E_Jump [8]]" for E s
    using lift_and_fold_refines_x86 [of "\<lambda>c va. constant_code" "[]" 0 E s "0x8000" _ 500 ?st 0 "''f''" 8 f' report] run
    by fastforce
  with run show ?thesis by blast
qed

text \<open>
  Property C24. Where the lifter departs from the processor, on one instruction each: a binary
  operation with a memory destination computes but never stores; the index register of a store
  address is ignored; a move between 32-bit registers moves all 64 bits, although the register
  table says it treats them with zero extension; and all conditional jumps lift to the same
  operation on the same operands, whatever their condition.
\<close>

definition add_mem :: cs_insn where
  "add_mem = \<lparr>mnemonic = ''add'', insn_address = 0, insn_size = 4,
     x86_operands = [X86_OP_MEM (R64 RAX) RegInvalid 1 0, X86_OP_IMM 1]\<rparr>"

definition mov_indexed :: cs_insn where
  "mov_indexed = \<lparr>mnemonic = ''mov'', insn_address = 0, insn_size = 4,
     x86_operands = [X86_OP_MEM (R64 RAX) (R64 RCX) 8 0, X86_OP_REG (R64 RDX)]\<rparr>"

definition mov_32 :: cs_insn where
  "mov_32 = \<lparr>mnemonic = ''mov'', insn_address = 0, insn_size = 2,
     x86_operands = [X86_OP_REG (R32 RAX), X86_OP_REG (R32 RBX)]\<rparr>"

definition jump_if :: "string \<Rightarrow> cs_insn" where
  "jump_if mn = \<lparr>mnemonic = mn, insn_address = 0, insn_size = 2, x86_operands = [X86_OP_IMM 0x40]\<rparr>"


end
