(* ===== verification/Recovered_CFG.thy ===== *)
theory Recovered_CFG
  imports CFG_Recovery
begin

section \<open>Properties of the recovered graph (src/eval/cfg_recovery.cpp)\<close>

text \<open>
  What \<open>recover\<close> promises for every oracle: it ends, the graph is well formed and
  reachable from its entry, every block is the oracle's segment, edges marked as back edges
  are those to a block created no later than their source, and phi nodes have one value per
  predecessor and fresh ids. Concrete recoveries show where the marks and the phi nodes
  differ from what their names promise.
\<close>

subsection \<open>Phi nodes\<close>

lemma phi_pairs_Some:
  "phi_pairs incs r = Some ps \<Longrightarrow> map fst ps = map fst incs
     \<and> list_all2 (\<lambda>p inc. vm_find (snd inc) r = Some (snd p)) ps incs"
proof (induction incs arbitrary: ps)
  case (Cons inc incs)
  then show ?case by (auto split: option.splits)
qed simp

lemma needs_phi_pairs:
  "needs_phi (phi_pairs incs r) \<Longrightarrow> \<exists>ps. phi_pairs incs r = Some ps \<and> length ps \<ge> 2
     \<and> (\<exists>p \<in> set ps. snd p \<noteq> snd (ps ! 0))"
  by (auto simp: needs_phi_def list_all_iff split: option.splits)

lemma block_phis_facts:
  "block_phis incs regs n = (phis, n') \<Longrightarrow>
     map phi_reg phis = filter (\<lambda>r. needs_phi (phi_pairs incs r)) regs
     \<and> map phi_id phis = map (\<lambda>k. n + of_nat k) [0..<length phis] \<and> n' = n + of_nat (length phis)
     \<and> (\<forall>p \<in> set phis. phi_pairs incs (phi_reg p) = Some (phi_incoming p))"
proof (induction incs regs n arbitrary: phis n' rule: block_phis.induct)
  case (2 incs reg regs n)
  show ?case
  proof (cases "needs_phi (phi_pairs incs reg)")
    case True
    obtain ps m where ps: "block_phis incs regs (n + 1) = (ps, m)" by force
    from needs_phi_pairs [OF True] obtain q where q: "phi_pairs incs reg = Some q" by blast
    from 2(1) [OF refl True ps] have IH: "map phi_reg ps = filter (\<lambda>r. needs_phi (phi_pairs incs r)) regs"
      "map phi_id ps = map (\<lambda>k. n + 1 + of_nat k) [0..<length ps]" "m = n + 1 + of_nat (length ps)"
      "\<forall>p \<in> set ps. phi_pairs incs (phi_reg p) = Some (phi_incoming p)" by auto
    have "phis = \<lparr>phi_id = n, phi_reg = reg, phi_incoming = q\<rparr> # ps" "n' = m"
      using 2(3) True ps q by (simp_all add: Let_def)
    moreover have "map (\<lambda>k. n + of_nat k) [0..<Suc (length ps)] = n # map (\<lambda>k. n + 1 + of_nat k) [0..<length ps]"
      by (simp add: upt_rec [of 0] map_Suc_upt [symmetric] del: upt_Suc)
    ultimately show ?thesis using IH True q by (simp add: algebra_simps del: upt_Suc)
  next
    case False
    with 2 show ?thesis by simp
  qed
qed simp

definition all_phis :: "BasicBlock list \<Rightarrow> PhiNode list" where
  "all_phis bs = concat (map bb_phis bs)"

text \<open>The phi nodes the construction owes a block.\<close>

definition wanted_phis :: "rec_state \<Rightarrow> string list \<Rightarrow> u32 \<Rightarrow> string list" where
  "wanted_phis st tracked b = filter (\<lambda>r. needs_phi (phi_pairs (incoming_of st b) r)) tracked"

lemma few_incoming_no_phi: "length incs < 2 \<Longrightarrow> \<not> needs_phi (phi_pairs incs r)"
proof
  assume "length incs < 2" "needs_phi (phi_pairs incs r)"
  moreover from needs_phi_pairs [OF this(2)] obtain ps where ps: "phi_pairs incs r = Some ps" "length ps \<ge> 2"
    by blast
  moreover have "length ps = length incs"
    using phi_pairs_Some [OF ps(1)] by (metis length_map)
  ultimately show False by simp
qed

lemma add_phis_facts:
  assumes "\<forall>b \<in> set bs. bb_phis b = []"
  shows "map phi_id (all_phis (add_phis st tr bs n)) = map (\<lambda>k. n + of_nat k) [0..<length (all_phis (add_phis st tr bs n))]
    \<and> (\<forall>b \<in> set (add_phis st tr bs n).
          map phi_reg (bb_phis b) = wanted_phis st tr (bb_id b)
          \<and> (\<forall>p \<in> set (bb_phis b). phi_pairs (incoming_of st (bb_id b)) (phi_reg p) = Some (phi_incoming p)))"
  using assms
proof (induction bs arbitrary: n)
  case (Cons b bs)
  show ?case
  proof (cases "length (incoming_of st (bb_id b)) < 2")
    case True
    then have "wanted_phis st tr (bb_id b) = []"
      by (auto simp: wanted_phis_def filter_empty_conv dest: few_incoming_no_phi)
    with True Cons show ?thesis by (simp add: all_phis_def)
  next
    case False
    obtain phis n' where bp: "block_phis (incoming_of st (bb_id b)) tr n = (phis, n')" by force
    from block_phis_facts [OF bp] have facts: "map phi_reg phis = wanted_phis st tr (bb_id b)"
      "map phi_id phis = map (\<lambda>k. n + of_nat k) [0..<length phis]" "n' = n + of_nat (length phis)"
      "\<forall>p \<in> set phis. phi_pairs (incoming_of st (bb_id b)) (phi_reg p) = Some (phi_incoming p)"
      by (auto simp: wanted_phis_def)
    let ?r = "add_phis st tr bs n'"
    have eq: "add_phis st tr (b # bs) n = b\<lparr>bb_phis := phis\<rparr> # ?r"
      using False bp Cons.prems by (simp add: Let_def)
    have IH: "map phi_id (all_phis ?r) = map (\<lambda>k. n' + of_nat k) [0..<length (all_phis ?r)]"
      "\<forall>b \<in> set ?r. map phi_reg (bb_phis b) = wanted_phis st tr (bb_id b)
          \<and> (\<forall>p \<in> set (bb_phis b). phi_pairs (incoming_of st (bb_id b)) (phi_reg p) = Some (phi_incoming p))"
      using Cons.IH [of n'] Cons.prems by auto
    have all: "all_phis (add_phis st tr (b # bs) n) = phis @ all_phis ?r"
      by (simp only: eq all_phis_def) simp
    have "[0..<length phis + length (all_phis ?r)] = [0..<length phis] @ map (\<lambda>k. k + length phis) [0..<length (all_phis ?r)]"
      by (simp only: map_add_upt add.commute [of "length (all_phis _)"] upt_add_eq_append [OF le0])
    then have "map (\<lambda>k. n + of_nat k) [0..<length phis + length (all_phis ?r)]
        = map phi_id phis @ map phi_id (all_phis ?r)"
      using IH(1) facts(2,3) by (simp add: algebra_simps)
    moreover have "map phi_reg (bb_phis (b\<lparr>bb_phis := phis\<rparr>)) = wanted_phis st tr (bb_id (b\<lparr>bb_phis := phis\<rparr>))"
      using facts(1) by simp
    ultimately show ?thesis
      unfolding all unfolding eq using facts(4) IH(2) by simp
  qed
qed (simp add: all_phis_def)

lemma max_result_id_ge:
  assumes "b \<in> set (cfg_blocks cfg)" "i \<in> set (bb_instrs b)"
  shows "result_id i \<le> max_result_id cfg"
proof -
  have m1: "m \<le> foldl (\<lambda>m i. max m (g i)) m xs" for m xs and g :: "'x \<Rightarrow> u32"
    by (induction xs arbitrary: m) (auto intro: order_trans [OF max.cobounded1])
  have m2: "x \<in> set xs \<Longrightarrow> g x \<le> foldl (\<lambda>m i. max m (g i)) m xs" for m x xs and g :: "'x \<Rightarrow> u32"
    by (induction xs arbitrary: m) (auto intro: order_trans [OF max.cobounded2 m1])
  let ?f = "\<lambda>m b. foldl (\<lambda>m p. max m (phi_id p)) (foldl (\<lambda>m i. max m (result_id i)) m (bb_instrs b)) (bb_phis b)"
  have m3: "m \<le> foldl ?f m bs" for m bs
  proof (induction bs arbitrary: m)
    case (Cons c bs)
    have "m \<le> ?f m c" by (rule order_trans [OF m1 m1])
    also have "\<dots> \<le> foldl ?f (?f m c) bs" by (rule Cons)
    finally show ?case by simp
  qed simp
  have "result_id i \<le> foldl ?f m bs" if "b \<in> set bs" for m bs
    using that
  proof (induction bs arbitrary: m)
    case (Cons c bs)
    show ?case
    proof (cases "b = c")
      case True
      then have "result_id i \<le> ?f m c"
        using order_trans [OF m2 [OF assms(2), of result_id] m1] by simp
      also have "\<dots> \<le> foldl ?f (?f m c) bs" by (rule m3)
      finally show ?thesis by simp
    next
      case False
      with Cons show ?thesis by simp
    qed
  qed simp
  with assms(1) show ?thesis by (simp add: max_result_id_def)
qed

lemma max_result_id_attained:
  assumes "\<forall>b \<in> set (cfg_blocks cfg). bb_phis b = []" "max_result_id cfg \<noteq> 0"
  shows "\<exists>b \<in> set (cfg_blocks cfg). \<exists>i \<in> set (bb_instrs b). result_id i = max_result_id cfg"
proof -
  have m: "foldl (\<lambda>m i. max m (result_id i)) m is = m \<or> (\<exists>i \<in> set is. result_id i = foldl (\<lambda>m i. max m (result_id i)) m is)"
    for m "is"
    by (induction "is" arbitrary: m) (force simp: max_def)+
  let ?f = "\<lambda>m b. foldl (\<lambda>m p. max m (phi_id p)) (foldl (\<lambda>m i. max m (result_id i)) m (bb_instrs b)) (bb_phis b)"
  have "foldl ?f m bs = m \<or> (\<exists>b \<in> set bs. \<exists>i \<in> set (bb_instrs b). result_id i = foldl ?f m bs)"
    if "\<forall>b \<in> set bs. bb_phis b = []" for m bs
    using that
  proof (induction bs arbitrary: m)
    case (Cons c bs)
    have "?f m c = foldl (\<lambda>m i. max m (result_id i)) m (bb_instrs c)" using Cons.prems by simp
    with Cons.IH [of "?f m c"] Cons.prems m [of m "bb_instrs c"] show ?case by auto
  qed simp
  from this [OF assms(1), of 0] assms(2) show ?thesis by (simp add: max_result_id_def)
qed

lemma finish_cfg_phi_ids:
  "map phi_id (all_phis (cfg_blocks (finish_cfg config i e st)))
     = map phi_id (all_phis (add_phis st (tracked_names config st) (cfg_blocks (r_cfg st)) (max_result_id (r_cfg st) + 1)))"
  by (simp add: finish_cfg_def Let_def all_phis_def rewrite_block_def map_concat o_def)

lemma finish_cfg_phi_preds:
  assumes "b \<in> set (cfg_blocks (finish_cfg config i e st))" "p \<in> set (bb_phis b)"
  shows "\<exists>b' \<in> set (add_phis st (tracked_names config st) (cfg_blocks (r_cfg st)) (max_result_id (r_cfg st) + 1)).
    \<exists>p' \<in> set (bb_phis b'). bb_id b' = bb_id b \<and> phi_reg p' = phi_reg p
      \<and> map fst (phi_incoming p') = map fst (phi_incoming p)"
  using assms
  by (auto simp: finish_cfg_def Let_def rewrite_block_def o_def case_prod_unfold split: if_splits) force+

subsection \<open>Reading the invariant off the recovered graph\<close>

lemma to_label_inject: "vpc_label v = vpc_label w \<longleftrightarrow> v = w"
  by (simp add: vpc_label_def to_hex_inject flip: word_unat_eq_iff)

lemma finish_ids:
  assumes "table_inv vs st"
  shows "map bb_id (cfg_blocks (finish_cfg config i 0 st)) = map of_nat [0..<length (cfg_blocks (finish_cfg config i 0 st))]"
    "map bb_label (cfg_blocks (finish_cfg config i 0 st)) = map vpc_label vs"
proof -
  show "map bb_id (cfg_blocks (finish_cfg config i 0 st)) = map of_nat [0..<length (cfg_blocks (finish_cfg config i 0 st))]"
    using assms finish_cfg_nth(1) [of _ st] numbered_nth [of "r_cfg st"]
    by (intro nth_equalityI) (auto simp: table_inv_def)
  have "map bb_label (cfg_blocks (finish_cfg config i 0 st)) = map bb_label (cfg_blocks (r_cfg st))"
    using finish_cfg_nth(2) [of _ st] by (intro nth_equalityI) auto
  then show "map bb_label (cfg_blocks (finish_cfg config i 0 st)) = map vpc_label vs"
    using assms by (simp add: table_inv_def)
qed

lemma bfs_edges:
  assumes inv: "bfs_inv oracle config i vs p st" and e: "e \<in> set (cfg_edges (r_cfg st))"
  shows "\<exists>k v. k < p \<and> v \<in> set vs \<and> edge_from e = of_nat k \<and> edge_to e = of_nat (vpc_index vs v)
    \<and> (is_backedge e \<longleftrightarrow> v \<in> set (take (Suc k) vs))"
proof -
  obtain k where k: "k < p" "edge_from e = of_nat k" using inv e by (auto simp: bfs_inv_def)
  then have "done_block oracle config i vs st k" using inv by (simp add: bfs_inv_def)
  then obtain res where res: "fst ` set (seg_targets res) \<subseteq> set vs"
    "out_edges st k = new_edges vs (of_nat k) (set (take (Suc k) vs)) res" by (auto simp: done_block_def)
  have "e \<in> set (out_edges st k)" using e k(2) by (simp add: out_edges_def)
  with res(2) obtain q where q: "q \<in> set (seg_targets res)" "edge_to e = vpc_id vs (fst q)"
    "is_backedge e \<longleftrightarrow> fst q \<in> set (take (Suc k) vs)" by (auto simp: new_edges_def)
  with res(1) k show ?thesis by (intro exI [of _ k] exI [of _ "fst q"]) (auto simp: vpc_id_def)
qed

lemma bfs_reach:
  assumes inv: "bfs_inv oracle config i vs p st" and "k < length vs"
  shows "(0, of_nat k) \<in> {(edge_from e, edge_to e) |e. e \<in> set (cfg_edges (r_cfg st))}\<^sup>*"
  using assms(2)
proof (induction k rule: less_induct)
  case (less k)
  show ?case
  proof (cases "k = 0")
    case False
    with inv less.prems obtain e j where e: "e \<in> set (cfg_edges (r_cfg st))" "edge_to e = of_nat k"
      "j < k" "edge_from e = of_nat j" by (auto simp: bfs_inv_def)
    with less have "(0, edge_from e) \<in> {(edge_from e, edge_to e) |e. e \<in> set (cfg_edges (r_cfg st))}\<^sup>*" by auto
    moreover have "(edge_from e, edge_to e) \<in> {(edge_from e, edge_to e) |e. e \<in> set (cfg_edges (r_cfg st))}"
      using e(1) by blast
    ultimately show ?thesis unfolding e(2) [symmetric] by (rule rtrancl_into_rtrancl)
  qed simp
qed

lemma bfs_well_formed:
  assumes inv: "bfs_inv oracle config i vs p st" and mb: "max_blocks config < 2 ^ 31"
  defines "cfg \<equiv> finish_cfg config i 0 st"
  shows "map bb_id (cfg_blocks cfg) = map of_nat [0..<length (cfg_blocks cfg)]"
    "int (length (cfg_blocks cfg)) \<le> max 1 (max_blocks config + 2)" "entry_block cfg = 0"
    "map_option bb_label (block_by_id cfg 0) = Some (vpc_label (entry_vpc config))"
    "distinct (map bb_label (cfg_blocks cfg))"
    "\<forall>e \<in> set (cfg_edges cfg). edge_from e \<in> set (map bb_id (cfg_blocks cfg)) \<and> edge_to e \<in> set (map bb_id (cfg_blocks cfg))"
    "\<forall>b \<in> set (cfg_blocks cfg). (0, bb_id b) \<in> {(edge_from e, edge_to e) |e. e \<in> set (cfg_edges cfg)}\<^sup>*"
proof -
  note I = inv [unfolded bfs_inv_def]
  have tab: "table_inv vs st" using I by blast
  have len: "length (cfg_blocks cfg) = length vs" "length (cfg_blocks (r_cfg st)) = length vs"
    using tab by (simp_all add: table_inv_def cfg_def)
  show ids: "map bb_id (cfg_blocks cfg) = map of_nat [0..<length (cfg_blocks cfg)]"
    using finish_ids(1) [OF tab] by (simp add: cfg_def)
  have labels: "map bb_label (cfg_blocks cfg) = map vpc_label vs" using finish_ids(2) [OF tab] by (simp add: cfg_def)
  show "int (length (cfg_blocks cfg)) \<le> max 1 (max_blocks config + 2)" "entry_block cfg = 0"
    using I len by (simp_all add: cfg_def)
  show "distinct (map bb_label (cfg_blocks cfg))"
    unfolding labels using tab by (simp add: table_inv_def distinct_map inj_on_def to_label_inject)
  have idset: "set (map bb_id (cfg_blocks cfg)) = of_nat ` {0..<length vs}"
    unfolding ids len by (simp only: set_map set_upt)
  obtain b bs where b: "cfg_blocks cfg = b # bs" using len I by (cases "cfg_blocks cfg") auto
  from ids have "map bb_id (cfg_blocks cfg) ! 0 = map of_nat [0..<length (cfg_blocks cfg)] ! 0" by simp
  then have "bb_id b = 0" by (simp add: b del: upt_Suc)
  moreover have "bb_label b = vpc_label (entry_vpc config)" using labels b I by (cases vs) auto
  ultimately show "map_option bb_label (block_by_id cfg 0) = Some (vpc_label (entry_vpc config))"
    by (simp add: block_by_id_def b)
  show "\<forall>e \<in> set (cfg_edges cfg). edge_from e \<in> set (map bb_id (cfg_blocks cfg)) \<and> edge_to e \<in> set (map bb_id (cfg_blocks cfg))"
  proof
    fix e assume "e \<in> set (cfg_edges cfg)"
    then have "e \<in> set (cfg_edges (r_cfg st))" by (simp add: cfg_def)
    from bfs_edges [OF inv this] obtain k v where kv: "k < p" "v \<in> set vs" "edge_from e = of_nat k"
      "edge_to e = of_nat (vpc_index vs v)" by blast
    moreover have "p \<le> length vs" using I by blast
    ultimately show "edge_from e \<in> set (map bb_id (cfg_blocks cfg)) \<and> edge_to e \<in> set (map bb_id (cfg_blocks cfg))"
      unfolding idset using vpc_index_less [OF kv(2)] by auto
  qed
  show "\<forall>b \<in> set (cfg_blocks cfg). (0, bb_id b) \<in> {(edge_from e, edge_to e) |e. e \<in> set (cfg_edges cfg)}\<^sup>*"
  proof
    fix b assume "b \<in> set (cfg_blocks cfg)"
    then have "bb_id b \<in> of_nat ` {0..<length vs}" unfolding idset [symmetric] by simp
    then obtain k where "k < length vs" "bb_id b = of_nat k" by auto
    with bfs_reach [OF inv this(1)]
    show "(0, bb_id b) \<in> {(edge_from e, edge_to e) |e. e \<in> set (cfg_edges cfg)}\<^sup>*" by (simp add: cfg_def)
  qed
qed

text \<open>The successors a terminator names.\<close>

definition term_succs :: "Terminator \<Rightarrow> u32 option list" where
  "term_succs t =
     (case term_kind t of
        Term_JMP \<Rightarrow> [term_target t]
      | Term_CJMP \<Rightarrow> [term_target t, term_fallthrough t]
      | _ \<Rightarrow> [])"

lemma term_succs_seg: "term_succs (seg_term vs res) = map (\<lambda>q. Some (vpc_id vs (fst q))) (seg_targets res)"
  by (auto simp: term_succs_def seg_term_def seg_targets_def default_term_def
      split: SegmentKind.splits option.splits)

lemma bfs_lookup:
  assumes inv: "bfs_inv oracle config i vs p st" and mb: "max_blocks config < 2 ^ 31" and v: "v \<in> set vs"
  shows "map_option bb_label (block_by_id (finish_cfg config i 0 st) (vpc_id vs v)) = Some (vpc_label v)"
proof -
  let ?cfg = "finish_cfg config i 0 st"
  have tab: "table_inv vs st" and len: "length (cfg_blocks ?cfg) = length vs"
    using inv by (auto simp: bfs_inv_def table_inv_def)
  have "length vs < 2 ^ 32" using tab by (simp add: table_inv_def numbered_def)
  then have num: "numbered (?cfg\<lparr>next_block_id := of_nat (length vs)\<rparr>)"
    using finish_ids(1) [OF tab, of config i] len by (simp add: numbered_def)
  have "map bb_label (cfg_blocks ?cfg) ! vpc_index vs v = vpc_label v"
    using finish_ids(2) [OF tab, of config i] vpc_index_less [OF v] nth_vpc_index [OF v] by simp
  moreover have "block_by_id (?cfg\<lparr>next_block_id := of_nat (length vs)\<rparr>) (vpc_id vs v) = Some (cfg_blocks ?cfg ! vpc_index vs v)"
    using numbered_lookup(1) [OF num, of "vpc_index vs v"] vpc_index_less [OF v] len by (simp add: vpc_id_def)
  ultimately show ?thesis
    using vpc_index_less [OF v] len by (simp add: block_by_id_def)
qed

subsection \<open>Examples\<close>

definition goto :: "u64 \<Rightarrow> VMState \<Rightarrow> SegmentResult" where
  "goto v st = default_segment\<lparr>seg_kind := Seg_Goto, next_vpc := Some v, out_state := st\<rparr>"

definition branch_to :: "u64 \<Rightarrow> VMState \<Rightarrow> u64 \<Rightarrow> VMState \<Rightarrow> SegmentResult" where
  "branch_to t st f st' =
     default_segment\<lparr>seg_kind := Seg_Branch, seg_condition := Some (SymReg ''flag''), vpc_taken := Some t,
       vpc_not_taken := Some f, out_state_taken := st, out_state_not_taken := st'\<rparr>"

text \<open>The diamond of the repository's test: 0x100 branches to 0x200 and 0x300, both go to
  0x400; rax differs on the two arms and rbx does not.\<close>

definition diamond_oracle :: "unit segment_oracle" where
  "diamond_oracle s v st =
     Some (if v = 0x100 then branch_to 0x200 [(''rax'', Const64 1), (''rbx'', Const64 7)]
                                       0x300 [(''rax'', Const64 2), (''rbx'', Const64 7)]
           else if v = 0x200 then goto 0x400 [(''rax'', Const64 1), (''rbx'', Const64 7)]
           else if v = 0x300 then goto 0x400 [(''rax'', Const64 2), (''rbx'', Const64 7)]
           else default_segment\<lparr>seg_kind := Seg_Ret, ret_value := Some (SymReg ''rax'')\<rparr>, s)"

definition plain_config :: "u64 \<Rightarrow> CFGRecoveryConfig" where
  "plain_config v = \<lparr>entry_vpc = v, max_blocks = 8192, tracked_regs = [], full_ssa = False\<rparr>"

lemma diamond_run:
  "map_option (\<lambda>(cfg, s).
      (map (\<lambda>b. (bb_id b, bb_label b, term_kind (bb_term b), map (\<lambda>p. (phi_id p, phi_reg p, phi_incoming p)) (bb_phis b))) (cfg_blocks cfg),
       map (\<lambda>e. (edge_from e, edge_to e, is_backedge e)) (cfg_edges cfg)))
     (recover diamond_oracle (plain_config 0x100) [] ())
   = Some ([(0, ''vpc_0x100'', Term_CJMP, []), (1, ''vpc_0x200'', Term_JMP, []),
            (2, ''vpc_0x300'', Term_JMP, []),
            (3, ''vpc_0x400'', Term_RET, [(1, ''rax'', [(1, Const64 1), (2, Const64 2)])])],
           [(0, 1, False), (0, 2, False), (1, 3, False), (2, 3, False)])"
  by code_simp

lemma diamond_total: "diamond_oracle s v st \<noteq> None"
  by (simp add: diamond_oracle_def)

lemma diamond_recovered:
  obtains cfg where "recover diamond_oracle (plain_config 0x100) [] () = Some (cfg, ())"
    "map (\<lambda>b. (bb_id b, bb_label b, term_kind (bb_term b), map (\<lambda>p. (phi_id p, phi_reg p, phi_incoming p)) (bb_phis b))) (cfg_blocks cfg)
     = [(0, ''vpc_0x100'', Term_CJMP, []), (1, ''vpc_0x200'', Term_JMP, []), (2, ''vpc_0x300'', Term_JMP, []),
        (3, ''vpc_0x400'', Term_RET, [(1, ''rax'', [(1, Const64 1), (2, Const64 2)])])]"
    "map (\<lambda>e. (edge_from e, edge_to e, is_backedge e)) (cfg_edges cfg)
     = [(0, 1, False), (0, 2, False), (1, 3, False), (2, 3, False)]"
  using diamond_run by (auto split: prod.splits)

lemma diamond_instrs:
  assumes "recover diamond_oracle (plain_config 0x100) [] () = Some (cfg, ())"
  shows "\<forall>b \<in> set (cfg_blocks cfg). bb_instrs b = []"
proof -
  have "map_option (\<lambda>(cfg, s). list_all (\<lambda>b. bb_instrs b = []) (cfg_blocks cfg))
      (recover diamond_oracle (plain_config 0x100) [] ()) = Some True" by code_simp
  with assms show ?thesis by (simp add: list_all_iff)
qed

subsection \<open>Properties\<close>

text \<open>Property C5. Recovery ends with a graph for every oracle that returns on every call,
  whatever it answers: each address is processed at most once and the null pointer of
  \<open>block_by_id\<close> is never dereferenced.\<close>

theorem recover_terminates:
  assumes "\<And>s v x. oracle s v x \<noteq> None" "max_blocks config < 2 ^ 31"
  shows "\<exists>cfg s'. recover oracle config initial_state s = Some (cfg, s')"
proof -
  obtain st where st: "initial_rec_state (entry_vpc config) = (0, st)"
    "bfs_inv oracle config initial_state [entry_vpc config] 0 st" using initial_bfs by blast
  from recover_loop_defined [OF st(2) assms(2,1)] obtain st' s' where
    "recover_loop oracle config initial_state 0 st s = Some (st', s')" by fastforce
  with st(1) show ?thesis by (simp add: recover_def)
qed

theorem recover_terminates_witness:
  "\<exists>cfg s'. recover diamond_oracle (plain_config 0x100) [] () = Some (cfg, s')"
  by (rule recover_terminates) (simp_all add: diamond_total plain_config_def)

text \<open>Property C4. The recovered graph is well formed: blocks are numbered from 0, the entry is
  block 0 and carries the label of the entry address, labels are distinct (one block per
  address), every edge joins two blocks of the graph, every block is reachable from the entry
  along edges, and there are at most two blocks more than the configured maximum.\<close>

theorem recover_well_formed:
  assumes "recover oracle config initial_state s = Some (cfg, s')" "max_blocks config < 2 ^ 31"
  shows "map bb_id (cfg_blocks cfg) = map of_nat [0..<length (cfg_blocks cfg)]
    \<and> int (length (cfg_blocks cfg)) \<le> max 1 (max_blocks config + 2)
    \<and> entry_block cfg = 0 \<and> map_option bb_label (block_by_id cfg 0) = Some (vpc_label (entry_vpc config))
    \<and> distinct (map bb_label (cfg_blocks cfg))
    \<and> (\<forall>e \<in> set (cfg_edges cfg). edge_from e \<in> set (map bb_id (cfg_blocks cfg)) \<and> edge_to e \<in> set (map bb_id (cfg_blocks cfg)))
    \<and> (\<forall>b \<in> set (cfg_blocks cfg). (0, bb_id b) \<in> {(edge_from e, edge_to e) |e. e \<in> set (cfg_edges cfg)}\<^sup>*)"
proof -
  obtain vs p st where inv: "bfs_inv oracle config initial_state vs p st" and cfg: "cfg = finish_cfg config initial_state 0 st"
    using recover_bfs [OF assms] by blast
  note wf = bfs_well_formed [OF inv assms(2)]
  show ?thesis unfolding cfg by (intro conjI) (rule wf)+
qed

theorem recover_well_formed_witness:
  "\<exists>cfg. recover diamond_oracle (plain_config 0x100) [] () = Some (cfg, ())
     \<and> (0, 3) \<in> {(edge_from e, edge_to e) |e. e \<in> set (cfg_edges cfg)}\<^sup>*"
proof -
  obtain cfg where cfg: "recover diamond_oracle (plain_config 0x100) [] () = Some (cfg, ())"
    "map (\<lambda>b. (bb_id b, bb_label b, term_kind (bb_term b), map (\<lambda>p. (phi_id p, phi_reg p, phi_incoming p)) (bb_phis b))) (cfg_blocks cfg)
     = [(0, ''vpc_0x100'', Term_CJMP, []), (1, ''vpc_0x200'', Term_JMP, []), (2, ''vpc_0x300'', Term_JMP, []),
        (3, ''vpc_0x400'', Term_RET, [(1, ''rax'', [(1, Const64 1), (2, Const64 2)])])]"
    by (rule diamond_recovered)
  have "\<exists>b \<in> set (cfg_blocks cfg). bb_id b = 3" using cfg(2) by auto
  then obtain b where b: "b \<in> set (cfg_blocks cfg)" "bb_id b = 3" by blast
  have "max_blocks (plain_config 0x100) < 2 ^ 31" by (simp add: plain_config_def)
  from recover_well_formed [OF cfg(1) this] b(1)
  have "(0, bb_id b) \<in> {(edge_from e, edge_to e) |e. e \<in> set (cfg_edges cfg)}\<^sup>*" by blast
  with b(2) cfg(1) show ?thesis by auto
qed



text \<open>Property C20. The back edge mark is a statement about creation order: an edge is marked exactly
  when its target block was created no later than its source.\<close>

theorem recover_backedges:
  assumes "recover oracle config initial_state s = Some (cfg, s')" "max_blocks config < 2 ^ 31"
    and "e \<in> set (cfg_edges cfg)"
  shows "is_backedge e \<longleftrightarrow> edge_to e \<le> edge_from e"
proof -
  obtain vs p st where inv: "bfs_inv oracle config initial_state vs p st"
    and cfg: "cfg = finish_cfg config initial_state 0 st"
    using recover_bfs [OF assms(1,2)] by blast
  have "e \<in> set (cfg_edges (r_cfg st))" using assms(3) by (simp add: cfg)
  from bfs_edges [OF inv this] obtain k v where kv: "k < p" "v \<in> set vs" "edge_from e = of_nat k"
    "edge_to e = of_nat (vpc_index vs v)" "is_backedge e \<longleftrightarrow> v \<in> set (take (Suc k) vs)" by blast
  have b: "distinct vs" "length vs < 2 ^ 32" "p \<le> length vs"
    using inv by (auto simp: bfs_inv_def table_inv_def numbered_def)
  have idx: "vpc_index vs v < length vs" "vs ! vpc_index vs v = v"
    using kv(2) by (simp_all add: vpc_index_less nth_vpc_index)
  have "v \<in> set (take (Suc k) vs) \<longleftrightarrow> vpc_index vs v \<le> k"
  proof
    assume "v \<in> set (take (Suc k) vs)"
    then obtain j where "j < Suc k" "j < length vs" "vs ! j = v" by (auto simp: in_set_conv_nth)
    then show "vpc_index vs v \<le> k" using vpc_index_nth [OF b(1)] by auto
  next
    assume "vpc_index vs v \<le> k"
    with idx kv(1) b(3) show "v \<in> set (take (Suc k) vs)"
      by (auto simp: in_set_conv_nth intro!: exI [of _ "vpc_index vs v"])
  qed
  moreover have "(of_nat (vpc_index vs v) :: u32) \<le> of_nat k \<longleftrightarrow> vpc_index vs v \<le> k"
    using idx(1) b(2,3) kv(1) by (simp add: word_le_nat_alt take_bit_nat_eq_self unat_of_nat)
  ultimately show ?thesis using kv(3-5) by simp
qed

theorem recover_backedges_witness:
  "\<exists>cfg. recover diamond_oracle (plain_config 0x100) [] () = Some (cfg, ())
     \<and> (\<forall>e \<in> set (cfg_edges cfg). is_backedge e \<longleftrightarrow> edge_to e \<le> edge_from e)"
proof -
  obtain cfg where "recover diamond_oracle (plain_config 0x100) [] () = Some (cfg, ())"
    by (rule diamond_recovered)
  with recover_backedges [OF this] show ?thesis by (auto simp: plain_config_def)
qed

text \<open>Property C19. While ids do not wrap, the phi nodes have pairwise different ids, none of them
  the id of an instruction, and a phi node has at least two incoming values, one for each
  predecessor of its block in the order of the edges.\<close>

theorem recover_phis:
  assumes "recover oracle config initial_state s = Some (cfg, s')" "max_blocks config < 2 ^ 31"
    and "length (all_phis (cfg_blocks cfg)) + 1 < 2 ^ 32"
    and "\<forall>b \<in> set (cfg_blocks cfg). \<forall>i \<in> set (bb_instrs b).
      unat (result_id i) + length (all_phis (cfg_blocks cfg)) + 1 < 2 ^ 32"
  shows "distinct (map phi_id (all_phis (cfg_blocks cfg)))
    \<and> (\<forall>b \<in> set (cfg_blocks cfg). \<forall>i \<in> set (bb_instrs b). result_id i \<notin> set (map phi_id (all_phis (cfg_blocks cfg))))
    \<and> (\<forall>b \<in> set (cfg_blocks cfg). \<forall>p \<in> set (bb_phis b).
          map fst (phi_incoming p) = predecessors cfg (bb_id b) \<and> 2 \<le> length (phi_incoming p))"
proof -
  obtain vs p st where inv: "bfs_inv oracle config initial_state vs p st"
    and cfg: "cfg = finish_cfg config initial_state 0 st"
    using recover_bfs [OF assms(1,2)] by blast
  have tab: "table_inv vs st" and pred: "map fst (incoming_of st b) = predecessors (r_cfg st) b" for b
    using inv by (simp_all add: bfs_inv_def)
  let ?bs = "add_phis st (tracked_names config st) (cfg_blocks (r_cfg st)) (max_result_id (r_cfg st) + 1)"
  let ?n = "length (all_phis (cfg_blocks cfg))" and ?m = "max_result_id (r_cfg st)"
  have nophi: "\<forall>b \<in> set (cfg_blocks (r_cfg st)). bb_phis b = []" using tab by (simp add: table_inv_def)
  note facts = add_phis_facts [OF nophi, of st "tracked_names config st" "?m + 1"]
  have ids: "map phi_id (all_phis (cfg_blocks cfg)) = map (\<lambda>k. ?m + 1 + of_nat k) [0..<?n]"
    using facts finish_cfg_phi_ids [of config initial_state 0 st] unfolding cfg by (metis length_map)
  have instr: "\<exists>b' \<in> set (cfg_blocks cfg). \<exists>i' \<in> set (bb_instrs b'). result_id i' = result_id i"
    if bi: "b \<in> set (cfg_blocks (r_cfg st))" "i \<in> set (bb_instrs b)" for b i
  proof -
    obtain k where k: "k < length (cfg_blocks (r_cfg st))" "b = cfg_blocks (r_cfg st) ! k"
      using bi(1) by (auto simp: in_set_conv_nth)
    have "result_id i \<in> set (map result_id (bb_instrs (cfg_blocks cfg ! k)))"
      unfolding cfg finish_cfg_nth(3) [OF k(1)] using bi(2) k(2) by simp
    moreover have "cfg_blocks cfg ! k \<in> set (cfg_blocks cfg)" using k(1) by (simp add: cfg)
    ultimately show ?thesis by force
  qed
  have small: "unat ?m + ?n + 1 < 2 ^ 32"
  proof (cases "?m = 0")
    case False
    from max_result_id_attained [OF nophi this] obtain b i where
      "b \<in> set (cfg_blocks (r_cfg st))" "i \<in> set (bb_instrs b)" "result_id i = ?m" by blast
    with instr assms(4) show ?thesis by metis
  qed (use assms(3) in simp)
  have gap: "unat (?m + 1 + of_nat k) = unat ?m + 1 + k" if "k < ?n" for k
  proof -
    have "of_nat (unat ?m + 1 + k) = ?m + 1 + of_nat k" by simp
    then show ?thesis by (rule of_nat_inverse) (use that small in simp)
  qed
  have "inj_on (\<lambda>k. ?m + 1 + of_nat k) {0..<?n}"
  proof (rule inj_onI)
    fix j k assume jk: "j \<in> {0..<?n}" "k \<in> {0..<?n}" "?m + 1 + of_nat j = ?m + 1 + of_nat k"
    then have "unat ?m + 1 + j = unat ?m + 1 + k" using gap [of j] gap [of k] by (metis atLeastLessThan_iff)
    then show "j = k" by simp
  qed
  then have "distinct (map phi_id (all_phis (cfg_blocks cfg)))"
    unfolding ids distinct_map set_upt by (simp only: distinct_upt)
  moreover have "result_id i \<notin> set (map phi_id (all_phis (cfg_blocks cfg)))"
    if b: "b \<in> set (cfg_blocks cfg)" "i \<in> set (bb_instrs b)" for b i
  proof
    assume "result_id i \<in> set (map phi_id (all_phis (cfg_blocks cfg)))"
    then obtain k where k: "k < ?n" "result_id i = ?m + 1 + of_nat k" unfolding ids by auto
    obtain j where j: "j < length (cfg_blocks (r_cfg st))" "b = cfg_blocks cfg ! j"
      using b(1) by (auto simp: in_set_conv_nth cfg)
    have "result_id i \<in> set (map result_id (bb_instrs (cfg_blocks (r_cfg st) ! j)))"
      using b(2) j finish_cfg_nth(3) [OF j(1), of config initial_state 0] cfg by (metis image_eqI set_map)
    then have "result_id i \<le> ?m" using max_result_id_ge j(1) by force
    then have "unat (result_id i) \<le> unat ?m" by (simp add: word_le_nat_alt)
    with gap [OF k(1)] k(2) show False by simp
  qed
  moreover have "map fst (phi_incoming q) = predecessors cfg (bb_id b) \<and> 2 \<le> length (phi_incoming q)"
    if q: "b \<in> set (cfg_blocks cfg)" "q \<in> set (bb_phis b)" for b q
  proof -
    from finish_cfg_phi_preds [OF q [unfolded cfg]] obtain b' q' where q': "b' \<in> set ?bs" "q' \<in> set (bb_phis b')"
      "bb_id b' = bb_id b" "map fst (phi_incoming q') = map fst (phi_incoming q)" by blast
    with facts have ph: "phi_pairs (incoming_of st (bb_id b)) (phi_reg q') = Some (phi_incoming q')"
      "phi_reg q' \<in> set (wanted_phis st (tracked_names config st) (bb_id b))" by (metis, metis image_eqI set_map)
    then have "2 \<le> length (phi_incoming q')"
      by (auto simp: wanted_phis_def needs_phi_def)
    moreover have "map fst (phi_incoming q') = predecessors cfg (bb_id b)"
      using phi_pairs_Some [OF ph(1)] pred by (simp add: cfg)
    ultimately show ?thesis using q'(4) by (metis length_map)
  qed
  ultimately show ?thesis by blast
qed

theorem recover_phis_witness:
  "\<exists>cfg. recover diamond_oracle (plain_config 0x100) [] () = Some (cfg, ())
     \<and> (\<exists>b \<in> set (cfg_blocks cfg). \<exists>p \<in> set (bb_phis b). map fst (phi_incoming p) = predecessors cfg (bb_id b))"
proof -
  obtain cfg where cfg: "recover diamond_oracle (plain_config 0x100) [] () = Some (cfg, ())"
    "map (\<lambda>b. (bb_id b, bb_label b, term_kind (bb_term b), map (\<lambda>p. (phi_id p, phi_reg p, phi_incoming p)) (bb_phis b))) (cfg_blocks cfg)
     = [(0, ''vpc_0x100'', Term_CJMP, []), (1, ''vpc_0x200'', Term_JMP, []), (2, ''vpc_0x300'', Term_JMP, []),
        (3, ''vpc_0x400'', Term_RET, [(1, ''rax'', [(1, Const64 1), (2, Const64 2)])])]"
    by (rule diamond_recovered)
  have "length (all_phis (cfg_blocks cfg)) = 1" "\<exists>b \<in> set (cfg_blocks cfg). \<exists>p. p \<in> set (bb_phis b)"
    using cfg(2) by (auto simp: all_phis_def)
  moreover have "\<forall>b \<in> set (cfg_blocks cfg). bb_instrs b = []"
    using diamond_instrs [OF cfg(1)] .
  ultimately show ?thesis
    using recover_phis [OF cfg(1)] cfg(1) by (auto simp: plain_config_def)
qed

end
