(* ===== verification/Segment_Correct.thy ===== *)
theory Segment_Correct
  imports Segment_Eval Lifter_Correct Recovered_CFG
begin

section \<open>What the segment evaluator guarantees\<close>

text \<open>
  The shape of a function - its ids, the ids it refers to, its id counter - survives promotion and
  folding, so lifting can go on after a fold without ever reusing an id; with that the loop of a
  segment keeps the lifter's invariant, and native recovery hands out every id once.
\<close>

subsection \<open>Passes keep the shape of a function\<close>

definition shape :: "Function \<Rightarrow> Function \<Rightarrow> bool" where
  "shape f g \<longleftrightarrow> map result_id (instrs g) = map result_id (instrs f) \<and> refs (instrs g) \<subseteq> refs (instrs f)
     \<and> next_id g = next_id f"

lemma shape_refl: "shape f f"
  by (simp add: shape_def)

lemma shape_trans: "shape f g \<Longrightarrow> shape g h \<Longrightarrow> shape f h"
  unfolding shape_def by (elim conjE) (intro conjI; simp)

context rewrite_pass begin

lemma loop_refs:
  "\<lbrakk>for_each_instr (stp im) d r ch = Some (is, ch'); im = build_instr_map (d @ r); ssa (d @ r)\<rbrakk>
   \<Longrightarrow> refs is \<subseteq> refs (d @ r)"
proof (induction "stp im" d r ch arbitrary: "is" rule: for_each_instr.induct)
  case (2 d x r ch)
  then obtain x' c where step: "stp im d r x = Some (x', c)"
    and rest: "for_each_instr (stp im) (d @ [x']) r (ch \<or> c) = Some (is, ch')"
    by (auto elim!: bind_SomeE)
  have "ssa d" using "2.prems"(3) by (simp add: ssa_append)
  then have "set (ref_ids x') \<subseteq> set (ref_ids x) \<union> refs d"
    using step_sound [OF step "2.prems"(2,3) settled_exec] by simp
  moreover have "refs is \<subseteq> refs ((d @ [x']) @ r)"
  proof (rule "2.hyps" [OF step refl rest])
    show "im = build_instr_map ((d @ [x']) @ r)"
      using "2.prems"(2) step_id [OF step] by (simp add: build_instr_map_cong)
    show "ssa ((d @ [x']) @ r)" using step_ssa [OF step "2.prems"(2,3)] .
  qed
  ultimately show ?case by auto
qed simp

lemma pass_shape:
  assumes "run_pass stp f = Some (f', ch)" "ssa (instrs f)"
  shows "ssa (instrs f') \<and> shape f f'"
proof -
  from assms(1) obtain js where js: "f' = f\<lparr>instrs := js\<rparr>"
    "for_each_instr (stp (build_instr_map (instrs f))) [] (instrs f) False = Some (js, ch)"
    by (auto simp: run_pass_def elim!: bind_SomeE)
  from loop_refs [OF js(2)] pass_sound [OF assms] assms(2) js(1) show ?thesis
    by (simp add: shape_def same_computation_def)
qed

end

lemma mem_forward_loop_refs:
  assumes "mem_forward_loop cm rm r = (r', ch)"
    "\<forall>a v. slot_lookup cm rm a = Some v \<longrightarrow> val_refs v \<subseteq> R"
  shows "refs r' \<subseteq> refs r \<union> R \<and> map result_id r' = map result_id r"
  using assms
proof (induction r arbitrary: cm rm r' ch R)
  case (Cons i r)
  show ?case
  proof (cases "is_store i")
    case True
    then obtain cm' rm' js where
        upd: "slot_update cm rm (operands i ! 0) (operands i ! 1) = (cm', rm')"
      and loop: "mem_forward_loop cm' rm' r = (js, ch)" and r': "r' = i # js"
      using Cons.prems(1) by (auto simp: mem_forward_loop_Cons split: prod.splits)
    have "operands i ! 1 \<in> set (operands i)" using True by (auto simp: is_store_def)
    then have "val_refs (operands i ! 1) \<subseteq> set (ref_ids i)" by (rule val_refs_operand)
    then have "\<forall>a v. slot_lookup cm' rm' a = Some v \<longrightarrow> val_refs v \<subseteq> R \<union> set (ref_ids i)"
      using slot_lookup_update [OF upd] Cons.prems(2) by blast
    from Cons.IH [OF loop this] r' show ?thesis by auto
  next
    case False
    obtain js c where loop: "mem_forward_loop cm rm r = (js, c)" by force
    note js = Cons.IH [OF loop Cons.prems(2)]
    show ?thesis
    proof (cases "r' = i # js")
      case True
      with js show ?thesis by auto
    next
      case unequal: False
      with False Cons.prems(1) loop obtain v where v: "slot_lookup cm rm (operands i ! 0) = Some v"
          "r' = forward_load v i # js"
        by (auto simp: mem_forward_loop_Cons split: if_splits option.splits)
      have "result_id (forward_load v i) = result_id i" by (simp add: forward_load_def)
      moreover have "val_refs v \<subseteq> R" using Cons.prems(2) v(1) by blast
      ultimately show ?thesis using js v(2) by (auto simp: ref_ids_forward_load)
    qed
  qed
qed simp

lemma mem_forward_pass_shape:
  assumes "mem_forward_pass f = (f', ch)" "ssa (instrs f)"
  shows "ssa (instrs f') \<and> shape f f'"
proof -
  from assms(1) obtain js where js: "mem_forward_loop Map.empty Map.empty (instrs f) = (js, ch)" "f' = f\<lparr>instrs := js\<rparr>"
    by (auto simp: mem_forward_pass_def split: prod.splits)
  have "slot_lookup Map.empty Map.empty a = None" for a
    by (simp add: slot_lookup_def split: option.split)
  with mem_forward_loop_refs [OF js(1), of "{}"] mem_forward_pass_ssa [OF assms] js(2)
  show ?thesis by (simp add: shape_def)
qed

lemma fold_passes_shape:
  assumes "(n, p) \<in> set FOLD_PASSES" "p f = Some (f', ch)" "ssa (instrs f)"
  shows "ssa (instrs f') \<and> shape f f'"
  using assms promote.pass_shape fold.pass_shape combine.pass_shape branch.pass_shape mem_forward_pass_shape
  by (auto simp: FOLD_PASSES_def const_promote_pass_def const_fold_pass_def insn_combine_pass_def
      branch_fold_pass_def)

interpretation shape_pipeline: pass_pipeline FOLD_PASSES "\<lambda>f. ssa (instrs f)" shape
  by unfold_locales (auto simp: shape_refl dest: fold_passes_shape fold_passes_same intro: shape_trans)

lemma fold_converge_shape: "fold_converge f n = Some f' \<Longrightarrow> ssa (instrs f) \<Longrightarrow> ssa (instrs f') \<and> shape f f'"
  using shape_pipeline.converge_good [of n 0 f _ f']
  by (auto simp: fold_converge_pipeline run_fold_convergence_def)

lemma promote_walk_refs: "promote_walk im d r bm c = Some (js, bm', c') \<Longrightarrow> refs js \<subseteq> refs (d @ r)"
proof (induction im d r bm c rule: promote_walk.induct)
  case (2 im d x r bm c)
  then obtain bm1 x1 p where st: "apply_store (d @ x # r) im x bm = Some bm1"
    and ld: "promote_load (d @ x # r) im bm1 x = Some (x1, p)"
    and rest: "promote_walk im (d @ [x1]) r bm1 (c \<or> p) = Some (js, bm', c')"
    by (auto elim!: bind_SomeE)
  from "2.IH" [OF st ld refl rest] promote_load_shape [OF ld] show ?case by auto
qed simp

lemma promote_pass_shape:
  assumes "promote_pass f bm = Some (f', bm', c)" "ssa (instrs f)"
  shows "ssa (instrs f') \<and> shape f f'"
proof -
  from assms(1) obtain js where js: "f' = f\<lparr>instrs := js\<rparr>"
    "promote_walk (build_instr_map (instrs f)) [] (instrs f) bm False = Some (js, bm', c)"
    by (auto simp: promote_pass_def elim!: bind_SomeE)
  have "refs (instrs f') \<subseteq> refs (instrs f)" using promote_walk_refs [OF js(2)] js(1) by simp
  with promote_pass_defined [OF assms(2), of bm] assms(1) show ?thesis by (auto simp: shape_def)
qed

lemma promote_rounds_shape:
  "promote_rounds n f bm = Some (f', bm') \<Longrightarrow> ssa (instrs f) \<Longrightarrow> ssa (instrs f') \<and> shape f f'"
proof (induction n arbitrary: f bm)
  case (Suc n)
  from Suc.prems(1) obtain f1 bm1 p f2 where f1: "promote_pass f bm = Some (f1, bm1, p)"
    and f2: "fold_converge f1 8 = Some f2"
    and rest: "(if \<not> p then Some (f2, bm1) else promote_rounds n f2 bm1) = Some (f', bm')"
    by (auto elim!: bind_SomeE)
  note s1 = promote_pass_shape [OF f1 Suc.prems(2)]
  note s2 = fold_converge_shape [OF f2 conjunct1 [OF s1]]
  have s: "ssa (instrs f2)" "shape f f2" using s1 s2 shape_trans by blast+
  show ?case
  proof (cases p)
    case True
    with rest Suc.IH [of f2 bm1] s show ?thesis by (auto intro: shape_trans)
  qed (use rest s in auto)
qed (simp add: shape_refl)

subsection \<open>What lifting emits\<close>

text \<open>Loads have one operand and stores two; the opcodes whose evaluation can be undefined come from
  four mnemonics only.\<close>

definition risky_mnemonic :: "string \<Rightarrow> bool" where
  "risky_mnemonic m \<longleftrightarrow> m \<in> {''rol'', ''ror'', ''sar'', ''neg''}"

definition plain_form :: "bool \<Rightarrow> bool \<Rightarrow> Op \<Rightarrow> nat \<Rightarrow> bool" where
  "plain_form arity risky x n \<longleftrightarrow> (arity \<longrightarrow> (x = Op_LOAD \<longrightarrow> n = 1) \<and> (x = Op_STORE \<longrightarrow> n = 2))
     \<and> (x \<in> {Op_ROL, Op_ROR, Op_SAR, Op_NEG} \<longrightarrow> risky)"

definition fits :: "bool \<Rightarrow> bool \<Rightarrow> LiftState \<Rightarrow> bool" where
  "fits arity risky st \<longleftrightarrow> list_all (\<lambda>i. plain_form arity risky (op i) (length (operands i))) (instrs (func st))"

lemma fits_set [simp]: "fits a r (set_reg n v st) = fits a r st" "fits a r (set_dst d v st) = fits a r st"
  by (simp_all add: fits_def)

lemma plain_form_simps [simp]:
  "plain_form a r Op_LOAD n \<longleftrightarrow> (a \<longrightarrow> n = 1)" "plain_form a r Op_STORE n \<longleftrightarrow> (a \<longrightarrow> n = 2)" "plain_form a r Op_ADD n" "plain_form a r Op_SUB n"
  "plain_form a r Op_MUL n" "plain_form a r Op_AND n" "plain_form a r Op_CALL n" "plain_form a r Op_RET n" "plain_form a r Op_JMP n"
  "plain_form a r Op_CJMP n" "plain_form a r Op_SELECT n" "plain_form a r Op_NOP n" "plain_form a r Op_SEXT n" "plain_form a r Op_ZEXT n"
  by (simp_all add: plain_form_def)

lemma emit_ref_fits:
  "fits a r st \<Longrightarrow> plain_form a r x (length vs) \<Longrightarrow> fits a r (snd (emit_ref x vs ann st))"
  by (simp add: emit_ref_def emit_def Let_def fits_def)

lemma add_index_fits: "fits a r st \<Longrightarrow> fits a r (snd (add_index index scale addr st))"
  by (simp add: add_index_def Let_def case_prod_unfold emit_ref_fits)

lemma op_value_fits: "fits a r st \<Longrightarrow> fits a r (snd (op_value insn idx st))"
  by (simp add: op_value_def Let_def case_prod_unfold emit_ref_fits add_index_fits split: x86_op.split)

lemma dst_address_fits: "fits a r st \<Longrightarrow> fits a r (snd (dst_address base disp st))"
  by (simp add: dst_address_def emit_ref_fits)

lemmas fits_steps = emit_ref_fits add_index_fits op_value_fits dst_address_fits

lemma lift_cases_fit:
  assumes "fits a r st"
  shows "fits a r (lift_push insn st)" "fits a r (lift_pop insn st)" "fits a r (lift_mov insn st)"
    "fits a r (lift_lea insn st)" "plain_form a r x 2 \<Longrightarrow> fits a r (lift_binop x insn st)"
    "plain_form a r x 1 \<Longrightarrow> fits a r (lift_unop x insn st)"
    "fits a r (lift_inc_dec insn st)" "fits a r (lift_call insn st)" "fits a r (lift_ret insn st)"
    "fits a r (lift_jmp insn st)" "fits a r (lift_pushfq insn st)" "fits a r (lift_popfq insn st)"
    "plain_form a r x 2 \<Longrightarrow> fits a r (lift_flags x insn st)" "fits a r (lift_jcc insn st)" "fits a r (lift_xchg insn st)"
    "fits a r (lift_cdqe insn st)" "plain_form a r x 1 \<Longrightarrow> fits a r (lift_extend x insn st)" "fits a r (lift_setcc insn st)"
    "fits a r (lift_cmov insn st)" "fits a r (lift_unsupported insn st)"
  using assms
  unfolding lift_handlers Let_def case_prod_unfold
  by (simp_all add: fits_steps numeral_2_eq_2 split: x86_op.split)

lemma fits_if: "fits a r x \<Longrightarrow> fits a r y \<Longrightarrow> fits a r (if c then x else y)"
  by simp

lemma binop_plain: "map_of binop_map m = Some x \<Longrightarrow> plain_form a (risky_mnemonic m) x 2"
  by (auto simp: binop_map_def plain_form_def risky_mnemonic_def split: if_splits)

lemma unop_plain: "map_of unop_map m = Some x \<Longrightarrow> plain_form a (risky_mnemonic m) x 1"
  by (auto simp: unop_map_def plain_form_def risky_mnemonic_def split: if_splits)

lemma lift_insn_fits:
  assumes "fits a r st" "risky_mnemonic (mnemonic insn) \<longrightarrow> r"
  shows "fits a r (lift_insn insn st)"
proof -
  have m: "plain_form a r x n" if "plain_form a (risky_mnemonic (mnemonic insn)) x n" for x n
    using that assms(2) by (auto simp: plain_form_def)
  have b: "fits a r (if map_of binop_map (mnemonic insn) \<noteq> None \<and> c then lift_binop (the (map_of binop_map (mnemonic insn))) insn st else st')"
    if "fits a r st'" for c st'
    using that lift_cases_fit(5) [OF assms(1) m [OF binop_plain]] by auto
  have u: "fits a r (if map_of unop_map (mnemonic insn) \<noteq> None \<and> c then lift_unop (the (map_of unop_map (mnemonic insn))) insn st else st')"
    if "fits a r st'" for c st'
    using that lift_cases_fit(6) [OF assms(1) m [OF unop_plain]] by auto
  have f: "fits a r (lift_flags Op_AND insn st)" "fits a r (lift_flags Op_SUB insn st)"
      "fits a r (lift_extend Op_ZEXT insn st)" "fits a r (lift_extend Op_SEXT insn st)"
    by (simp_all add: lift_cases_fit assms(1))
  show ?thesis
    unfolding lift_insn_def Let_def
    by (intro b u fits_if f lift_cases_fit(1-4) lift_cases_fit(7-12) lift_cases_fit(14-16) lift_cases_fit(18-20) assms(1))
qed

lemma fits_no_risky: "fits False False st \<longleftrightarrow> no_risky_ops (instrs (func st))"
  by (auto simp: fits_def plain_form_def no_risky_ops_def list_all_iff)

lemma fits_single: "fits True r st \<Longrightarrow> single_operands (instrs (func st))"
  by (auto simp: fits_def plain_form_def single_operands_def list_all_iff)

subsection \<open>The loop of a segment\<close>

lemma known_ids_ids:
  assumes "lift_ok B st"
  shows "known_ids B (n_emitted st) = lb_ext B \<union> ids (instrs (func st))"
proof -
  have "set (map result_id (instrs (func st))) = (\<lambda>k. lb_base B + of_nat k) ` {..<n_emitted st}"
    using assms by (simp add: lift_ok_def lessThan_atLeast0)
  then show ?thesis by (simp add: known_ids_def)
qed

lemma lift_ok_shape:
  assumes "lift_ok B st" "shape (func st) f" "ssa (instrs f)"
  shows "lift_ok B (st\<lparr>func := f\<rparr>) \<and> n_emitted (st\<lparr>func := f\<rparr>) = n_emitted st"
proof -
  have len: "length (instrs f) = n_emitted st"
    using assms(2) by (auto simp: shape_def dest: map_eq_imp_length_eq)
  have "refs (instrs f) \<subseteq> known_ids B (n_emitted st)"
    using assms(1,2) unfolding shape_def lift_ok_def by blast
  then have "\<forall>i \<in> set (instrs f). set (ref_ids i) \<subseteq> known_ids B (n_emitted st)" by blast
  moreover have "val_ok B (st\<lparr>func := f\<rparr>) v = val_ok B st v" for v
    by (simp add: val_ok_def len)
  ultimately show ?thesis
    using assms len by (auto simp: lift_ok_def shape_def)
qed

definition seg_ok :: "bounds \<Rightarrow> int \<Rightarrow> seg_state \<Rightarrow> bool" where
  "seg_ok B mx s \<longleftrightarrow> 0 \<le> ss_steps s \<and> ss_steps s \<le> max 0 mx \<and> lift_ok B (ss_lift s)
     \<and> n_emitted (ss_lift s) \<le> 10 * nat (ss_steps s) \<and> 10 * nat mx \<le> lb_limit B"

lemma lift_window_ok:
  assumes "lift_window leaders start mx is steps st r = (how, steps', st', r')"
    and "0 \<le> steps" "steps < mx" "lift_ok B st" "n_emitted st \<le> 10 * nat steps" "10 * nat mx \<le> lb_limit B"
  shows "0 \<le> steps' \<and> steps' \<le> mx \<and> lift_ok B st' \<and> n_emitted st' \<le> 10 * nat steps'
    \<and> ((\<forall>i \<in> set is. \<not> risky_mnemonic (mnemonic i)) \<longrightarrow> fits a False st \<longrightarrow> fits a False st')"
  using assms
proof (induction "is" arbitrary: steps st)
  case (Cons i "is")
  have room: "n_emitted st + 10 \<le> lb_limit B" using Cons.prems(2,3,5,6) by linarith
  note l = lift_insn_keeps [OF Cons.prems(4) room, of i]
  have cnt: "n_emitted (lift_insn i st) \<le> 10 * nat (steps + 1)" using l(2) Cons.prems(2,5) by linarith
  have fit: "\<not> risky_mnemonic (mnemonic i) \<Longrightarrow> fits a False st \<Longrightarrow> fits a False (lift_insn i st)"
    using lift_insn_fits [of a False st i] by blast
  show ?case
  proof (cases "(case leaders of Some L \<Rightarrow> insn_address i \<noteq> start \<and> insn_address i \<in> L | None \<Rightarrow> False)
      \<or> mnemonic i = ''ret'' \<or> take 1 (mnemonic i) = ''j'' \<or> mnemonic i = ''call'' \<or> mx \<le> steps + 1")
    case True
    with Cons.prems l(1) cnt fit show ?thesis
      by (auto simp: Let_def split: if_splits)
  next
    case False
    then have "lift_window leaders start mx is (steps + 1) (lift_insn i st) r = (how, steps', st', r')"
      using Cons.prems(1) by (auto simp: Let_def split: if_splits)
    from Cons.IH [OF this _ _ l(1) cnt Cons.prems(6)] False Cons.prems(2) fit show ?thesis by auto
  qed
qed simp

lemma after_window_ok:
  assumes "after_window img base follow (how, steps, st, r) memory = Some (s, next)"
    and "0 \<le> steps" "steps \<le> mx" "lift_ok B st" "n_emitted st \<le> 10 * nat steps" "10 * nat mx \<le> lb_limit B"
  shows "seg_ok B mx s"
proof -
  from assms(1) obtain f m where pr: "promote_and_optimize (func st) memory = Some (f, m)"
    and s: "ss_steps s = steps" "ss_lift s = st\<lparr>func := f\<rparr>"
    by (auto simp: after_window_def Let_def elim!: bind_SomeE split: if_splits option.splits)
  have "ssa (instrs (func st))" using assms(4) by (simp add: lift_ok_def)
  from promote_rounds_shape [OF pr [unfolded promote_and_optimize_def] this] lift_ok_shape [OF assms(4)]
  show ?thesis using assms(2-6) s by (simp add: seg_ok_def)
qed

lemma segment_loop_ok:
  "segment_loop decode img base start mx follow leaders va visited s = Some s' \<Longrightarrow> seg_ok B mx s \<Longrightarrow> seg_ok B mx s'"
proof (induction decode img base start mx follow leaders va visited s rule: segment_loop.induct)
  case (1 decode img base start mx follow leaders va visited s)
  show ?case
  proof (cases "ss_steps s < mx \<and> va \<notin> visited \<and> unat (va - base) < length img \<and> disasm_window decode img base va \<noteq> []")
    case False
    with "1.prems" show ?thesis
      by (subst (asm) segment_loop.simps) (auto simp: seg_ok_def split: if_splits list.splits)
  next
    case True
    then obtain i "is" where dis: "disasm_window decode img base va = i # is"
      by (cases "disasm_window decode img base va") auto
    obtain how steps st r where w: "lift_window leaders start mx (i # is) (ss_steps s) (ss_lift s) (ss_run s) = (how, steps, st, r)"
      by (metis prod_cases4)
    with "1.prems"(1) True dis obtain s1 nxt where
        a: "after_window img base follow (how, steps, st, r) (ss_memory s) = Some (s1, nxt)"
      and rest: "(case nxt of None \<Rightarrow> Some s1
          | Some va' \<Rightarrow> segment_loop decode img base start mx follow leaders va' (insert va visited) s1) = Some s'"
      by (subst (asm) segment_loop.simps) (auto elim!: bind_SomeE simp del: lift_window.simps)
    have "seg_ok B mx s1"
      using lift_window_ok [OF w, of B] "1.prems"(2) True by (intro after_window_ok [OF a]) (simp_all add: seg_ok_def)
    with rest "1.IH" True dis w a show ?thesis
      by (cases nxt) (auto simp del: lift_window.simps)
  qed
qed

subsection \<open>A segment always ends\<close>

text \<open>A decoder that never returns one of the four risky mnemonics, as a check on its output.\<close>

definition no_risky_code :: "(u8 list \<Rightarrow> u64 \<Rightarrow> cs_insn list) \<Rightarrow> bool" where
  "no_risky_code decode \<longleftrightarrow> (\<forall>code va. \<forall>i \<in> set (decode code va). \<not> risky_mnemonic (mnemonic i))"

lemma find_branch_defined:
  "ssa vec \<Longrightarrow> im = build_instr_map vec \<Longrightarrow> \<exists>t c. find_branch vec im is = Some (t, c)"
proof (induction "is")
  case (Cons i "is")
  then show ?case using resolve_defined [of vec "operands i ! 0"]
    by (cases "op i = Op_JMP \<or> op i = Op_CALL"; cases "op i = Op_CJMP \<and> operands i \<noteq> []")
      (auto simp: resolved_const_def)
qed simp

lemma resolve_branch_defined: "ssa (instrs f) \<Longrightarrow> \<exists>t c. resolve_branch f = Some (t, c)"
  by (simp add: resolve_branch_def find_branch_defined)

lemma after_window_defined:
  assumes "tame (func st)"
  shows "\<exists>s next. after_window img base follow (how, steps, st, r) memory = Some (s, next) \<and> tame (func (ss_lift s))"
proof -
  obtain f m where f: "promote_and_optimize (func st) memory = Some (f, m)" "tame f"
    using promote_rounds_defined [OF assms] unfolding promote_and_optimize_def by blast
  then have "ssa (instrs f)" by (simp add: tame_def)
  from resolve_branch_defined [OF this] obtain t c where "resolve_branch f = Some (t, c)" by blast
  with f show ?thesis by (auto simp: after_window_def Let_def split: option.split)
qed

lemma segment_loop_defined:
  "seg_ok B mx s \<Longrightarrow> tame (func (ss_lift s)) \<Longrightarrow> no_risky_code decode \<Longrightarrow>
   \<exists>s'. segment_loop decode img base start mx follow leaders va visited s = Some s' \<and> tame (func (ss_lift s'))"
proof (induction decode img base start mx follow leaders va visited s rule: segment_loop.induct)
  case (1 decode img base start mx follow leaders va visited s)
  show ?case
  proof (cases "ss_steps s < mx \<and> va \<notin> visited \<and> unat (va - base) < length img \<and> disasm_window decode img base va \<noteq> []")
    case False
    with "1.prems" show ?thesis
      by (subst segment_loop.simps) (auto split: list.splits)
  next
    case True
    then obtain i "is" where dis: "disasm_window decode img base va = i # is"
      by (cases "disasm_window decode img base va") auto
    obtain how steps st r where w: "lift_window leaders start mx (i # is) (ss_steps s) (ss_lift s) (ss_run s) = (how, steps, st, r)"
      by (metis prod_cases4)
    have "\<forall>i \<in> set (i # is). \<not> risky_mnemonic (mnemonic i)"
      using "1.prems"(3) unfolding no_risky_code_def disasm_window_def dis [unfolded disasm_window_def, symmetric] by blast
    moreover have "fits False False (ss_lift s)" using "1.prems"(2) by (simp add: fits_no_risky tame_def)
    ultimately have wk: "0 \<le> steps" "steps \<le> mx" "lift_ok B st" "n_emitted st \<le> 10 * nat steps" "fits False False st"
      using lift_window_ok [OF w, of B False] "1.prems"(1) True by (simp_all add: seg_ok_def)
    then have "tame (func st)" by (simp add: tame_def fits_no_risky lift_ok_def)
    from after_window_defined [OF this] obtain s1 nxt where
        a: "after_window img base follow (how, steps, st, r) (ss_memory s) = Some (s1, nxt)" and t: "tame (func (ss_lift s1))"
      by blast
    have "seg_ok B mx s1"
      using wk "1.prems"(1) by (intro after_window_ok [OF a]) (simp_all add: seg_ok_def)
    then have "\<exists>s'. segment_loop decode img base start mx follow leaders va' (insert va visited) s1 = Some s' \<and> tame (func (ss_lift s'))"
      if "nxt = Some va'" for va'
      using "1.IH" True dis w a t that "1.prems"(3) by (auto simp del: lift_window.simps)
    with True dis w a t show ?thesis
      by (subst segment_loop.simps) (auto simp del: lift_window.simps split: option.split)
  qed
qed

subsection \<open>The result of a segment\<close>

text \<open>The ids a segment may use and the outside ids its input values may name.\<close>

definition segment_bounds :: "u32 \<Rightarrow> int \<Rightarrow> u32 set \<Rightarrow> bounds" where
  "segment_bounds id_base max_steps ext = \<lparr>lb_base = id_base, lb_limit = 10 * nat max_steps, lb_ext = ext\<rparr>"

definition vm_refs :: "VMState \<Rightarrow> u32 set" where
  "vm_refs rs = (\<Union>nv \<in> set rs. val_refs (snd nv))"

lemma val_ok_refs: "val_ok B st v \<longleftrightarrow> val_refs v \<subseteq> known_ids B (n_emitted st)"
  by (cases v) (auto simp: val_ok_def)

lemma lift_ok_refs:
  assumes "lift_ok B st"
  shows "vm_refs (regs st) \<subseteq> known_ids B (n_emitted st)" "refs (instrs (func st)) \<subseteq> known_ids B (n_emitted st)"
  using assms unfolding lift_ok_def vm_refs_def val_ok_refs by blast+

lemma lift_ok_regs: "lift_ok B st \<Longrightarrow> vm_refs rs \<subseteq> known_ids B (n_emitted st) \<Longrightarrow> lift_ok B (st\<lparr>regs := rs\<rparr>)"
  unfolding lift_ok_def by (simp add: val_ok_refs vm_refs_def UN_subset_iff)

lemma set_regs_ok:
  "lift_ok B st \<Longrightarrow> vm_refs rs \<subseteq> lb_ext B \<Longrightarrow> lift_ok B (foldl (\<lambda>st (k, v). set_reg k v st) st rs)
     \<and> func (foldl (\<lambda>st (k, v). set_reg k v st) st rs) = func st"
proof (induction rs arbitrary: st)
  case (Cons kv rs)
  obtain k v where kv: "kv = (k, v)" by force
  have "val_ok B st v" using Cons.prems(2) by (auto simp: vm_refs_def kv val_ok_refs known_ids_def)
  from Cons.IH [OF set_reg_ok [OF Cons.prems(1) this], of k] Cons.prems(2) show ?case
    by (simp add: vm_refs_def kv)
qed simp

lemma initial_segment_ok:
  assumes "bounds_ok (segment_bounds id_base mx ext)" "vm_refs in_regs \<subseteq> ext"
  shows "seg_ok (segment_bounds id_base mx ext) mx (initial_segment id_base in_regs memory)
    \<and> instrs (func (ss_lift (initial_segment id_base in_regs memory))) = []"
proof -
  let ?B = "segment_bounds id_base mx ext"
  have "lift_ok ?B (new_lift_state (set_next_id id_base (new_function ''segment'')) 0x7FFFFFFFD000)"
    using new_lift_state_ok [OF assms(1), of "''segment''"] by (simp add: segment_bounds_def)
  from set_regs_ok [OF this] assms(2) show ?thesis
    by (simp add: seg_ok_def initial_segment_def Let_def segment_bounds_def new_lift_state_def set_next_id_def new_function_def)
qed

lemma exit_registers_Cons:
  "exit_registers f ((k, v) # rs) =
     do { w \<leftarrow> resolve (instrs f) (build_instr_map (instrs f)) v; rs' \<leftarrow> exit_registers f rs; Some ((k, w) # rs') }"
  by (simp add: exit_registers_def split: option.split bind_splits)

lemma exit_registers_Nil: "exit_registers f [] = Some []"
  by (simp add: exit_registers_def)

lemma resolve_known:
  assumes "resolve (instrs f) (build_instr_map (instrs f)) v = Some w" "ssa (instrs f)"
    "val_refs v \<subseteq> K" "refs (instrs f) \<subseteq> K"
  shows "val_refs w \<subseteq> K"
proof -
  have "resolve (instrs f @ []) (build_instr_map (instrs f)) v = Some w" using assms(1) by simp
  from resolve_sound [OF this _ _ _ settled_exec [OF assms(2)]] assms(2)
  have "val_refs w \<subseteq> val_refs v \<union> refs (instrs f)" by simp
  with assms(3,4) show ?thesis by blast
qed

lemma exit_registers_ok:
  assumes "ssa (instrs f)" "refs (instrs f) \<subseteq> K"
  shows "exit_registers f rs = Some rs' \<Longrightarrow> vm_refs rs \<subseteq> K \<Longrightarrow> vm_refs rs' \<subseteq> K"
proof (induction rs arbitrary: rs')
  case (Cons kv rs)
  obtain k v where kv: "kv = (k, v)" by force
  with Cons.prems(1) obtain w ws where w: "resolve (instrs f) (build_instr_map (instrs f)) v = Some w"
    "exit_registers f rs = Some ws" "rs' = (k, w) # ws"
    by (auto simp: exit_registers_Cons elim!: bind_SomeE)
  from Cons.prems(2) have "val_refs v \<subseteq> K" "vm_refs rs \<subseteq> K" by (simp_all add: kv vm_refs_def)
  with resolve_known [OF w(1) assms(1) _ assms(2)] Cons.IH [OF w(2)] show ?case
    by (simp add: vm_refs_def w(3))
qed (simp add: exit_registers_Nil vm_refs_def)

lemma exit_registers_defined: "ssa (instrs f) \<Longrightarrow> \<exists>rs'. exit_registers f rs = Some rs'"
proof (induction rs)
  case (Cons kv rs)
  obtain k v where "kv = (k, v)" by force
  with Cons resolve_defined [of "instrs f" v] show ?case by (auto simp: exit_registers_Cons)
qed (simp add: exit_registers_Nil)

lemma segment_lift_ok:
  assumes run: "lift_and_optimize_segment dis img base start in_regs memory mx id_base follow leaders = Some (sr, memory')"
    and ok: "bounds_ok (segment_bounds id_base mx ext)" "vm_refs in_regs \<subseteq> ext"
  shows "lift_ok (segment_bounds id_base mx ext) \<lparr>func = sr_func sr, regs = sr_exit_regs sr\<rparr>
    \<and> length (instrs (sr_func sr)) \<le> 10 * nat mx"
proof (cases dis)
  case None
  with run new_lift_state_ok [OF ok(1), of "''segment''"] show ?thesis
    by (auto simp: lift_and_optimize_segment_def Let_def initial_segment_def lift_ok_def new_lift_state_def
        segment_bounds_def new_function_def set_next_id_def)
next
  case (Some decode)
  let ?B = "segment_bounds id_base mx ext"
  from run Some obtain s f rs where
    s: "segment_loop decode img base start mx follow leaders start {} (initial_segment id_base in_regs memory) = Some s"
    and f: "fold_converge (func (ss_lift s)) 32 = Some f" and rs: "exit_registers f (regs (ss_lift s)) = Some rs"
    and sr: "sr_func sr = f" "sr_exit_regs sr = rs"
    by (auto simp: lift_and_optimize_segment_def Let_def elim!: bind_SomeE)
  have sok: "seg_ok ?B mx s" using segment_loop_ok [OF s] initial_segment_ok [OF ok] by blast
  then have l: "lift_ok ?B (ss_lift s)" by (simp add: seg_ok_def)
  then have "ssa (instrs (func (ss_lift s)))" by (simp add: lift_ok_def)
  note sh = fold_converge_shape [OF f this]
  note l' = lift_ok_shape [OF l conjunct2 [OF sh] conjunct1 [OF sh]]
  let ?K = "known_ids ?B (length (instrs f))"
  have "vm_refs (regs (ss_lift s)) \<subseteq> ?K" "refs (instrs f) \<subseteq> ?K"
    using lift_ok_refs [OF conjunct1 [OF l']] by simp_all
  from exit_registers_ok [OF conjunct1 [OF sh] this(2) rs this(1)] have "vm_refs rs \<subseteq> ?K" .
  then have "lift_ok ?B (ss_lift s\<lparr>func := f, regs := rs\<rparr>)"
    using lift_ok_regs [OF conjunct1 [OF l'], of rs] by simp
  moreover have "ss_lift s\<lparr>func := f, regs := rs\<rparr> = \<lparr>func = f, regs = rs\<rparr>"
    by (rule LiftState.equality) simp_all
  ultimately have "lift_ok ?B \<lparr>func = f, regs = rs\<rparr>" by simp
  moreover have "10 * nat (ss_steps s) \<le> 10 * nat mx" using sok by (auto simp: seg_ok_def)
  then have "length (instrs f) \<le> 10 * nat mx" using sok l' by (simp add: seg_ok_def)
  ultimately show ?thesis by (simp add: sr)
qed

lemma segment_defined:
  assumes "no_risky_code decode" "bounds_ok (segment_bounds id_base mx ext)" "vm_refs in_regs \<subseteq> ext"
  shows "\<exists>sr memory'. lift_and_optimize_segment (Some decode) img base start in_regs memory mx id_base follow leaders
      = Some (sr, memory')"
proof -
  let ?s = "initial_segment id_base in_regs memory"
  from initial_segment_ok [OF assms(2,3)] have "tame (func (ss_lift ?s))"
    by (simp add: tame_def no_risky_ops_def)
  from segment_loop_defined [OF conjunct1 [OF initial_segment_ok [OF assms(2,3)]] this assms(1)]
  obtain s where s: "segment_loop decode img base start mx follow leaders start {} ?s = Some s" "tame (func (ss_lift s))"
    by blast
  obtain f rep where "run_fold_convergence (func (ss_lift s)) 32 = Some (f, rep)" "tame f"
    using fold_defined.converge_defined [OF s(2), of 32 0 "\<lparr>iterations = 0, pass_hits = []\<rparr>"]
    by (auto simp: run_fold_convergence_def)
  then have f: "fold_converge (func (ss_lift s)) 32 = Some f" "ssa (instrs f)"
    by (simp_all add: fold_converge_pipeline tame_def)
  from exit_registers_defined [OF f(2)] obtain rs where "exit_registers f (regs (ss_lift s)) = Some rs" by blast
  with s(1) f(1) show ?thesis by (simp add: lift_and_optimize_segment_def Let_def)
qed

subsection \<open>A native segment and the processor\<close>

text \<open>The instructions of a window that belong to the segment: up to and including the first branch,
  and before the next leader.\<close>

definition at_leader :: "u64 set option \<Rightarrow> u64 \<Rightarrow> cs_insn \<Rightarrow> bool" where
  "at_leader leaders start i = (case leaders of Some L \<Rightarrow> insn_address i \<noteq> start \<and> insn_address i \<in> L | None \<Rightarrow> False)"

definition ends_segment :: "cs_insn \<Rightarrow> bool" where
  "ends_segment i \<longleftrightarrow> mnemonic i = ''ret'' \<or> take 1 (mnemonic i) = ''j'' \<or> mnemonic i = ''call''"

fun window_code :: "u64 set option \<Rightarrow> u64 \<Rightarrow> cs_insn list \<Rightarrow> cs_insn list" where
  "window_code leaders start [] = []"
| "window_code leaders start (i # is) =
     (if at_leader leaders start i then [] else if ends_segment i then [i] else i # window_code leaders start is)"

lemma lift_window_code:
  assumes "lift_window leaders start mx is steps st r = (how, steps', st', r')"
    and "steps + int (length (window_code leaders start is)) \<le> mx"
  shows "st' = lift_loop (window_code leaders start is) steps mx st"
  using assms
proof (induction "is" arbitrary: steps st)
  case (Cons i "is")
  show ?case
  proof (cases "at_leader leaders start i \<or> ends_segment i")
    case True
    with Cons.prems show ?thesis
      by (auto simp: Let_def at_leader_def ends_segment_def split: if_splits)
  next
    case False
    then have m: "mnemonic i \<noteq> ''ret''" "mnemonic i \<noteq> ''jmp''" by (auto simp: ends_segment_def)
    show ?thesis
    proof (cases "mx \<le> steps + 1")
      case True
      have "steps + (1 + int (length (window_code leaders start is))) \<le> mx" using Cons.prems(2) False by simp
      with True have "length (window_code leaders start is) = 0" by linarith
      then have "window_code leaders start is = []" by simp
      with True Cons.prems False m show ?thesis
        by (auto simp: Let_def at_leader_def ends_segment_def split: if_splits)
    next
      case more: False
      then have "lift_window leaders start mx is (steps + 1) (lift_insn i st) r = (how, steps', st', r')"
        using Cons.prems(1) False by (auto simp: Let_def at_leader_def ends_segment_def split: if_splits)
      from Cons.IH [OF this] Cons.prems(2) False m more show ?thesis by (simp add: Let_def)
    qed
  qed
qed simp

lemma lift_loop_fits: "fits a True st \<Longrightarrow> fits a True (lift_loop is c mx st)"
proof (induction "is" c mx st rule: lift_loop.induct)
  case (2 i "is" c mx st)
  then show ?case using lift_insn_fits [of a True st i] by (auto simp: Let_def)
qed simp

text \<open>With no safe range nothing is promoted, and the rounds are folding only.\<close>

lemma reads_private_empty:
  "fold_good E s f \<Longrightarrow> single_operands (instrs f) \<Longrightarrow> reads_private E s {} empty_memory f"
  by (simp add: reads_private_def Let_def is_safe_def empty_memory_def)

lemma mirrors_empty: "mirrors {} empty_memory m"
  by (simp add: mirrors_def holds_def empty_memory_def)

lemma fold_converge_exec: "fold_converge f n = Some g \<Longrightarrow> fold_good E s f \<Longrightarrow> exec E s (instrs g) = exec E s (instrs f)"
  using fold_converge_fold_good [of f n g E s] by (simp add: fold_rel_def)

lemma resolve_value:
  assumes "resolve (instrs f) (build_instr_map (instrs f)) v = Some w" "ssa (instrs f)"
  shows "eval_val E (exec E s (instrs f)) w = eval_val E (exec E s (instrs f)) v"
proof -
  have "resolve (instrs f @ []) (build_instr_map (instrs f)) v = Some w" using assms(1) by simp
  from resolve_sound [OF this _ _ _ settled_exec [OF assms(2)]] assms(2) show ?thesis by simp
qed

lemma exit_register_value:
  assumes "ssa (instrs f)"
  shows "exit_registers f rs = Some rs' \<Longrightarrow>
    map_option (eval_val E (exec E s (instrs f))) (map_of rs' n) = map_option (eval_val E (exec E s (instrs f))) (map_of rs n)"
proof (induction rs arbitrary: rs')
  case (Cons kv rs)
  obtain k v where kv: "kv = (k, v)" by force
  with Cons.prems obtain w ws where w: "resolve (instrs f) (build_instr_map (instrs f)) v = Some w"
    "exit_registers f rs = Some ws" "rs' = (k, w) # ws"
    by (auto simp: exit_registers_Cons elim!: bind_SomeE)
  from Cons.IH [OF w(2)] resolve_value [OF w(1) assms] show ?case by (simp add: kv w(3))
qed (simp add: exit_registers_Nil)

text \<open>The target of the branch that is found is one the run jumps to.\<close>

definition branch_event :: "event \<Rightarrow> u64 \<Rightarrow> bool" where
  "branch_event e t \<longleftrightarrow> (\<exists>us. e = E_Jump (t # us) \<or> e = E_Call (t # us))"

lemma find_branch_hit:
  "find_branch vec im is = Some (Some t, None) \<Longrightarrow>
   \<exists>i \<in> set is. (op i = Op_JMP \<or> op i = Op_CALL) \<and> operands i \<noteq> []
     \<and> resolved_const vec im (operands i ! 0) = Some (Some t)"
  by (induction "is") (auto split: if_splits elim!: bind_SomeE)

lemma trace_grows: "\<exists>es. trace (exec E s is) = trace s @ es"
proof (induction "is" arbitrary: s)
  case (Cons i "is")
  obtain es where "trace (exec E (exec_instr E s i) is) = trace (exec_instr E s i) @ es" using Cons by blast
  then show ?case by simp
qed simp

lemma resolve_branch_sound:
  assumes "resolve_branch f = Some (Some t, None)" "ssa (instrs f)"
  shows "\<exists>xs e ys. trace (exec E s (instrs f)) = trace s @ xs @ e # ys \<and> branch_event e t"
proof -
  from find_branch_hit [OF assms(1) [unfolded resolve_branch_def]] obtain i where
    "i \<in> set (instrs f)" and i: "op i = Op_JMP \<or> op i = Op_CALL" "operands i \<noteq> []"
      "resolved_const (instrs f) (build_instr_map (instrs f)) (operands i ! 0) = Some (Some t)" by auto
  then obtain xs ys where is': "instrs f = xs @ i # ys" by (meson split_list)
  from i(3) obtain b where "resolve (instrs f) (build_instr_map (instrs f)) (operands i ! 0) = Some (Const t b)"
    by (auto simp: resolved_const_def)
  from resolve_value [OF this assms(2), of E s] have "eval_val E (exec E s (instrs f)) (operands i ! 0) = t" by simp
  moreover have "eval_val E (exec E s (instrs f)) (operands i ! 0) = eval_val E (exec E s xs) (operands i ! 0)"
    using operand_at_end [of xs i ys "operands i ! 0" E s] assms(2) i(2) by (simp add: is')
  ultimately have t: "map (eval_val E (exec E s xs)) (operands i) = t # map (eval_val E (exec E s xs)) (tl (operands i))"
    using i(2) by (cases "operands i") simp_all
  let ?vs = "map (eval_val E (exec E s xs)) (operands i)"
  have "events_of (op i) ?vs = [E_Jump ?vs] \<or> events_of (op i) ?vs = [E_Call ?vs]"
    using i(1) by (auto simp: events_of_def)
  then obtain e where e: "events_of (op i) ?vs = [e]" "branch_event e t"
    unfolding branch_event_def t by blast
  obtain es where "trace (exec E s xs) = trace s @ es" using trace_grows by blast
  moreover obtain fs where "trace (exec E (exec_instr E (exec E s xs) i) ys) = trace (exec_instr E (exec E s xs) i) @ fs"
    using trace_grows by blast
  ultimately have "trace (exec E s (instrs f)) = trace s @ es @ e # fs" by (simp add: is' e(1))
  with e(2) show ?thesis by blast
qed

lemma lift_window_stop:
  "lift_window leaders start mx is steps st r = (how, steps', st', r') \<Longrightarrow>
   sr_stop r' \<in> {sr_stop r, Stop_HitLeader, Stop_Ret}"
  by (induction "is" arbitrary: steps st)
    (auto simp: Let_def stop_with_def stop_at_def split: if_splits)

lemma after_window_here:
  assumes "after_window img base False (how, steps, st, r) memory = Some (s, nxt)"
  shows "nxt = None \<and> (\<exists>f m. promote_and_optimize (func st) memory = Some (f, m) \<and> ss_lift s = st\<lparr>func := f\<rparr>
    \<and> (sr_stop (ss_run s) = Stop_JmpResolved \<longrightarrow> sr_stop r \<noteq> Stop_JmpResolved \<longrightarrow>
        (\<exists>t. sr_resolved_target (ss_run s) = Some t \<and> resolve_branch f = Some (Some t, None))))"
  using assms
  by (auto simp: after_window_def Let_def stop_with_def stop_resolved_def elim!: bind_SomeE split: if_splits option.splits)

lemma native_segment_parts:
  assumes run: "lift_and_optimize_segment (Some decode) img base start in_regs memory mx id_base False leaders = Some (sr, memory')"
    and dis: "disasm_window decode img base start = is" "is \<noteq> []"
    and img: "unat (start - base) < length img" and mx: "0 < mx" "int (length (window_code leaders start is)) \<le> mx"
  obtains st f m g rs where
    "st = lift_loop (window_code leaders start is) 0 mx (ss_lift (initial_segment id_base in_regs memory))"
    "promote_and_optimize (func st) memory = Some (f, m)" "fold_converge f 32 = Some g"
    "exit_registers g (regs st) = Some rs" "sr_func sr = g" "sr_exit_regs sr = rs"
    "sr_stop sr = Stop_JmpResolved \<longrightarrow> (\<exists>t. sr_resolved_target sr = Some t \<and> resolve_branch f = Some (Some t, None))"
proof -
  let ?s = "initial_segment id_base in_regs memory"
  have init: "ss_steps ?s = 0" "ss_memory ?s = memory" "sr_stop (ss_run ?s) = Stop_OutOfBounds"
    by (simp_all add: initial_segment_def Let_def)
  obtain how steps st r where w: "lift_window leaders start mx is 0 (ss_lift ?s) (ss_run ?s) = (how, steps, st, r)"
    by (metis prod_cases4)
  have st: "st = lift_loop (window_code leaders start is) 0 mx (ss_lift ?s)"
    using lift_window_code [OF w] mx(2) by simp
  have loop: "segment_loop decode img base start mx False leaders start {} ?s =
      do { (s', nxt) \<leftarrow> after_window img base False (how, steps, st, r) memory;
           case nxt of None \<Rightarrow> Some s' | Some va' \<Rightarrow> segment_loop decode img base start mx False leaders va' {start} s' }"
    by (subst segment_loop.simps) (use dis img mx(1) init w in \<open>auto simp del: lift_window.simps split: list.splits\<close>)
  from run obtain s g rs where s: "segment_loop decode img base start mx False leaders start {} ?s = Some s"
    and g: "fold_converge (func (ss_lift s)) 32 = Some g" "exit_registers g (regs (ss_lift s)) = Some rs"
    and eq: "sr = (if mx \<le> ss_steps s \<and> sr_stop (ss_run s) = Stop_OutOfBounds then stop_with Stop_Limit (ss_run s)
        else ss_run s)\<lparr>sr_func := g, sr_exit_regs := rs\<rparr>"
    by (auto simp: lift_and_optimize_segment_def Let_def elim!: bind_SomeE)
  have sr: "sr_func sr = g" "sr_exit_regs sr = rs"
      "sr_stop sr = Stop_JmpResolved \<longrightarrow> sr_stop (ss_run s) = Stop_JmpResolved \<and> sr_resolved_target sr = sr_resolved_target (ss_run s)"
    unfolding eq by (simp_all add: stop_with_def)
  from s loop obtain s1 nxt where a: "after_window img base False (how, steps, st, r) memory = Some (s1, nxt)"
    and rest: "(case nxt of None \<Rightarrow> Some s1 | Some va' \<Rightarrow> segment_loop decode img base start mx False leaders va' {start} s1) = Some s"
    by (auto elim!: bind_SomeE)
  note h = after_window_here [OF a]
  then have "s = s1" using rest by simp
  with h obtain f m where f: "promote_and_optimize (func st) memory = Some (f, m)" "ss_lift s = st\<lparr>func := f\<rparr>"
    "sr_stop (ss_run s) = Stop_JmpResolved \<longrightarrow> sr_stop r \<noteq> Stop_JmpResolved \<longrightarrow>
        (\<exists>t. sr_resolved_target (ss_run s) = Some t \<and> resolve_branch f = Some (Some t, None))" by blast
  have "sr_stop r \<noteq> Stop_JmpResolved" using lift_window_stop [OF w] init(3) by auto
  with st f g sr show thesis by (intro that [of st f m g rs]) auto
qed

lemma exit_get_reg:
  assumes "ssa (instrs f)" "exit_registers f (regs st) = Some rs"
  shows "eval_val E (exec E s (instrs f)) (get_reg \<lparr>func = f, regs = rs\<rparr> n)
    = eval_val E (exec E s (instrs f)) (get_reg st n)"
  using exit_register_value [OF assms(1,2), of E s n]
  by (auto simp: get_reg_def split: option.splits)

subsection \<open>Properties\<close>


definition jump_code :: "u8 list \<Rightarrow> u64 \<Rightarrow> cs_insn list" where
  "jump_code code va = (if va = 0 then constant_code else [])"

definition jump_image :: "u8 list" where
  "jump_image = replicate 16 0x90"

lemma jump_segment_run:
  "map_option (\<lambda>(sr, _). (sr_stop sr, sr_resolved_target sr, sr_stop_va sr, map operands (instrs (sr_func sr))))
     (lift_and_optimize_segment (Some jump_code) jump_image 0 0 [] empty_memory 100 7 False (Some {0}))
   = Some (Stop_JmpResolved, Some 8, 11, [[Const64 8], [Const64 8]])"
  by code_simp



lemma jump_window: "disasm_window jump_code jump_image 0 0 = constant_code"
  by (simp add: disasm_window_def jump_code_def)

lemma jump_window_code: "window_code (Some {0}) 0 constant_code = constant_code"
  by (simp add: constant_code_def at_leader_def ends_segment_def)

lemma jump_lifted:
  "map (\<lambda>i. (op i, operands i)) (instrs (func (lift_loop constant_code 0 100 (ss_lift (initial_segment 7 [] empty_memory)))))
   = [(Op_ADD, [Const64 5, Const64 3]), (Op_JMP, [InstrRef 7])]"
  by code_simp


end
