(* ===== verification/Guided_Correct.thy ===== *)
theory Guided_Correct
  imports Guided_Eval Segment_Correct
begin

section \<open>What the guided evaluator guarantees\<close>

text \<open>
  The rounds of the evaluator as the steps of a machine: which states are reachable, what holds in
  all of them, and what a run therefore returns.
\<close>

subsection \<open>Lifting only appends\<close>

text \<open>A property of the lifting state that emitting and setting registers keep.\<close>

locale lift_invariant =
  fixes Q :: "LiftState \<Rightarrow> bool"
  assumes emit_closed: "Q st \<Longrightarrow> Q (snd (emit_ref x vs ann st))"
    and set_closed: "Q st \<Longrightarrow> Q (set_reg n v st)"
begin

lemma set_dst_closed: "Q st \<Longrightarrow> Q (set_dst d v st)"
  by (simp add: set_dst_def set_closed split: x86_op.split)

lemma add_index_closed: "Q st \<Longrightarrow> Q (snd (add_index index scale addr st))"
  by (simp add: add_index_def Let_def case_prod_unfold emit_closed)

lemma op_value_closed: "Q st \<Longrightarrow> Q (snd (op_value insn idx st))"
  by (simp add: op_value_def Let_def case_prod_unfold emit_closed add_index_closed split: x86_op.split)

lemma dst_address_closed: "Q st \<Longrightarrow> Q (snd (dst_address base disp st))"
  by (simp add: dst_address_def emit_closed)

lemma handlers_closed:
  assumes "Q st"
  shows "Q (lift_push insn st)" "Q (lift_pop insn st)" "Q (lift_mov insn st)" "Q (lift_lea insn st)"
    "Q (lift_binop x insn st)" "Q (lift_unop x insn st)" "Q (lift_inc_dec insn st)" "Q (lift_call insn st)"
    "Q (lift_ret insn st)" "Q (lift_jmp insn st)" "Q (lift_pushfq insn st)" "Q (lift_popfq insn st)"
    "Q (lift_flags x insn st)" "Q (lift_jcc insn st)" "Q (lift_xchg insn st)" "Q (lift_cdqe insn st)"
    "Q (lift_extend x insn st)" "Q (lift_setcc insn st)" "Q (lift_cmov insn st)" "Q (lift_unsupported insn st)"
  using assms
  unfolding lift_handlers Let_def case_prod_unfold
  by (simp_all add: emit_closed set_closed set_dst_closed add_index_closed op_value_closed dst_address_closed
      split: x86_op.split)

lemma if_closed: "Q a \<Longrightarrow> Q b \<Longrightarrow> Q (if c then a else b)"
  by simp

lemma lift_insn_closed: "Q st \<Longrightarrow> Q (lift_insn insn st)"
  unfolding lift_insn_def Let_def by (intro if_closed handlers_closed)

end

interpretation longer: lift_invariant "\<lambda>st. n \<le> n_emitted st" for n
  by unfold_locales (auto simp: emit_ref_def emit_def Let_def)

subsection \<open>Lifting a block\<close>

text \<open>The flags say whether the code is free of the four mnemonics whose folding may be undefined.\<close>

definition bounded_decode :: "(u8 list \<Rightarrow> u64 \<Rightarrow> cs_insn list) \<Rightarrow> bool" where
  "bounded_decode decode \<longleftrightarrow> (\<forall>code va. length (decode code va) \<le> length code)"

lemma run_fold_shape:
  "run_fold_convergence f n = Some (f', rep) \<Longrightarrow> ssa (instrs f) \<Longrightarrow> ssa (instrs f') \<and> shape f f'"
  unfolding run_fold_convergence_def using shape_pipeline.converge_good [of n 0 f _ f'] by blast

lemma run_fold_defined: "tame f \<Longrightarrow> \<exists>f' rep. run_fold_convergence f n = Some (f', rep) \<and> tame f'"
  unfolding run_fold_convergence_def by (rule fold_defined.converge_defined)

lemma guided_promote_rounds_shape:
  "guided_promote_rounds n f bm = Some (f', bm') \<Longrightarrow> ssa (instrs f) \<Longrightarrow> ssa (instrs f') \<and> shape f f'"
proof (induction n arbitrary: f bm)
  case (Suc n)
  from Suc.prems(1) obtain f1 rep f2 bm2 p where f1: "run_fold_convergence f 8 = Some (f1, rep)"
    and f2: "promote_pass f1 bm = Some (f2, bm2, p)"
    and rest: "(if \<not> p then Some (f2, bm2) else guided_promote_rounds n f2 bm2) = Some (f', bm')"
    by (auto simp: guided_promote_rounds_Suc simp del: guided_promote_rounds.simps elim!: bind_SomeE)
  note s1 = run_fold_shape [OF f1 Suc.prems(2)]
  note s2 = promote_pass_shape [OF f2 conjunct1 [OF s1]]
  have s: "ssa (instrs f2)" "shape f f2" using s1 s2 shape_trans by blast+
  show ?case
  proof (cases p)
    case True
    with rest Suc.IH [of f2 bm2] s show ?thesis by (auto intro: shape_trans)
  qed (use rest s in auto)
qed (simp add: shape_refl)

lemma guided_promote_rounds_defined:
  "tame f \<Longrightarrow> \<exists>f' bm'. guided_promote_rounds n f bm = Some (f', bm') \<and> tame f'"
proof (induction n arbitrary: f bm)
  case (Suc n)
  obtain f1 rep where f1: "run_fold_convergence f 8 = Some (f1, rep)" "tame f1"
    using run_fold_defined [OF Suc.prems] by blast
  obtain f2 bm2 p where f2: "promote_pass f1 bm = Some (f2, bm2, p)" "tame f2"
    using promote_pass_tame [OF f1(2)] by blast
  from f1 f2 Suc.IH [of f2 bm2] show ?case
    by (auto simp: guided_promote_rounds_Suc simp del: guided_promote_rounds.simps)
qed simp

definition ev_ok :: "bounds \<Rightarrow> int \<Rightarrow> GuidedEvaluator \<Rightarrow> bool" where
  "ev_ok B steps ev \<longleftrightarrow> 0 \<le> steps \<and> lift_ok B (ge_state ev) \<and> n_emitted (ge_state ev) \<le> 10 * nat steps"

abbreviation ev_len :: "GuidedEvaluator \<Rightarrow> nat" where
  "ev_len ev \<equiv> n_emitted (ge_state ev)"

lemma ev_ok_with_func:
  assumes "ev_ok B steps ev" "shape (ge_func ev) f" "ssa (instrs f)"
  shows "ev_ok B steps (with_func f ev) \<and> ev_len (with_func f ev) = ev_len ev"
  using assms lift_ok_shape [of B "ge_state ev" f] by (simp add: ev_ok_def with_func_def)

lemma ev_ok_memory [simp]: "ev_ok B steps (ev\<lparr>ge_memory := m\<rparr>) = ev_ok B steps ev"
  by (simp add: ev_ok_def)

lemma ev_ssa: "ev_ok B steps ev \<Longrightarrow> ssa (instrs (ge_func ev))"
  by (simp add: ev_ok_def lift_ok_def)

lemma guided_lift_ok:
  assumes "guided_lift is steps va ev = Some (steps', va', result, ev')"
    and "ev_ok B steps ev" "10 * nat (steps + int (length is)) \<le> lb_limit B"
  shows "ev_ok B steps' ev' \<and> steps \<le> steps' \<and> steps' \<le> steps + int (length is) \<and> ev_len ev \<le> ev_len ev'
    \<and> result \<in> {IN_PROGRESS, RET, VMEXIT_RET, VMEXIT_CALL}"
  using assms
proof (induction "is" arbitrary: steps ev)
  case (Cons i "is")
  let ?ev = "ev\<lparr>ge_state := lift_insn i (ge_state ev)\<rparr>"
  have "0 \<le> steps" using Cons.prems(2) by (simp add: ev_ok_def)
  then have "nat steps + 1 \<le> nat (steps + int (length (i # is)))" by simp
  then have room: "n_emitted (ge_state ev) + 10 \<le> lb_limit B" using Cons.prems(2,3) unfolding ev_ok_def by linarith
  note l = lift_insn_keeps [OF _ room, of i]
  have ok: "ev_ok B (steps + 1) ?ev" 
    using Cons.prems(2) l \<open>0 \<le> steps\<close> by (simp add: ev_ok_def nat_add_distrib)
  have len: "ev_len ev \<le> ev_len ?ev" using longer.lift_insn_closed [of "ev_len ev"] by simp
  have vmexit: "check_vmexit st = Some r \<Longrightarrow> r \<in> {VMEXIT_RET, VMEXIT_CALL}" for st r
    by (auto simp: check_vmexit_def Let_def split: option.splits if_splits)
  show ?case
  proof (cases "mnemonic i = ''ret''")
    case True
    with Cons.prems(1) obtain f rep where f: "run_fold_convergence (ge_func ?ev) 8 = Some (f, rep)"
      and rest: "ev' = with_func f ?ev" "steps' = steps + 1" "result \<in> {IN_PROGRESS, RET, VMEXIT_RET, VMEXIT_CALL}"
      by (auto simp: Let_def elim!: bind_SomeE split: option.splits if_splits dest!: vmexit)
    from ev_ok_with_func [OF ok] run_fold_shape [OF f ev_ssa [OF ok]] rest len show ?thesis by simp
  next
    case False
    show ?thesis
    proof (cases "mnemonic i = ''jmp'' \<or> mnemonic i = ''call''")
      case True
      with False Cons.prems(1) ok len show ?thesis by (auto simp: Let_def split: if_splits)
    next
      case neither: False
      with False Cons.prems(1) have "guided_lift is (steps + 1) va ?ev = Some (steps', va', result, ev')"
        by (simp add: Let_def)
      from Cons.IH [OF this ok] Cons.prems(3) len show ?thesis by (simp add: algebra_simps)
    qed
  qed
qed simp

lemma guided_promote_ok:
  assumes "guided_promote ev = Some ev'" "ev_ok B steps ev"
  shows "ev_ok B steps ev' \<and> ev_len ev' = ev_len ev"
proof -
  from assms(1) obtain f m where f: "guided_promote_rounds 3 (ge_func ev) (ge_memory ev) = Some (f, m)"
    "ev' = (with_func f ev)\<lparr>ge_memory := m\<rparr>"
    by (auto simp: guided_promote_def elim!: bind_SomeE)
  from ev_ok_with_func [OF assms(2)] guided_promote_rounds_shape [OF f(1) ev_ssa [OF assms(2)]] f(2)
  show ?thesis by simp
qed

subsection \<open>The machine of rounds\<close>

text \<open>A state is reachable with the flag of the round that led to it; only a state whose round did not
  break the loop takes another round.\<close>

inductive guided_reach ::
  "(u8 list \<Rightarrow> u64 \<Rightarrow> cs_insn list) \<Rightarrow> int \<Rightarrow> int \<Rightarrow> guided_loop_state \<Rightarrow> guided_loop_state \<times> bool \<Rightarrow> bool"
  for decode max_steps max_vm_insns s0 where
  reach_start: "guided_reach decode max_steps max_vm_insns s0 (s0, True)"
| reach_round: "\<lbrakk>guided_reach decode max_steps max_vm_insns s0 (s, True); gl_steps s < max_steps;
     guided_step decode max_vm_insns s = Some r\<rbrakk> \<Longrightarrow> guided_reach decode max_steps max_vm_insns s0 r"

inductive_cases reach_stopped: "guided_reach decode ms mx s0 (s, False)"

lemma guided_loop_reach:
  "guided_loop decode ms mx s = Some s' \<Longrightarrow> guided_reach decode ms mx s0 (s, True) \<Longrightarrow>
   \<exists>go. guided_reach decode ms mx s0 (s', go) \<and> (go \<longrightarrow> ms \<le> gl_steps s')"
proof (induction decode ms mx s rule: guided_loop.induct)
  case (1 decode ms mx s)
  show ?case
  proof (cases "gl_steps s < ms")
    case False
    with "1.prems" show ?thesis by (subst (asm) guided_loop.simps) (auto intro: exI [of _ True])
  next
    case True
    with "1.prems"(1) obtain s1 go where step: "guided_step decode mx s = Some (s1, go)"
      and rest: "(if go then guided_loop decode ms mx s1 else Some s1) = Some s'"
      by (subst (asm) guided_loop.simps) (auto elim!: bind_SomeE)
    have "guided_reach decode ms mx s0 (s1, go)" using reach_round "1.prems"(2) True step by blast
    with rest "1.IH" True step show ?thesis by (cases go) auto
  qed
qed

text \<open>The states a loop invariant talks about: a run of a fresh evaluator from \<open>start_va\<close>.\<close>

definition guided_init :: "GuidedEvaluator \<Rightarrow> u64 \<Rightarrow> guided_loop_state" where
  "guided_init ev start_va =
     \<lparr>gl_ev = guided_start ev, gl_steps = 0, gl_va = start_va, gl_result = IN_PROGRESS, gl_final_vpc = None\<rparr>"

definition fresh_evaluator :: "u8 list \<Rightarrow> u64 \<Rightarrow> string \<Rightarrow> VMState \<Rightarrow> ByteMemory \<Rightarrow> GuidedEvaluator" where
  "fresh_evaluator img base reg rs memory =
     (new_evaluator img base reg)\<lparr>ge_initial_regs := rs, ge_memory := memory\<rparr>"

lemma guided_start_frame [simp]:
  "ge_image (guided_start ev) = ge_image ev" "ge_base (guided_start ev) = ge_base ev"
  "ge_visited (guided_start ev) = ge_visited ev" "ge_jmp_trace (guided_start ev) = ge_jmp_trace ev"
  "ge_dispatcher_va (guided_start ev) = ge_dispatcher_va ev" "ge_vpc_trace (guided_start ev) = ge_vpc_trace ev"
  "ge_handlers (guided_start ev) = ge_handlers ev" "ge_handler_freq (guided_start ev) = ge_handler_freq ev"
  "ge_last_vpc (guided_start ev) = ge_last_vpc ev" "ge_handler_ir_start (guided_start ev) = ge_handler_ir_start ev"
  "ge_vm_insn_count (guided_start ev) = ge_vm_insn_count ev" "ge_vpc_reg (guided_start ev) = ge_vpc_reg ev"
  "ge_initial_regs (guided_start ev) = ge_initial_regs ev"
  by (simp_all add: guided_start_def guided_safe_range_def Let_def)

lemma fresh_evaluator_sel [simp]:
  "ge_image (fresh_evaluator img base reg rs m) = img" "ge_base (fresh_evaluator img base reg rs m) = base"
  "ge_visited (fresh_evaluator img base reg rs m) = {}" "ge_jmp_trace (fresh_evaluator img base reg rs m) = []"
  "ge_dispatcher_va (fresh_evaluator img base reg rs m) = None" "ge_vpc_trace (fresh_evaluator img base reg rs m) = []"
  "ge_handlers (fresh_evaluator img base reg rs m) = []" "ge_handler_freq (fresh_evaluator img base reg rs m) = []"
  "ge_last_vpc (fresh_evaluator img base reg rs m) = None" "ge_handler_ir_start (fresh_evaluator img base reg rs m) = 0"
  "ge_vm_insn_count (fresh_evaluator img base reg rs m) = 0" "ge_vpc_reg (fresh_evaluator img base reg rs m) = reg"
  "ge_initial_regs (fresh_evaluator img base reg rs m) = rs" "ge_memory (fresh_evaluator img base reg rs m) = m"
  "ge_state (fresh_evaluator img base reg rs m) = new_lift_state (new_function ''guided'') 0x7FFFFFFFD000"
  by (simp_all add: fresh_evaluator_def new_evaluator_def)

text \<open>The ids a run of \<open>max_steps\<close> may use: the last block can pass the bound by its 256 instructions.\<close>

definition guided_bounds :: "int \<Rightarrow> u32 set \<Rightarrow> bounds" where
  "guided_bounds max_steps ext = \<lparr>lb_base = 0, lb_limit = 10 * nat (max_steps + 256), lb_ext = ext\<rparr>"

lemma guided_start_ok:
  assumes "bounds_ok (guided_bounds ms ext)" "vm_refs rs \<subseteq> ext"
  shows "ev_ok (guided_bounds ms ext) 0 (guided_start (fresh_evaluator img base reg rs m))
    \<and> ev_len (guided_start (fresh_evaluator img base reg rs m)) = 0"
proof -
  let ?B = "guided_bounds ms ext" and ?st = "new_lift_state (new_function ''guided'') 0x7FFFFFFFD000"
  have "new_function ''guided'' = set_next_id 0 (new_function ''guided'')" by (simp add: set_next_id_def new_function_def)
  then have "lift_ok ?B ?st"
    using new_lift_state_ok [OF assms(1), of "''guided''"] by (simp add: guided_bounds_def)
  then have l: "lift_ok ?B (set_reg ''rsp'' (Const64 0x7FFFFFFFD000) ?st)" by (rule set_reg_ok) simp
  have st: "ge_state (guided_start (fresh_evaluator img base reg rs m)) =
      foldl (\<lambda>st (k, v). set_reg k v st) (set_reg ''rsp'' (Const64 0x7FFFFFFFD000) ?st) rs"
    by (simp add: guided_start_def guided_safe_range_def Let_def)
  have "instrs (func (set_reg ''rsp'' (Const64 0x7FFFFFFFD000) ?st)) = []"
    by (simp add: new_lift_state_def new_function_def)
  with set_regs_ok [OF l, of rs] assms(2) st show ?thesis
    by (simp add: ev_ok_def guided_bounds_def)
qed

subsection \<open>The catalog of handlers\<close>

text \<open>The catalog lists disjoint, increasing, non-empty ranges of the lifted code, and the frequency
  table is its histogram.\<close>

definition catalog_inv :: "GuidedEvaluator \<Rightarrow> bool" where
  "catalog_inv ev \<longleftrightarrow>
     (\<forall>va. freq_of (ge_handler_freq ev) va = int (count_list (map hr_handler_va (ge_handlers ev)) va))
     \<and> sorted_wrt (\<lambda>h h'. hr_ir_end_idx h \<le> hr_ir_start_idx h') (ge_handlers ev)
     \<and> (\<forall>h \<in> set (ge_handlers ev). hr_ir_start_idx h < hr_ir_end_idx h \<and> hr_ir_end_idx h \<le> ev_len ev
          \<and> hr_vpc_before h \<noteq> None)
     \<and> int (length (ge_handlers ev)) \<le> ge_vm_insn_count ev
     \<and> ge_vm_insn_count ev = int (length (ge_vpc_trace ev))"

text \<open>Between two dispatches.\<close>

definition open_inv :: "GuidedEvaluator \<Rightarrow> bool" where
  "open_inv ev \<longleftrightarrow> catalog_inv ev \<and> (\<forall>h \<in> set (ge_handlers ev). hr_ir_end_idx h \<le> ge_handler_ir_start ev)
     \<and> (ge_last_vpc ev \<noteq> None \<longrightarrow> int (length (ge_handlers ev)) < ge_vm_insn_count ev)"

lemma freq_of_update: "freq_of (AList.update k n f) va = (if va = k then n else freq_of f va)"
  by (simp add: freq_of_def map_of_update)

lemma record_handler_cases:
  obtains "record_handler c ev = ev"
  | h where "ge_handlers (record_handler c ev) = ge_handlers ev @ [h]"
      "ge_handler_freq (record_handler c ev) =
         AList.update (hr_handler_va h) (freq_of (ge_handler_freq ev) (hr_handler_va h) + 1) (ge_handler_freq ev)"
      "hr_ir_start_idx h = ge_handler_ir_start ev" "hr_ir_end_idx h = ev_len ev" "ge_handler_ir_start ev < ev_len ev"
      "hr_vpc_before h = ge_last_vpc ev" "ge_last_vpc ev \<noteq> None"
proof (cases "ge_last_vpc ev \<noteq> None \<and> ge_handler_ir_start ev < ev_len ev")
  case False
  with that(1) show thesis by (auto simp: record_handler_def Let_def)
next
  case True
  define h where "h = \<lparr>hr_vpc_before = ge_last_vpc ev, hr_vpc_after = c,
      hr_handler_va = if ge_jmp_trace ev = [] then 0 else last (ge_jmp_trace ev),
      hr_ir_start_idx = ge_handler_ir_start ev, hr_ir_end_idx = ev_len ev\<rparr>"
  with True show thesis by (intro that(2) [of h]) (simp_all add: record_handler_def Let_def)
qed

lemma record_handler_catalog:
  assumes "open_inv ev"
  shows "catalog_inv (record_handler c ev)"
    "\<forall>h \<in> set (ge_handlers (record_handler c ev)). hr_ir_end_idx h \<le> ev_len ev"
proof -
  have "catalog_inv (record_handler c ev) \<and> (\<forall>h \<in> set (ge_handlers (record_handler c ev)). hr_ir_end_idx h \<le> ev_len ev)"
  proof (cases rule: record_handler_cases [where c = c and ev = ev])
    case 1
    with assms show ?thesis by (auto simp: open_inv_def catalog_inv_def)
  next
    case (2 h)
    with assms show ?thesis
      by (auto simp: open_inv_def catalog_inv_def freq_of_update sorted_wrt_append)
  qed
  then show "catalog_inv (record_handler c ev)" "\<forall>h \<in> set (ge_handlers (record_handler c ev)). hr_ir_end_idx h \<le> ev_len ev"
    by simp_all
qed

lemma count_dispatch_open:
  assumes "catalog_inv ev" "\<forall>h \<in> set (ge_handlers ev). hr_ir_end_idx h \<le> ev_len ev"
  shows "open_inv (count_dispatch c ev)"
  using assms by (simp add: open_inv_def catalog_inv_def count_dispatch_def)

lemma catalog_later:
  assumes "same_frame ev ev'" "ev_len ev \<le> ev_len ev'"
  shows "catalog_inv ev \<Longrightarrow> catalog_inv ev'" "open_inv ev \<Longrightarrow> open_inv ev'"
proof -
  show c: "catalog_inv ev \<Longrightarrow> catalog_inv ev'"
    using assms by (auto simp: catalog_inv_def same_frame_def intro: order_trans)
  show "open_inv ev \<Longrightarrow> open_inv ev'"
    using assms c by (simp add: open_inv_def same_frame_def)
qed

lemma catalog_updates [simp]:
  "catalog_inv (ev\<lparr>ge_visited := V\<rparr>) = catalog_inv ev" "catalog_inv (ev\<lparr>ge_dispatcher_va := d\<rparr>) = catalog_inv ev"
  "catalog_inv (ev\<lparr>ge_jmp_trace := t\<rparr>) = catalog_inv ev" "open_inv (ev\<lparr>ge_visited := V\<rparr>) = open_inv ev"
  "open_inv (ev\<lparr>ge_dispatcher_va := d\<rparr>) = open_inv ev" "open_inv (ev\<lparr>ge_jmp_trace := t\<rparr>) = open_inv ev"
  by (simp_all add: catalog_inv_def open_inv_def)

lemma enter_block_catalog:
  assumes "enter_block mx va ev = Some (ev', stop)" "open_inv ev"
  shows "catalog_inv ev' \<and> (stop = None \<longrightarrow> open_inv ev') \<and> ge_state ev' = ge_state ev \<and> ge_memory ev' = ge_memory ev
    \<and> ge_image ev' = ge_image ev \<and> ge_base ev' = ge_base ev \<and> ge_jmp_trace ev' = ge_jmp_trace ev"
proof (cases "va \<in> ge_visited ev")
  case False
  with assms show ?thesis by (auto simp: enter_block_def open_inv_def)
next
  case True
  from assms(1) True show ?thesis
  proof (cases rule: enter_block_again)
    case elsewhere
    with assms(2) show ?thesis by (simp add: open_inv_def)
  next
    case (dispatcher cur ev1)
    have "open_inv ev1" using assms(2) dispatcher(2) by simp
    note r = record_handler_catalog [OF this, of cur]
    have "open_inv (count_dispatch cur (record_handler cur ev1))"
      using r by (intro count_dispatch_open) simp_all
    with r dispatcher(2,4) show ?thesis
      by (auto simp: open_inv_def count_dispatch_def split: if_splits)
  qed
qed

subsection \<open>A block\<close>

lemma record_vjcc_ok [simp]: "ev_ok B k (record_vjcc va ev) = ev_ok B k ev" "ge_state (record_vjcc va ev) = ge_state ev"
  by (simp_all add: record_vjcc_def ev_ok_def split: option.split)

lemma guided_block_ok:
  assumes run: "guided_block decode s = Some (s', go)" and dec: "bounded_decode decode"
    and ok: "ev_ok B (gl_steps s) (gl_ev s)" "10 * nat (gl_steps s + 256) \<le> lb_limit B"
    and start: "gl_result s = IN_PROGRESS"
  shows "ev_ok B (gl_steps s') (gl_ev s') \<and> ev_len (gl_ev s) \<le> ev_len (gl_ev s')
    \<and> gl_steps s \<le> gl_steps s' \<and> gl_steps s' \<le> gl_steps s + 256
    \<and> (if go then gl_result s' = IN_PROGRESS \<and> is_in_image (gl_ev s') (gl_va s')
       else gl_result s' \<in> {OUT_OF_BOUNDS, RET, VMEXIT_RET, VMEXIT_CALL, UNRESOLVED_TARGET, TARGET_OUTSIDE_IMAGE})"
proof -
  let ?ev = "(gl_ev s)\<lparr>ge_jmp_trace := ge_jmp_trace (gl_ev s) @ [gl_va s]\<rparr>"
  have ok': "ev_ok B (gl_steps s) ?ev" using ok(1) by (simp add: ev_ok_def)
  from run obtain code where code: "read_bytes ?ev (gl_va s) 256 = Some code"
    by (auto simp: guided_block_def Let_def elim!: bind_SomeE)
  show ?thesis
  proof (cases code)
    case None
    with run code ok' show ?thesis by (auto simp: guided_block_def Let_def ev_ok_def)
  next
    case (Some bs)
    have "length bs \<le> 256" using code Some by (auto simp: read_bytes_def Let_def split: if_splits)
    then have len: "length (decode bs (gl_va s)) \<le> 256" using dec order_trans unfolding bounded_decode_def by blast
    from run code Some obtain steps va r ev1 ev2 where
        l: "guided_lift (decode bs (gl_va s)) (gl_steps s) (gl_va s) ?ev = Some (steps, va, r, ev1)"
      and p: "guided_promote ev1 = Some ev2"
      and rest: "(if r \<noteq> IN_PROGRESS then Some (s\<lparr>gl_ev := ev2, gl_steps := steps, gl_va := va, gl_result := r\<rparr>, False)
         else do { target \<leftarrow> resolve_jmp_target (ge_func ev2);
                   Some (case target of
                     None \<Rightarrow> (s\<lparr>gl_ev := ev2, gl_steps := steps, gl_va := va, gl_result := r\<rparr>
                       \<lparr>gl_ev := record_vjcc va ev2, gl_result := UNRESOLVED_TARGET\<rparr>, False)
                   | Some t \<Rightarrow> if \<not> is_in_image ev2 t
                       then (s\<lparr>gl_ev := ev2, gl_steps := steps, gl_va := va, gl_result := r\<rparr>\<lparr>gl_result := TARGET_OUTSIDE_IMAGE\<rparr>, False)
                       else (s\<lparr>gl_ev := ev2, gl_steps := steps, gl_va := va, gl_result := r\<rparr>\<lparr>gl_va := t\<rparr>, True)) }) = Some (s', go)"
      by (auto simp: guided_block_def Let_def elim!: bind_SomeE split del: if_split)
    have "nat (gl_steps s + int (length (decode bs (gl_va s)))) \<le> nat (gl_steps s + 256)" using len by simp
    then have room: "10 * nat (gl_steps s + int (length (decode bs (gl_va s)))) \<le> lb_limit B" using ok(2) by linarith
    note l' = guided_lift_ok [OF l ok' room]
    note p' = guided_promote_ok [OF p conjunct1 [OF l']]
    have "ev_ok B steps ev2" "ev_len (gl_ev s) \<le> ev_len ev2" "gl_steps s \<le> steps" "steps \<le> gl_steps s + 256"
      using l' p' len by simp_all
    with rest l' show ?thesis
      by (auto elim!: bind_SomeE split: if_splits option.splits)
  qed
qed

subsection \<open>The addresses that are visited\<close>

definition image_addresses :: "u8 list \<Rightarrow> u64 \<Rightarrow> u64 set" where
  "image_addresses img base = {a. unat (a - base) < length img}"

lemma card_image_addresses: "card (image_addresses img base) \<le> length img"
proof -
  have "image_addresses img base \<subseteq> (\<lambda>k. base + of_nat k) ` {..<length img}"
  proof
    fix a assume "a \<in> image_addresses img base"
    then have "unat (a - base) \<in> {..<length img}" by (simp add: image_addresses_def)
    moreover have "a = base + of_nat (unat (a - base))" by simp
    ultimately show "a \<in> (\<lambda>k. base + of_nat k) ` {..<length img}" by (rule rev_image_eqI)
  qed
  from card_mono [OF _ this] card_image_le [of "{..<length img}" "\<lambda>k. base + of_nat k"] show ?thesis by simp
qed

definition trace_inv :: "u64 \<Rightarrow> GuidedEvaluator \<Rightarrow> bool" where
  "trace_inv start ev \<longleftrightarrow>
     (let A = image_addresses (ge_image ev) (ge_base ev); n = length (ge_image ev)
      in set (tl (ge_jmp_trace ev)) \<subseteq> A \<and> (ge_jmp_trace ev \<noteq> [] \<longrightarrow> hd (ge_jmp_trace ev) = start)
         \<and> ge_visited ev \<subseteq> set (ge_jmp_trace ev)
         \<and> int (length (ge_jmp_trace ev)) \<le> ge_vm_insn_count ev * (int n + 1) + int (card (ge_visited ev))
         \<and> 0 \<le> ge_vm_insn_count ev
         \<and> (0 < ge_vm_insn_count ev \<longrightarrow> ge_dispatcher_va ev \<noteq> None)
         \<and> (\<forall>d. ge_dispatcher_va ev = Some d \<longrightarrow> d \<in> set (ge_jmp_trace ev)))"

lemma trace_visited:
  assumes "trace_inv start ev"
  shows "card (ge_visited ev) \<le> length (ge_image ev) + 1"
proof -
  let ?A = "image_addresses (ge_image ev) (ge_base ev)"
  have "ge_visited ev \<subseteq> insert start ?A"
    using assms by (cases "ge_jmp_trace ev") (auto simp: trace_inv_def Let_def)
  then have "card (ge_visited ev) \<le> card (insert start ?A)" by (intro card_mono) simp_all
  also have "\<dots> \<le> card ?A + 1" by (simp add: card_insert_if)
  also have "\<dots> \<le> length (ge_image ev) + 1" using card_image_addresses by simp
  finally show ?thesis .
qed

lemma trace_bound:
  assumes "trace_inv start ev"
  shows "int (length (ge_jmp_trace ev)) \<le> (ge_vm_insn_count ev + 1) * (int (length (ge_image ev)) + 1)"
proof -
  have "int (length (ge_jmp_trace ev)) \<le> ge_vm_insn_count ev * (int (length (ge_image ev)) + 1) + int (card (ge_visited ev))"
    using assms by (simp add: trace_inv_def Let_def)
  also have "\<dots> \<le> ge_vm_insn_count ev * (int (length (ge_image ev)) + 1) + (int (length (ge_image ev)) + 1)"
    using trace_visited [OF assms] by simp
  finally show ?thesis by (simp add: algebra_simps)
qed

lemma trace_frame: "same_frame ev ev' \<Longrightarrow> trace_inv start ev' = trace_inv start ev"
  by (simp add: trace_inv_def same_frame_def)

lemma trace_push:
  assumes "trace_inv start ev" "ge_jmp_trace ev = [] \<and> va = start \<or> va \<in> image_addresses (ge_image ev) (ge_base ev)"
    "ge_jmp_trace ev = [] \<longrightarrow> va = start"
    "enter_block mx va ev = Some (ev', None)"
  shows "trace_inv start (ev'\<lparr>ge_jmp_trace := ge_jmp_trace ev' @ [va]\<rparr>)"
  using assms(4)
proof (cases rule: enter_block_cases)
  case fresh
  with assms(1-3) show ?thesis
    by (cases "ge_jmp_trace ev") (auto simp: trace_inv_def Let_def)
next
  case (dispatch cur ev1)
  with assms(1) have "va \<in> set (ge_jmp_trace ev)" by (auto simp: trace_inv_def Let_def)
  then have ne: "ge_jmp_trace ev \<noteq> []" by auto
  have "int (length (ge_jmp_trace ev)) \<le> (ge_vm_insn_count ev + 1) * (int (length (ge_image ev)) + 1)"
    using trace_bound [OF assms(1)] .
  with ne assms(1-3) dispatch \<open>va \<in> set (ge_jmp_trace ev)\<close> show ?thesis
    by (cases "ge_jmp_trace ev") (auto simp: trace_inv_def Let_def count_dispatch_def)
qed

lemma trace_stop:
  assumes "trace_inv start ev" "enter_block mx va ev = Some (ev', Some stop)"
  shows "trace_inv start ev'"
proof (cases "va \<in> ge_visited ev")
  case False
  with assms(2) show ?thesis by (simp add: enter_block_def)
next
  case True
  then have va: "va \<in> set (ge_jmp_trace ev)" using assms(1) by (auto simp: trace_inv_def Let_def)
  from assms(2) True show ?thesis
  proof (cases rule: enter_block_again)
    case (dispatcher cur ev1)
    have "0 \<le> int (length (ge_image ev)) + 1" by simp
    with dispatcher assms(1) va show ?thesis
      by (auto simp: trace_inv_def Let_def count_dispatch_def distrib_right split: if_splits)
  qed (use assms(1) in simp)
qed

subsection \<open>The invariant of the loop\<close>

definition outcome :: "int \<Rightarrow> guided_loop_state \<Rightarrow> bool" where
  "outcome mx s \<longleftrightarrow> gl_result s \<notin> {IN_PROGRESS, VPC_UNRESOLVED, MAX_STEPS}
     \<and> (gl_result s = VPC_CONVERGED \<longrightarrow> gl_final_vpc s \<noteq> None \<and> gl_final_vpc s = ge_last_vpc (gl_ev s))
     \<and> (gl_result s = MAX_VM_INSNS \<longrightarrow> mx \<le> ge_vm_insn_count (gl_ev s))"

definition guided_inv :: "bounds \<Rightarrow> u8 list \<Rightarrow> u64 \<Rightarrow> int \<Rightarrow> int \<Rightarrow> u64 \<Rightarrow> guided_loop_state \<times> bool \<Rightarrow> bool" where
  "guided_inv B img base ms mx start r \<longleftrightarrow>
     (case r of (s, go) \<Rightarrow>
        ev_ok B (gl_steps s) (gl_ev s) \<and> gl_steps s \<le> max 0 (ms + 255) \<and> trace_inv start (gl_ev s) \<and> catalog_inv (gl_ev s)
        \<and> ge_image (gl_ev s) = img \<and> ge_base (gl_ev s) = base \<and> ge_vm_insn_count (gl_ev s) \<le> max 1 mx
        \<and> (if go then ge_vm_insn_count (gl_ev s) < max 1 mx \<and> open_inv (gl_ev s) \<and> gl_result s = IN_PROGRESS \<and> gl_final_vpc s = None
             \<and> (ge_jmp_trace (gl_ev s) = [] \<longrightarrow> gl_va s = start)
             \<and> (ge_jmp_trace (gl_ev s) \<noteq> [] \<longrightarrow> gl_va s \<in> image_addresses img base)
           else outcome mx s))"

lemma enter_block_stop:
  assumes "enter_block mx va ev = Some (ev', Some (result, vpc))"
  shows "outcome mx (s\<lparr>gl_ev := ev', gl_result := result, gl_final_vpc := vpc\<rparr>)"
proof (cases "va \<in> ge_visited ev")
  case False
  with assms show ?thesis by (simp add: enter_block_def)
next
  case True
  from assms True show ?thesis
    by (cases rule: enter_block_again) (auto simp: outcome_def split: if_splits dest: sym)
qed

lemma enter_block_count:
  assumes "enter_block mx va ev = Some (ev', stop)" "ge_vm_insn_count ev < max 1 mx"
  shows "ge_vm_insn_count ev' \<le> max 1 mx \<and> (stop = None \<longrightarrow> ge_vm_insn_count ev' < max 1 mx)"
proof (cases "va \<in> ge_visited ev")
  case False
  with assms show ?thesis by (auto simp: enter_block_def)
next
  case True
  from assms(1) True show ?thesis
    by (cases rule: enter_block_again) (use assms in \<open>auto split: if_splits\<close>)
qed

lemma guided_step_inv:
  assumes step: "guided_step decode mx s = Some r" and dec: "bounded_decode decode"
    and inv: "guided_inv B img base ms mx start (s, True)" and more: "gl_steps s < ms"
    and room: "10 * nat (ms + 256) \<le> lb_limit B"
  shows "guided_inv B img base ms mx start r"
proof -
  obtain s' go where r: "r = (s', go)" by force
  let ?ev = "gl_ev s"
  from inv have ok: "ev_ok B (gl_steps s) ?ev" "trace_inv start ?ev" "open_inv ?ev" "gl_result s = IN_PROGRESS"
      "gl_final_vpc s = None" "ge_vm_insn_count ?ev < max 1 mx"
    and va: "ge_jmp_trace ?ev = [] \<longrightarrow> gl_va s = start"
      "ge_jmp_trace ?ev = [] \<and> gl_va s = start \<or> gl_va s \<in> image_addresses (ge_image ?ev) (ge_base ?ev)"
    and img: "ge_image ?ev = img" "ge_base ?ev = base"
    by (auto simp: guided_inv_def)
  from step obtain ev stop where e: "enter_block mx (gl_va s) ?ev = Some (ev, stop)"
    and rest: "(case stop of
            Some (result, final_vpc) \<Rightarrow> Some (s\<lparr>gl_ev := ev, gl_result := result, gl_final_vpc := final_vpc\<rparr>, False)
          | None \<Rightarrow> guided_block decode (s\<lparr>gl_ev := ev\<rparr>)) = Some (s', go)"
    by (auto simp: guided_step_def r elim!: bind_SomeE)
  note c = enter_block_catalog [OF e ok(3)] and n = enter_block_count [OF e ok(6)]
  have evok: "ev_ok B (gl_steps s) ev" using ok(1) c by (simp add: ev_ok_def)
  have steps: "gl_steps s \<le> max 0 (ms + 255)" using more by simp
  show ?thesis
  proof (cases stop)
    case (Some p)
    obtain result vpc where p: "p = (result, vpc)" by force
    with Some rest have s': "s' = s\<lparr>gl_ev := ev, gl_result := result, gl_final_vpc := vpc\<rparr>" "\<not> go" by auto
    with evok steps c n img trace_stop [OF ok(2)] enter_block_stop e Some p show ?thesis
      by (simp add: guided_inv_def r)
  next
    case None
    then have blk: "guided_block decode (s\<lparr>gl_ev := ev\<rparr>) = Some (s', go)" using rest by simp
    have "10 * nat (gl_steps s + 256) \<le> 10 * nat (ms + 256)" using more by simp
    then have "10 * nat (gl_steps s + 256) \<le> lb_limit B" using room by linarith
    then have "10 * nat (gl_steps (s\<lparr>gl_ev := ev\<rparr>) + 256) \<le> lb_limit B"
        "ev_ok B (gl_steps (s\<lparr>gl_ev := ev\<rparr>)) (gl_ev (s\<lparr>gl_ev := ev\<rparr>))" "gl_result (s\<lparr>gl_ev := ev\<rparr>) = IN_PROGRESS"
      using evok ok(4) by simp_all
    from guided_block_ok [OF blk dec this(2,1,3)]
    have b: "ev_ok B (gl_steps s') (gl_ev s')" "ev_len ev \<le> ev_len (gl_ev s')" "gl_steps s' \<le> gl_steps s + 256"
      "if go then gl_result s' = IN_PROGRESS \<and> is_in_image (gl_ev s') (gl_va s')
       else gl_result s' \<in> {OUT_OF_BOUNDS, RET, VMEXIT_RET, VMEXIT_CALL, UNRESOLVED_TARGET, TARGET_OUTSIDE_IMAGE}"
      by (auto split del: if_split)
    let ?ev' = "ev\<lparr>ge_jmp_trace := ge_jmp_trace ev @ [gl_va s]\<rparr>"
    from guided_block_frame [OF blk] have f: "same_frame ?ev' (gl_ev s')" "gl_final_vpc s' = gl_final_vpc s" by simp_all
    then have fr: "ge_image (gl_ev s') = img" "ge_base (gl_ev s') = base" "ge_vm_insn_count (gl_ev s') = ge_vm_insn_count ev"
        "ge_jmp_trace (gl_ev s') \<noteq> []"
      using c img by (simp_all add: same_frame_def)
    have "trace_inv start ?ev'" using trace_push [OF ok(2) va(2,1)] e None by simp
    moreover have "open_inv ?ev'" using c None by simp
    moreover have "ev_len ?ev' \<le> ev_len (gl_ev s')" using b(2) by simp
    ultimately have "trace_inv start (gl_ev s')" "open_inv (gl_ev s')"
      using trace_frame [OF f(1)] catalog_later(2) [OF f(1)] by simp_all
    moreover from this(2) have "catalog_inv (gl_ev s')" by (simp add: open_inv_def)
    ultimately show ?thesis
      using b fr f(2) ok(5) n None more
      by (auto simp: guided_inv_def r is_in_image_def image_addresses_def outcome_def split: if_splits)
  qed
qed

lemma guided_reach_inv:
  assumes "guided_reach decode ms mx s0 r" "bounded_decode decode" "10 * nat (ms + 256) \<le> lb_limit B"
    "guided_inv B img base ms mx start (s0, True)"
  shows "guided_inv B img base ms mx start r"
  using assms(1)
proof induction
  case reach_start
  show ?case by (rule assms(4))
next
  case (reach_round s r)
  from guided_step_inv [OF reach_round(3) assms(2) reach_round(4,2) assms(3)] show ?case .
qed

lemma guided_init_inv:
  assumes "bounds_ok (guided_bounds ms ext)" "vm_refs rs \<subseteq> ext"
  shows "guided_inv (guided_bounds ms ext) img base ms mx start
    (guided_init (fresh_evaluator img base reg rs memory) start, True)"
  using guided_start_ok [OF assms, of img base reg memory]
  by (simp add: guided_inv_def guided_init_def trace_inv_def Let_def catalog_inv_def open_inv_def freq_of_def
      less_max_iff_disj)

lemma guided_run_loop:
  assumes "guided_run (Some decode) start ms mx ev = Some (rep, ev')"
  obtains s f cr where "guided_loop decode ms mx (guided_init ev start) = Some s"
    "run_to_convergence (ge_func (gl_ev s)) 32 = Some (f, cr)" "ev' = with_func f (gl_ev s)"
    "rep = \<lparr>er_result = if ms \<le> gl_steps s \<and> gl_result s = IN_PROGRESS then MAX_STEPS else gl_result s,
            er_stop_va = gl_va s, er_steps = gl_steps s, er_vm_insn_count = ge_vm_insn_count (gl_ev s),
            er_ir_count = length (instrs f), er_dispatcher_va = ge_dispatcher_va (gl_ev s), er_final_vpc = gl_final_vpc s\<rparr>"
  using assms
  by (fastforce simp: guided_run_def guided_init_def Let_def with_func_def elim!: bind_SomeE)

lemma guided_run_inv:
  assumes run: "guided_run (Some decode) start ms mx (fresh_evaluator img base reg rs memory) = Some (rep, ev')"
    and dec: "bounded_decode decode" and B: "bounds_ok (guided_bounds ms ext)" "vm_refs rs \<subseteq> ext"
  obtains s f cr go where "guided_inv (guided_bounds ms ext) img base ms mx start (s, go)" "go \<longrightarrow> ms \<le> gl_steps s"
    "run_to_convergence (ge_func (gl_ev s)) 32 = Some (f, cr)" "ev' = with_func f (gl_ev s)"
    "rep = \<lparr>er_result = if ms \<le> gl_steps s \<and> gl_result s = IN_PROGRESS then MAX_STEPS else gl_result s,
            er_stop_va = gl_va s, er_steps = gl_steps s, er_vm_insn_count = ge_vm_insn_count (gl_ev s),
            er_ir_count = length (instrs f), er_dispatcher_va = ge_dispatcher_va (gl_ev s), er_final_vpc = gl_final_vpc s\<rparr>"
proof -
  from run obtain s f cr where s: "guided_loop decode ms mx (guided_init (fresh_evaluator img base reg rs memory) start) = Some s"
    and rest: "run_to_convergence (ge_func (gl_ev s)) 32 = Some (f, cr)" "ev' = with_func f (gl_ev s)"
      "rep = \<lparr>er_result = if ms \<le> gl_steps s \<and> gl_result s = IN_PROGRESS then MAX_STEPS else gl_result s,
            er_stop_va = gl_va s, er_steps = gl_steps s, er_vm_insn_count = ge_vm_insn_count (gl_ev s),
            er_ir_count = length (instrs f), er_dispatcher_va = ge_dispatcher_va (gl_ev s), er_final_vpc = gl_final_vpc s\<rparr>"
    by (rule guided_run_loop)
  from guided_loop_reach [OF s reach_start] obtain go where
    "guided_reach decode ms mx (guided_init (fresh_evaluator img base reg rs memory) start) (s, go)" "go \<longrightarrow> ms \<le> gl_steps s"
    by blast
  from that [OF guided_reach_inv [OF this(1) dec _ guided_init_inv [OF B]] this(2) rest] show thesis
    by (simp add: guided_bounds_def)
qed

subsection \<open>A run always ends\<close>

lemma ev_tame: "ev_ok B k ev \<Longrightarrow> no_risky_ops (instrs (ge_func ev)) \<Longrightarrow> tame (ge_func ev)"
  by (simp add: tame_def ev_ssa)

lemma resolved_const_defined: "ssa vec \<Longrightarrow> \<exists>t. resolved_const vec (build_instr_map vec) v = Some t"
  using resolve_defined [of vec v] by (auto simp: resolved_const_def)

lemma last_jump_defined: "ssa vec \<Longrightarrow> im = build_instr_map vec \<Longrightarrow> \<exists>t. last_jump vec im is = Some t"
proof (induction "is")
  case (Cons i "is")
  then show ?case using resolve_defined [of vec "operands i ! 0"]
    by (auto simp: resolved_const_def)
qed simp

lemma resolve_jmp_target_defined: "ssa (instrs f) \<Longrightarrow> \<exists>t. resolve_jmp_target f = Some t"
  by (simp add: resolve_jmp_target_def last_jump_defined)

lemma resolve_vpc_defined: "ssa (instrs (ge_func ev)) \<Longrightarrow> \<exists>v. resolve_vpc ev = Some v"
proof -
  assume ssa: "ssa (instrs (ge_func ev))"
  have load: "\<exists>v. resolve_vpc_load ev w = Some v" for w
  proof -
    let ?vec = "instrs (ge_func ev)"
    have "\<exists>t. resolved_const ?vec (build_instr_map ?vec) v = Some t" for v
      using resolved_const_defined [OF ssa] .
    then have "\<exists>r. Option.bind (resolved_const ?vec (build_instr_map ?vec) v) (\<lambda>t. Some (g t)) = Some r"
      for v and g :: "u64 option \<Rightarrow> u64 option"
      by (metis bind.bind_lunit)
    then show ?thesis by (auto simp: resolve_vpc_load_def Let_def split: option.split)
  qed
  show ?thesis
  proof (cases "map_of (regs (ge_state ev)) (ge_vpc_reg ev)")
    case (Some v)
    with load resolve_defined [OF ssa, of v] show ?thesis
      by (auto simp: resolve_vpc_def Let_def split: option.split)
  qed (simp add: resolve_vpc_def)
qed

lemma enter_block_defined: "ssa (instrs (ge_func ev)) \<Longrightarrow> \<exists>ev' stop. enter_block mx va ev = Some (ev', stop)"
  using resolve_vpc_defined [of "ev\<lparr>ge_dispatcher_va := Some va\<rparr>"] resolve_vpc_defined [of ev]
  by (cases "va \<in> ge_visited ev"; cases "ge_dispatcher_va ev") (auto simp: enter_block_def Let_def)

lemma guided_lift_defined:
  assumes "\<forall>i \<in> set is. \<not> risky_mnemonic (mnemonic i)" "ev_ok B steps ev" "no_risky_ops (instrs (ge_func ev))"
    "10 * nat (steps + int (length is)) \<le> lb_limit B"
  shows "\<exists>steps' va' result ev'. guided_lift is steps va ev = Some (steps', va', result, ev')
    \<and> no_risky_ops (instrs (ge_func ev'))"
  using assms
proof (induction "is" arbitrary: steps ev)
  case (Cons i "is")
  let ?ev = "ev\<lparr>ge_state := lift_insn i (ge_state ev)\<rparr>"
  have "0 \<le> steps" using Cons.prems(2) by (simp add: ev_ok_def)
  then have "nat steps + 1 \<le> nat (steps + int (length (i # is)))" by simp
  then have room: "n_emitted (ge_state ev) + 10 \<le> lb_limit B" using Cons.prems(2,4) unfolding ev_ok_def by linarith
  note l = lift_insn_keeps [OF _ room, of i]
  have ok: "ev_ok B (steps + 1) ?ev"
    using Cons.prems(2) l \<open>0 \<le> steps\<close> by (simp add: ev_ok_def nat_add_distrib)
  have "fits False False (ge_state ?ev)"
    using lift_insn_fits [of False False "ge_state ev" i] Cons.prems(1,3) by (simp add: fits_no_risky)
  then have risky: "no_risky_ops (instrs (ge_func ?ev))" by (simp add: fits_no_risky)
  show ?case
  proof (cases "mnemonic i = ''ret''")
    case True
    obtain f rep where f: "run_fold_convergence (ge_func ?ev) 8 = Some (f, rep)" "tame f"
      using run_fold_defined [OF ev_tame [OF ok risky]] by blast
    then obtain t where "resolve_jmp_target f = Some t"
      using resolve_jmp_target_defined unfolding tame_def by blast
    with True f show ?thesis by (auto simp: Let_def with_func_def tame_def split: option.split)
  next
    case False
    show ?thesis
    proof (cases "mnemonic i = ''jmp'' \<or> mnemonic i = ''call''")
      case True
      with False risky show ?thesis by (auto simp: Let_def)
    next
      case neither: False
      have "10 * nat (steps + 1 + int (length is)) \<le> lb_limit B" using Cons.prems(4) by (simp add: algebra_simps)
      from Cons.IH [OF _ ok risky this] Cons.prems(1) False neither show ?thesis by (simp add: Let_def)
    qed
  qed
qed simp

lemma guided_promote_defined:
  "tame (ge_func ev) \<Longrightarrow> \<exists>ev'. guided_promote ev = Some ev' \<and> no_risky_ops (instrs (ge_func ev'))"
  using guided_promote_rounds_defined [of "ge_func ev" 3 "ge_memory ev"]
  by (auto simp: guided_promote_def tame_def with_func_def)

text \<open>The test of \<^verbatim>\<open>read_bytes\<close> is right unless the address lies just below the image.\<close>

definition readable :: "u8 list \<Rightarrow> u64 \<Rightarrow> u64 \<Rightarrow> bool" where
  "readable img base va \<longleftrightarrow> unat (va - base) \<le> length img \<or> length img < unat (va - base + 256)"

lemma read_bytes_defined:
  "readable (ge_image ev) (ge_base ev) va \<Longrightarrow> \<exists>code. read_bytes ev va 256 = Some code"
  by (auto simp: read_bytes_def readable_def Let_def)

lemma guided_block_defined:
  assumes code: "no_risky_code decode" and dec: "bounded_decode decode" and rd: "readable (ge_image (gl_ev s)) (ge_base (gl_ev s)) (gl_va s)"
    and ok: "ev_ok B (gl_steps s) (gl_ev s)" "no_risky_ops (instrs (ge_func (gl_ev s)))" "10 * nat (gl_steps s + 256) \<le> lb_limit B"
  shows "\<exists>s' go. guided_block decode s = Some (s', go) \<and> no_risky_ops (instrs (ge_func (gl_ev s')))"
proof -
  let ?ev = "(gl_ev s)\<lparr>ge_jmp_trace := ge_jmp_trace (gl_ev s) @ [gl_va s]\<rparr>"
  have ok': "ev_ok B (gl_steps s) ?ev" "no_risky_ops (instrs (ge_func ?ev))" using ok(1,2) by (simp_all add: ev_ok_def)
  obtain c where c: "read_bytes ?ev (gl_va s) 256 = Some c" using read_bytes_defined [of ?ev "gl_va s"] rd by auto
  show ?thesis
  proof (cases c)
    case None
    with c ok' show ?thesis by (auto simp: guided_block_def Let_def)
  next
    case (Some bs)
    have "length bs \<le> 256" using c Some by (auto simp: read_bytes_def Let_def split: if_splits)
    then have len: "length (decode bs (gl_va s)) \<le> 256" using dec order_trans unfolding bounded_decode_def by blast
    then have "nat (gl_steps s + int (length (decode bs (gl_va s)))) \<le> nat (gl_steps s + 256)" by simp
    then have room: "10 * nat (gl_steps s + int (length (decode bs (gl_va s)))) \<le> lb_limit B" using ok(3) by linarith
    have nr: "\<forall>i \<in> set (decode bs (gl_va s)). \<not> risky_mnemonic (mnemonic i)" using code by (simp add: no_risky_code_def)
    obtain steps va r ev1 where l: "guided_lift (decode bs (gl_va s)) (gl_steps s) (gl_va s) ?ev = Some (steps, va, r, ev1)"
      "no_risky_ops (instrs (ge_func ev1))"
      using guided_lift_defined [OF nr ok' room] by blast
    have ev1: "ev_ok B steps ev1" using guided_lift_ok [OF l(1) ok'(1) room] by simp
    obtain ev2 where p: "guided_promote ev1 = Some ev2" "no_risky_ops (instrs (ge_func ev2))"
      using guided_promote_defined [OF ev_tame [OF ev1 l(2)]] by blast
    obtain t where t: "resolve_jmp_target (ge_func ev2) = Some t"
      using resolve_jmp_target_defined [OF ev_ssa] guided_promote_ok [OF p(1) ev1] by blast
    from c Some l(1) p t show ?thesis
      by (auto simp: guided_block_def Let_def split: option.split)
  qed
qed

lemma guided_step_defined:
  assumes code: "no_risky_code decode" "bounded_decode decode"
    and inv: "guided_inv B img base ms mx start (s, True)" "gl_steps s < ms" "10 * nat (ms + 256) \<le> lb_limit B"
    and risky: "no_risky_ops (instrs (ge_func (gl_ev s)))" and rd: "readable img base start"
  shows "\<exists>s' go. guided_step decode mx s = Some (s', go) \<and> no_risky_ops (instrs (ge_func (gl_ev s')))"
proof -
  from inv(1) have ok: "ev_ok B (gl_steps s) (gl_ev s)" "open_inv (gl_ev s)" "ge_image (gl_ev s) = img" "ge_base (gl_ev s) = base"
    and va: "gl_va s = start \<or> gl_va s \<in> image_addresses img base" by (auto simp: guided_inv_def)
  from enter_block_defined [OF ev_ssa [OF ok(1)]] obtain ev stop where e: "enter_block mx (gl_va s) (gl_ev s) = Some (ev, stop)"
    by blast
  note c = enter_block_catalog [OF e ok(2)]
  have "10 * nat (gl_steps s + 256) \<le> 10 * nat (ms + 256)" using inv(2) by simp
  then have "10 * nat (gl_steps s + 256) \<le> lb_limit B" using inv(3) by linarith
  moreover have "readable img base (gl_va s)" using va rd by (auto simp: readable_def image_addresses_def)
  ultimately have "\<exists>s' go. guided_block decode (s\<lparr>gl_ev := ev\<rparr>) = Some (s', go) \<and> no_risky_ops (instrs (ge_func (gl_ev s')))"
    using ok c risky by (intro guided_block_defined [OF code, of _ B]) (simp_all add: ev_ok_def)
  with e c risky show ?thesis by (auto simp: guided_step_def split: option.split)
qed

lemma guided_loop_defined:
  assumes "no_risky_code decode" "bounded_decode decode" "10 * nat (ms + 256) \<le> lb_limit B" "readable img base start"
  shows "guided_inv B img base ms mx start (s, True) \<Longrightarrow> no_risky_ops (instrs (ge_func (gl_ev s))) \<Longrightarrow>
    \<exists>s'. guided_loop decode ms mx s = Some s' \<and> no_risky_ops (instrs (ge_func (gl_ev s')))"
  using assms
proof (induction decode ms mx s rule: guided_loop.induct)
  case (1 decode ms mx s)
  show ?case
  proof (cases "gl_steps s < ms")
    case False
    with "1.prems" show ?thesis by (subst guided_loop.simps) simp
  next
    case True
    from guided_step_defined [OF "1.prems"(3,4,1) True "1.prems"(5,2,6)] obtain s1 go where
      s1: "guided_step decode mx s = Some (s1, go)" "no_risky_ops (instrs (ge_func (gl_ev s1)))" by blast
    note inv = guided_step_inv [OF s1(1) "1.prems"(4,1) True "1.prems"(5)]
    show ?thesis
    proof (cases go)
      case True
      with "1.IH" [OF _ s1(1) refl] \<open>gl_steps s < ms\<close> inv s1 "1.prems"(3-6) show ?thesis
        by (subst guided_loop.simps) simp
    next
      case False
      with \<open>gl_steps s < ms\<close> s1 show ?thesis by (subst guided_loop.simps) simp
    qed
  qed
qed

lemma guided_bounds_ok: "10 * nat (ms + 256) \<le> 2 ^ 32 \<Longrightarrow> bounds_ok (guided_bounds ms {})"
  by (simp add: bounds_ok_def guided_bounds_def)

subsection \<open>A virtual machine in miniature\<close>

text \<open>A threaded interpreter whose only handler jumps to the handler that \<open>r11\<close> points at, without
  advancing \<open>r11\<close>: a loop of the virtual machine, which the evaluator recognises.\<close>

definition mini_insns :: "u64 \<Rightarrow> cs_insn list" where
  "mini_insns va =
     (if va = 16 then
        [\<lparr>mnemonic = ''jmp'', insn_address = 16, insn_size = 3, x86_operands = [X86_OP_MEM (R64 R11) RegInvalid 1 0]\<rparr>]
      else [])"

definition mini_decode :: "u8 list \<Rightarrow> u64 \<Rightarrow> cs_insn list" where
  "mini_decode code va = take (length code) (mini_insns va)"

definition mini_image :: "u8 list" where
  "mini_image = replicate 272 0"

definition mini_memory :: ByteMemory where
  "mini_memory = store_u64 (add_safe_range empty_memory 128 136) 128 16"

definition mini_evaluator :: GuidedEvaluator where
  "mini_evaluator = fresh_evaluator mini_image 0 ''r11'' [(''r11'', Const64 128)] mini_memory"

lemma mini_start:
  "guided_init mini_evaluator 16 =
     \<lparr>gl_ev = mini_evaluator\<lparr>ge_memory := add_safe_range mini_memory (0x7FFFFFFFD000 - 0x200000) (0x7FFFFFFFD000 + 0x10000),
        ge_state := set_reg ''r11'' (Const64 128) (set_reg ''rsp'' (Const64 0x7FFFFFFFD000) (ge_state mini_evaluator))\<rparr>,
      gl_steps = 0, gl_va = 16, gl_result = IN_PROGRESS, gl_final_vpc = None\<rparr>"
  by (simp add: guided_init_def guided_start_def guided_safe_range_def Let_def mini_evaluator_def mini_image_def)

lemma mini_run:
  "map_option (\<lambda>s. (gl_result s, ge_jmp_trace (gl_ev s), ge_vpc_trace (gl_ev s), map hr_handler_va (ge_handlers (gl_ev s)), gl_steps s))
     (guided_loop mini_decode 100 50 (guided_init mini_evaluator 16))
   = Some (VPC_CONVERGED, [16, 16], [Some 128], [16], 2)"
  unfolding mini_start by code_simp

lemma guided_run_total:
  assumes "no_risky_code decode" "bounded_decode decode" "readable img base start"
    and "10 * nat (max_steps + 256) \<le> 2 ^ 32" "vm_refs rs = {}"
  shows "\<exists>rep ev. guided_run (Some decode) start max_steps max_vm_insns (fresh_evaluator img base reg rs memory) = Some (rep, ev)
    \<and> ssa (instrs (ge_func ev)) \<and> no_risky_ops (instrs (ge_func ev)) \<and> er_ir_count rep = length (instrs (ge_func ev))"
proof -
  let ?B = "guided_bounds max_steps {}" and ?s = "guided_init (fresh_evaluator img base reg rs memory) start"
  have B: "bounds_ok ?B" "vm_refs rs \<subseteq> {}" using guided_bounds_ok [OF assms(4)] assms(5) by simp_all
  have "10 * nat (max_steps + 256) \<le> lb_limit ?B" by (simp add: guided_bounds_def)
  note room = this
  have "no_risky_ops (instrs (ge_func (gl_ev ?s)))"
    using guided_start_ok [OF B, of img base reg memory] by (simp add: guided_init_def no_risky_ops_def)
  from guided_loop_defined [OF assms(1,2) room assms(3) guided_init_inv [OF B] this] obtain s where
    s: "guided_loop decode max_steps max_vm_insns ?s = Some s" "no_risky_ops (instrs (ge_func (gl_ev s)))" by blast
  from guided_loop_reach [OF s(1) reach_start] obtain go where
    "guided_reach decode max_steps max_vm_insns ?s (s, go)" by blast
  from guided_reach_inv [OF this assms(2) room guided_init_inv [OF B]] have
    "ev_ok ?B (gl_steps s) (gl_ev s)" by (simp add: guided_inv_def)
  with s(2) have "tame (ge_func (gl_ev s))" by (intro ev_tame)
  then obtain f cr where "run_to_convergence (ge_func (gl_ev s)) 32 = Some (f, cr)" "tame f"
    unfolding run_to_convergence_def using all_defined.converge_defined by blast
  with s(1) show ?thesis
    by (simp add: guided_run_def guided_init_def Let_def with_func_def tame_def)
qed

text \<open>The run of the miniature machine, seen from its report.\<close>

lemma mini_code: "no_risky_code mini_decode" "bounded_decode mini_decode"
  by (auto simp: no_risky_code_def bounded_decode_def mini_decode_def mini_insns_def risky_mnemonic_def
      take_Cons split: nat.splits)

lemma mini_report:
  assumes "guided_run (Some mini_decode) 16 100 50 mini_evaluator = Some (rep, ev)"
  shows "er_result rep = VPC_CONVERGED \<and> ge_jmp_trace ev = [16, 16] \<and> map hr_handler_va (ge_handlers ev) = [16]"
proof (rule guided_run_loop [OF assms])
  fix s f cr
  assume s: "guided_loop mini_decode 100 50 (guided_init mini_evaluator 16) = Some s"
    and rest: "ev = with_func f (gl_ev s)"
      "rep = \<lparr>er_result = if 100 \<le> gl_steps s \<and> gl_result s = IN_PROGRESS then MAX_STEPS else gl_result s,
            er_stop_va = gl_va s, er_steps = gl_steps s, er_vm_insn_count = ge_vm_insn_count (gl_ev s),
            er_ir_count = length (instrs f), er_dispatcher_va = ge_dispatcher_va (gl_ev s), er_final_vpc = gl_final_vpc s\<rparr>"
  from mini_run s show ?thesis by (simp add: rest with_func_def)
qed

lemma mini_ends: "\<exists>rep ev. guided_run (Some mini_decode) 16 100 50 mini_evaluator = Some (rep, ev)"
  unfolding mini_evaluator_def
  using guided_run_total [OF mini_code, of mini_image 0 16 100 "[(''r11'', Const64 128)]" 50 "''r11''" mini_memory]
  by (auto simp: readable_def mini_image_def vm_refs_def)

lemma guided_run_consistent:
  assumes "guided_run (Some decode) start max_steps max_vm_insns (fresh_evaluator img base reg rs memory) = Some (rep, ev)"
    and "bounded_decode decode" "10 * nat (max_steps + 256) \<le> 2 ^ 32" "vm_refs rs = {}"
  shows "er_result rep \<notin> {IN_PROGRESS, VPC_UNRESOLVED} \<and> (er_result rep = MAX_STEPS \<longrightarrow> max_steps \<le> er_steps rep)
    \<and> (er_result rep = MAX_VM_INSNS \<longrightarrow> max_vm_insns \<le> er_vm_insn_count rep)
    \<and> (er_result rep = VPC_CONVERGED \<longrightarrow> er_final_vpc rep \<noteq> None \<and> er_final_vpc rep = ge_last_vpc ev)
    \<and> 0 \<le> er_steps rep \<and> er_steps rep \<le> max 0 (max_steps + 255)
    \<and> er_vm_insn_count rep = int (length (ge_vpc_trace ev)) \<and> er_vm_insn_count rep \<le> max 1 max_vm_insns
    \<and> int (length (ge_handlers ev)) \<le> er_vm_insn_count rep
    \<and> (\<forall>h \<in> set (ge_handlers ev). hr_ir_start_idx h < hr_ir_end_idx h \<and> hr_vpc_before h \<noteq> None)
    \<and> sorted_wrt (\<lambda>h h'. hr_ir_end_idx h \<le> hr_ir_start_idx h') (ge_handlers ev)
    \<and> (\<forall>va. freq_of (ge_handler_freq ev) va = int (count_list (map hr_handler_va (ge_handlers ev)) va))"
proof -
  obtain s f cr go where inv: "guided_inv (guided_bounds max_steps {}) img base max_steps max_vm_insns start (s, go)"
    and go: "go \<longrightarrow> max_steps \<le> gl_steps s" and ev: "ev = with_func f (gl_ev s)"
    and rep: "rep = \<lparr>er_result = if max_steps \<le> gl_steps s \<and> gl_result s = IN_PROGRESS then MAX_STEPS else gl_result s,
            er_stop_va = gl_va s, er_steps = gl_steps s, er_vm_insn_count = ge_vm_insn_count (gl_ev s),
            er_ir_count = length (instrs f), er_dispatcher_va = ge_dispatcher_va (gl_ev s), er_final_vpc = gl_final_vpc s\<rparr>"
    by (rule guided_run_inv [OF assms(1,2) guided_bounds_ok [OF assms(3)], of thesis]) (use assms(4) in simp_all)
  from inv have cat: "catalog_inv (gl_ev s)" "gl_steps s \<le> max 0 (max_steps + 255)" "0 \<le> gl_steps s"
      "ge_vm_insn_count (gl_ev s) \<le> max 1 max_vm_insns"
      "if go then gl_result s = IN_PROGRESS else outcome max_vm_insns s"
    by (auto simp: guided_inv_def ev_ok_def split: if_splits)
  then show ?thesis
    using go by (auto simp: rep ev with_func_def catalog_inv_def outcome_def split: if_splits dest: sym)
qed

subsection \<open>Properties\<close>

text \<open>Property C12. What a run reports is consistent with what it did: it never returns \<open>IN_PROGRESS\<close> (nor
  \<open>VPC_UNRESOLVED\<close>, which no code produces), a result names its cause, the count of virtual instructions is the
  length of the trace of program counters and within the bound, the steps overshoot their bound by
  less than a window, the handlers cover disjoint, increasing, non-empty ranges of the lifted code and
  are at most as many as the virtual instructions, and the frequency table is their histogram.\<close>

theorem guided_run_report:
  assumes "guided_run (Some decode) start max_steps max_vm_insns (fresh_evaluator img base reg rs memory) = Some (rep, ev)"
    and "bounded_decode decode" "10 * nat (max_steps + 256) \<le> 2 ^ 32" "vm_refs rs = {}"
  shows "er_result rep \<notin> {IN_PROGRESS, VPC_UNRESOLVED} \<and> (er_result rep = MAX_STEPS \<longrightarrow> max_steps \<le> er_steps rep)
    \<and> (er_result rep = MAX_VM_INSNS \<longrightarrow> max_vm_insns \<le> er_vm_insn_count rep)
    \<and> (er_result rep = VPC_CONVERGED \<longrightarrow> er_final_vpc rep \<noteq> None \<and> er_final_vpc rep = ge_last_vpc ev)
    \<and> 0 \<le> er_steps rep \<and> er_steps rep \<le> max 0 (max_steps + 255)
    \<and> er_vm_insn_count rep = int (length (ge_vpc_trace ev)) \<and> er_vm_insn_count rep \<le> max 1 max_vm_insns
    \<and> int (length (ge_handlers ev)) \<le> er_vm_insn_count rep
    \<and> (\<forall>h \<in> set (ge_handlers ev). hr_ir_start_idx h < hr_ir_end_idx h \<and> hr_vpc_before h \<noteq> None)
    \<and> sorted_wrt (\<lambda>h h'. hr_ir_end_idx h \<le> hr_ir_start_idx h') (ge_handlers ev)
    \<and> (\<forall>va. freq_of (ge_handler_freq ev) va = int (count_list (map hr_handler_va (ge_handlers ev)) va))"
  by (rule guided_run_consistent [OF assms])

theorem guided_run_report_witness:
  "\<exists>rep ev. guided_run (Some mini_decode) 16 100 50 mini_evaluator = Some (rep, ev)
     \<and> er_result rep = VPC_CONVERGED \<and> er_final_vpc rep = ge_last_vpc ev \<and> length (ge_handlers ev) = 1
     \<and> (\<forall>va. freq_of (ge_handler_freq ev) va = int (count_list [16] va))"
proof -
  obtain rep ev where r: "guided_run (Some mini_decode) 16 100 50 mini_evaluator = Some (rep, ev)"
    using mini_ends by blast
  note m = mini_report [OF r]
  then have "length (ge_handlers ev) = 1" using length_map [of hr_handler_va "ge_handlers ev"] by simp
  with guided_run_report [OF r [unfolded mini_evaluator_def] mini_code(2)] m r show ?thesis
    by (auto simp: vm_refs_def)
qed

text \<open>Property C13. A run makes progress: it only ever enters addresses of the image after the first, and
  between two dispatches it enters each at most once, so a run of more blocks than the image has bytes has found
  the dispatcher, and one of \<open>n\<close> times as many has dispatched \<open>n\<close> virtual instructions.\<close>

theorem guided_run_progress:
  assumes "guided_run (Some decode) start max_steps max_vm_insns (fresh_evaluator img base reg rs memory) = Some (rep, ev)"
    and "bounded_decode decode" "10 * nat (max_steps + 256) \<le> 2 ^ 32" "vm_refs rs = {}"
  shows "set (tl (ge_jmp_trace ev)) \<subseteq> image_addresses img base
    \<and> (n * (length img + 1) < length (ge_jmp_trace ev) \<longrightarrow> int n \<le> er_vm_insn_count rep)
    \<and> (length img + 1 < length (ge_jmp_trace ev) \<longrightarrow>
         (\<exists>d. er_dispatcher_va rep = Some d \<and> d \<in> set (ge_jmp_trace ev)))"
proof -
  obtain s f cr go where inv: "guided_inv (guided_bounds max_steps {}) img base max_steps max_vm_insns start (s, go)"
    and ev: "ev = with_func f (gl_ev s)"
    and rep: "er_vm_insn_count rep = ge_vm_insn_count (gl_ev s)" "er_dispatcher_va rep = ge_dispatcher_va (gl_ev s)"
    by (rule guided_run_inv [OF assms(1,2) guided_bounds_ok [OF assms(3)], of thesis]) (use assms(4) in simp_all)
  let ?c = "ge_vm_insn_count (gl_ev s)" and ?t = "ge_jmp_trace (gl_ev s)"
  from inv have t: "trace_inv start (gl_ev s)" and img: "ge_image (gl_ev s) = img" "ge_base (gl_ev s) = base"
    by (auto simp: guided_inv_def)
  from trace_bound [OF t] have b: "int (length ?t) \<le> (?c + 1) * (int (length img) + 1)" by (simp add: img)
  have many: "int k \<le> ?c" if "k * (length img + 1) < length ?t" for k
  proof (rule ccontr)
    assume "\<not> int k \<le> ?c"
    then have "(?c + 1) * (int (length img) + 1) \<le> int k * (int (length img) + 1)" by (intro mult_right_mono) simp_all
    also have "\<dots> = int (k * (length img + 1))" by (simp add: algebra_simps)
    also have "\<dots> < int (length ?t)" using that by (simp only: of_nat_less_iff)
    finally show False using b by simp
  qed
  have "\<exists>d. ge_dispatcher_va (gl_ev s) = Some d \<and> d \<in> set ?t" if "length img + 1 < length ?t"
    using many [of 1] that t by (auto simp: trace_inv_def Let_def)
  then show ?thesis
    using many t by (auto simp: ev rep with_func_def trace_inv_def Let_def img)
qed

theorem guided_run_progress_witness:
  "\<exists>rep ev. guided_run (Some mini_decode) 16 100 50 mini_evaluator = Some (rep, ev)
     \<and> ge_jmp_trace ev = [16, 16] \<and> 16 \<in> image_addresses mini_image 0"
proof -
  obtain rep ev where r: "guided_run (Some mini_decode) 16 100 50 mini_evaluator = Some (rep, ev)"
    using mini_ends by blast
  from guided_run_progress [OF r [unfolded mini_evaluator_def] mini_code(2)] mini_report [OF r] r show ?thesis
    by (auto simp: vm_refs_def)
qed



end
