(* ===== verification/Guided_Machine.thy ===== *)
theory Guided_Machine
  imports Guided_Correct
begin

section \<open>The guided evaluator follows the processor\<close>

text \<open>
  A dispatch loop that only computes in registers, reads its bytecode and jumps: the evaluator
  visits the blocks the processor executes, in that order, and the function it builds up computes
  what the processor computes. Loads are promoted from a private memory that holds
  what the processor's memory holds.
\<close>

subsection \<open>Code whose only effect is to jump\<close>

definition jump_only :: "Instruction list \<Rightarrow> bool" where
  "jump_only is \<longleftrightarrow> list_all (\<lambda>i. op i \<notin> {Op_STORE, Op_CALL, Op_RET, Op_CJMP}) is"

lemma jump_only_simps [simp]:
  "jump_only []" "jump_only (i # is) \<longleftrightarrow> op i \<notin> {Op_STORE, Op_CALL, Op_RET, Op_CJMP} \<and> jump_only is"
  "jump_only (is @ js) \<longleftrightarrow> jump_only is \<and> jump_only js"
  by (auto simp: jump_only_def)

lemma jump_only_kept: "list_all2 (kept_store E t) is js \<Longrightarrow> jump_only is \<Longrightarrow> jump_only js"
  by (induction rule: list_all2_induct) (auto simp: kept_store_def quiet_op_def)

lemma jump_only_promoted: "loads_replaced is js \<Longrightarrow> jump_only is \<Longrightarrow> jump_only js"
  unfolding loads_replaced_def by (induction rule: list_all2_induct) (auto simp: load_replaced_def)

interpretation jump_only_pipeline: pass_pipeline FOLD_PASSES "\<lambda>f. ssa (instrs f) \<and> jump_only (instrs f)" "\<lambda>_ _. True"
proof unfold_locales
  fix n p f f' ch
  assume p: "(n, p) \<in> set FOLD_PASSES" "p f = Some (f', ch)" and f: "ssa (instrs f) \<and> jump_only (instrs f)"
  with jump_only_kept [OF fold_passes_kept [OF p conjunct1 [OF f]]] fold_passes_shape [OF p]
  show "(ssa (instrs f') \<and> jump_only (instrs f')) \<and> True" by blast
qed (auto dest: fold_passes_same)

lemma jump_only_reads:
  "ssa (instrs f) \<Longrightarrow> single_operands (instrs f) \<Longrightarrow> jump_only (instrs f) \<Longrightarrow> reads_private E s H bm f"
proof -
  assume a: "ssa (instrs f)" "single_operands (instrs f)" "jump_only (instrs f)"
  have "store_addrs (instrs f) = []" using a(3) by (induction "instrs f" arbitrary: f) (auto simp: jump_only_def list_all_iff store_addrs_def is_store_def)
  then have "stores_isolated E s (instrs f)" by (simp add: stores_isolated_def store_targets_def)
  with a show ?thesis by (auto simp: reads_private_def fold_good_def no_calls_def jump_only_def list_all_iff)
qed

lemma jump_only_rounds:
  assumes "guided_promote_rounds n f bm = Some (f', bm')" "ssa (instrs f)" "jump_only (instrs f)" "single_operands (instrs f)"
    and "mirrors H bm (mem s)"
  shows "jump_only (instrs f') \<and> single_operands (instrs f') \<and> mirrors H bm' (mem s)
    \<and> exec E s (instrs f') = exec E s (instrs f)"
  using assms
proof (induction n arbitrary: f bm)
  case (Suc n)
  from Suc.prems(1) obtain f1 rep f2 bm2 p where f1: "run_fold_convergence f 8 = Some (f1, rep)"
    and f2: "promote_pass f1 bm = Some (f2, bm2, p)"
    and rest: "(if \<not> p then Some (f2, bm2) else guided_promote_rounds n f2 bm2) = Some (f', bm')"
    by (auto simp: guided_promote_rounds_Suc simp del: guided_promote_rounds.simps elim!: bind_SomeE)
  note rp = jump_only_reads [OF Suc.prems(2,4,3)]
  note c1 = f1 [unfolded run_fold_convergence_def]
  from promoted_pipeline.converge_good [OF c1 rp] have s1: "reads_private E s H bm f1" "fold_rel E s f f1" by blast+
  from jump_only_pipeline.converge_good [OF c1] Suc.prems(2,3) have j1: "ssa (instrs f1)" "jump_only (instrs f1)" by auto
  from promote_pass_readonly [OF f2 s1(1) Suc.prems(5)]
  have s2: "reads_private E s H bm2 f2" "fold_rel E s f1 f2" "mirrors H bm2 (mem s)" by blast+
  have "jump_only (instrs f2)"
  proof -
    from s1(1) have g: "ssa (instrs f1)" "no_calls (instrs f1)" "single_operands (instrs f1)"
      by (auto simp: reads_private_def fold_good_def)
    have "tracked E (exec E s (instrs f1)) H bm (instrs f1) x" if "x \<in> set (instrs f1)" for x
      using j1(2) that by (auto simp: tracked_def jump_only_def list_all_iff)
    from promote_pass_sound [OF f2 g(1,3,2) Suc.prems(5) this] jump_only_promoted j1(2) show ?thesis by blast
  qed
  moreover have "ssa (instrs f2)" "single_operands (instrs f2)" using s2(1) by (auto simp: reads_private_def fold_good_def)
  ultimately have "p \<Longrightarrow> jump_only (instrs f') \<and> single_operands (instrs f') \<and> mirrors H bm' (mem s)
      \<and> exec E s (instrs f') = exec E s (instrs f2)"
    using Suc.IH [of f2 bm2] rest s2(3) by simp
  with rest s1(2) s2 \<open>jump_only (instrs f2)\<close> \<open>single_operands (instrs f2)\<close> show ?case
    by (cases p) (auto simp: fold_rel_def)
qed simp

subsection \<open>Lifting such code\<close>

definition store_free :: "cs_insn \<Rightarrow> bool" where
  "store_free i \<longleftrightarrow> exact_form i \<and> mnemonic i \<noteq> ''push''
     \<and> (mnemonic i \<in> {''mov'', ''movabs'', ''inc'', ''dec''} \<longrightarrow> list_all reg_arg (take 1 (x86_operands i)))"

abbreviation jumping :: "LiftState \<Rightarrow> bool" where
  "jumping st \<equiv> jump_only (instrs (func st))"

lemma emit_ref_jumping:
  "jumping st \<Longrightarrow> x \<notin> {Op_STORE, Op_CALL, Op_RET, Op_CJMP} \<Longrightarrow> jumping (snd (emit_ref x vs ann st))"
  by (simp add: emit_ref_def emit_def Let_def)

lemma add_index_jumping: "jumping st \<Longrightarrow> jumping (snd (add_index index scale addr st))"
  by (simp add: add_index_def Let_def case_prod_unfold emit_ref_jumping)

lemma op_value_jumping: "jumping st \<Longrightarrow> jumping (snd (op_value insn idx st))"
  by (simp add: op_value_def Let_def case_prod_unfold emit_ref_jumping add_index_jumping split: x86_op.split)

lemma lift_cases_jumping:
  assumes "jumping st"
  shows "jumping (lift_pop insn st)" "jumping (lift_jmp insn st)" "jumping (lift_lea insn st)" "jumping (lift_xchg insn st)"
    "reg_arg (x86_operands insn ! 0) \<Longrightarrow> jumping (lift_mov insn st)"
    "reg_arg (x86_operands insn ! 0) \<Longrightarrow> jumping (lift_inc_dec insn st)"
    "op_is_foldable_binary x \<Longrightarrow> jumping (lift_binop x insn st)"
    "op_is_foldable_unary x \<Longrightarrow> jumping (lift_unop x insn st)"
proof -
  have x: "op_is_foldable_binary x \<or> op_is_foldable_unary x \<Longrightarrow> x \<notin> {Op_STORE, Op_CALL, Op_RET, Op_CJMP}" for x
    by (cases x) auto
  note steps = emit_ref_jumping add_index_jumping op_value_jumping
  show "jumping (lift_pop insn st)" "jumping (lift_jmp insn st)" "jumping (lift_lea insn st)" "jumping (lift_xchg insn st)"
    "reg_arg (x86_operands insn ! 0) \<Longrightarrow> jumping (lift_mov insn st)"
    "reg_arg (x86_operands insn ! 0) \<Longrightarrow> jumping (lift_inc_dec insn st)"
    "op_is_foldable_binary x \<Longrightarrow> jumping (lift_binop x insn st)"
    "op_is_foldable_unary x \<Longrightarrow> jumping (lift_unop x insn st)"
    using assms x [of x]
    unfolding lift_handlers Let_def case_prod_unfold
    by (simp_all add: steps reg_arg_def split: x86_op.split_asm x86_op.split)
qed

lemma lift_insn_jumping:
  assumes "jumping st" "store_free i" "x86_step i m = Some m'"
  shows "jumping (lift_insn i st)"
proof -
  have form: "reg_arg (x86_operands i ! 0)" if "mnemonic i \<in> {''mov'', ''movabs'', ''inc'', ''dec''}" "x86_operands i \<noteq> []"
    using assms(2) that by (cases "x86_operands i") (auto simp: store_free_def)
  consider (none) "x86_operands i = []" | (one) a where "x86_operands i = [a]" | (two) a b where "x86_operands i = [a, b]"
    using assms(3) by (cases "x86_operands i"; cases "tl (x86_operands i)") (auto simp: x86_step_def split: list.splits)
  then show ?thesis
  proof cases
    case none
    with assms show ?thesis by (auto simp: x86_step_def dispatch_simps split: if_splits)
  next
    case (one a)
    then have n: "op_count i = 1" by (simp add: op_count_def)
    from one assms(2,3) consider "mnemonic i = ''pop''" | "mnemonic i = ''jmp''" | f where "map_of x86_unary (mnemonic i) = Some f"
      by (auto simp: x86_step_def store_free_def split: if_splits elim!: bind_SomeE)
    then show ?thesis
    proof cases
      case (3 f)
      from unary_cases [OF this] one form n lift_cases_jumping(6,8) [OF assms(1)] show ?thesis
        by (auto simp: dispatch_simps dispatch_unop)
    qed (simp_all add: dispatch_simps n lift_cases_jumping assms(1))
  next
    case (two a b)
    then have n: "op_count i = 2" by (simp add: op_count_def)
    from two assms(3) consider "mnemonic i \<in> {''mov'', ''movabs''}" | "mnemonic i = ''lea''" | "mnemonic i = ''xchg''"
      | f where "map_of x86_alu (mnemonic i) = Some f" | f where "map_of x86_shift (mnemonic i) = Some f"
      by (auto simp: x86_step_def split: if_splits option.splits elim!: bind_SomeE)
    then show ?thesis
    proof cases
      case 1
      with two form n lift_cases_jumping(5) [OF assms(1)] show ?thesis by (auto simp: dispatch_simps)
    next
      case (4 f)
      from alu_binop [OF this] n lift_cases_jumping(7) [OF assms(1)] show ?thesis by (auto simp: dispatch_binop)
    next
      case (5 f)
      from shift_binop [OF this] n lift_cases_jumping(7) [OF assms(1)] show ?thesis by (auto simp: dispatch_binop)
    qed (simp_all add: dispatch_simps n lift_cases_jumping assms(1))
  qed
qed

subsection \<open>A block\<close>

fun jump_code_of :: "cs_insn list \<Rightarrow> cs_insn list" where
  "jump_code_of [] = []"
| "jump_code_of (i # is) =
     (if mnemonic i = ''ret'' \<or> mnemonic i = ''jmp'' \<or> mnemonic i = ''call'' then [i] else i # jump_code_of is)"

definition jump_block :: "cs_insn list \<Rightarrow> bool" where
  "jump_block is \<longleftrightarrow> is \<noteq> [] \<and> list_all store_free is \<and> mnemonic (last is) = ''jmp''"

lemma jump_code_lift:
  assumes "guided_lift is steps va ev = Some (steps', va', result, ev')" "jump_block (jump_code_of is)"
    and "c + int (length (jump_code_of is)) \<le> mx"
  shows "ev' = ev\<lparr>ge_state := lift_loop (jump_code_of is) c mx (ge_state ev)\<rparr> \<and> va' = va \<and> result = IN_PROGRESS"
  using assms
proof (induction "is" arbitrary: steps ev c)
  case (Cons i "is")
  show ?case
  proof (cases "mnemonic i = ''ret'' \<or> mnemonic i = ''jmp'' \<or> mnemonic i = ''call''")
    case True
    with Cons.prems(2) have "mnemonic i = ''jmp''" by (simp add: jump_block_def)
    with Cons.prems(1,3) show ?thesis by (simp add: Let_def)
  next
    case False
    with Cons.prems(1) have l: "guided_lift is (steps + 1) va (ev\<lparr>ge_state := lift_insn i (ge_state ev)\<rparr>) = Some (steps', va', result, ev')"
      by (simp add: Let_def)
    have "jump_code_of is \<noteq> []" using Cons.prems(2) False by (cases "jump_code_of is") (auto simp: jump_block_def)
    then have "jump_block (jump_code_of is)" using Cons.prems(2) False by (simp add: jump_block_def)
    from Cons.IH [OF l this, of "c + 1"] Cons.prems(3) False \<open>jump_code_of is \<noteq> []\<close> show ?thesis
      by (simp add: Let_def)
  qed
qed (simp add: jump_block_def)

lemma lift_loop_jumping:
  "jumping st \<Longrightarrow> list_all store_free is \<Longrightarrow> x86_run is m = Some m' \<Longrightarrow> jumping (lift_loop is c mx st)"
proof (induction "is" arbitrary: m c st)
  case (Cons i "is")
  from Cons.prems(3) obtain m1 where m1: "x86_step i m = Some m1"
    "(if mnemonic i = ''ret'' \<or> mnemonic i = ''jmp'' then Some m1 else x86_run is m1) = Some m'"
    by (auto elim!: bind_SomeE)
  have "jumping (lift_insn i st)" using lift_insn_jumping [OF Cons.prems(1) _ m1(1)] Cons.prems(2) by simp
  with Cons.IH [OF this] m1(2) Cons.prems show ?case by (auto simp: Let_def split: if_splits)
qed simp

text \<open>The processor leaves a block by one jump.\<close>

lemma x86_step_events:
  "x86_step i m = Some m' \<Longrightarrow> mnemonic i \<noteq> ''jmp'' \<Longrightarrow> x_events m' = x_events m"
  by (auto simp: x86_step_def x86_write_def x86_push_def Let_def elim!: bind_SomeE
      split: list.splits if_splits option.splits x86_op.splits x86_reg.splits)

lemma x86_step_jmp:
  "x86_step i m = Some m' \<Longrightarrow> mnemonic i = ''jmp'' \<Longrightarrow> \<exists>a. x_events m' = x_events m @ [E_Jump [a]]"
  by (auto simp: x86_step_def x86_unary_def x86_alu_def x86_shift_def elim!: bind_SomeE split: list.splits if_splits)

lemma block_events:
  "jump_block (jump_code_of is) \<Longrightarrow> x86_run (jump_code_of is) m = Some m' \<Longrightarrow> \<exists>a. x_events m' = x_events m @ [E_Jump [a]]"
proof (induction "is" arbitrary: m)
  case (Cons i "is")
  from Cons.prems(2) obtain m1 where m1: "x86_step i m = Some m1"
    by (auto elim!: bind_SomeE split: if_splits)
  show ?case
  proof (cases "mnemonic i = ''ret'' \<or> mnemonic i = ''jmp'' \<or> mnemonic i = ''call''")
    case True
    with Cons.prems have "mnemonic i = ''jmp''" by (simp add: jump_block_def)
    with Cons.prems(2) m1 x86_step_jmp [OF m1] show ?thesis by simp
  next
    case False
    then have "jump_code_of is \<noteq> []" using Cons.prems(1) by (cases "jump_code_of is") (auto simp: jump_block_def)
    then have "jump_block (jump_code_of is)" using Cons.prems(1) False by (simp add: jump_block_def)
    from Cons.IH [OF this, of m1] Cons.prems(2) m1 False x86_step_events [OF m1] show ?thesis by simp
  qed
qed (simp add: jump_block_def)

subsection \<open>The target that is found\<close>

lemma silent_trace:
  "list_all (\<lambda>i. op i \<notin> {Op_JMP, Op_CALL, Op_RET, Op_CJMP}) is \<Longrightarrow> trace (exec E s is) = trace s"
  by (induction "is" arbitrary: s) (auto simp: events_of_def)

lemma last_jump_hit:
  "last_jump vec im is = Some (Some t) \<Longrightarrow>
   \<exists>ys i zs. is = ys @ i # zs \<and> list_all (\<lambda>y. op y \<noteq> Op_JMP \<and> op y \<noteq> Op_CALL) ys \<and> (op i = Op_JMP \<or> op i = Op_CALL)
     \<and> operands i \<noteq> [] \<and> resolved_const vec im (operands i ! 0) = Some (Some t)"
proof (induction "is")
  case (Cons i "is")
  show ?case
  proof (cases "op i = Op_JMP \<or> op i = Op_CALL")
    case True
    with Cons.prems show ?thesis by (intro exI [of _ "[]"]) (auto split: if_splits)
  next
    case False
    with Cons obtain ys j zs where "is = ys @ j # zs" "list_all (\<lambda>y. op y \<noteq> Op_JMP \<and> op y \<noteq> Op_CALL) ys"
      "op j = Op_JMP \<or> op j = Op_CALL" "operands j \<noteq> []" "resolved_const vec im (operands j ! 0) = Some (Some t)"
      by auto
    with False show ?thesis by (intro exI [of _ "i # ys"]) auto
  qed
qed simp

lemma resolve_jmp_target_sound:
  assumes "resolve_jmp_target f = Some (Some t)" "ssa (instrs f)" "jump_only (instrs f)"
  shows "\<exists>T us. trace (exec E s (instrs f)) = T @ [E_Jump (t # us)]"
proof -
  from last_jump_hit [OF assms(1) [unfolded resolve_jmp_target_def]] obtain ys i zs where
    r: "rev (instrs f) = ys @ i # zs" "list_all (\<lambda>y. op y \<noteq> Op_JMP \<and> op y \<noteq> Op_CALL) ys" "op i = Op_JMP \<or> op i = Op_CALL"
      "operands i \<noteq> []" "resolved_const (instrs f) (build_instr_map (instrs f)) (operands i ! 0) = Some (Some t)" by blast
  then have is': "instrs f = rev zs @ i # rev ys" by (metis rev_eq_Cons_iff rev_append rev_rev_ident append.assoc append_Cons append_Nil rev.simps(2))
  from r(5) obtain b where "resolve (instrs f) (build_instr_map (instrs f)) (operands i ! 0) = Some (Const t b)"
    by (auto simp: resolved_const_def)
  from resolve_value [OF this assms(2), of E s] have "eval_val E (exec E s (instrs f)) (operands i ! 0) = t" by simp
  moreover have "eval_val E (exec E s (instrs f)) (operands i ! 0) = eval_val E (exec E s (rev zs)) (operands i ! 0)"
    using operand_at_end [of "rev zs" i "rev ys" "operands i ! 0" E s] assms(2) r(4) by (simp add: is')
  ultimately have t: "map (eval_val E (exec E s (rev zs))) (operands i) = t # map (eval_val E (exec E s (rev zs))) (tl (operands i))"
    using r(4) by (cases "operands i") simp_all
  have "op i = Op_JMP" using assms(3) r(3) by (auto simp: is')
  moreover have "list_all (\<lambda>i. op i \<notin> {Op_JMP, Op_CALL, Op_RET, Op_CJMP}) (rev ys)"
    using assms(3) r(2) by (auto simp: is' jump_only_def list_all_iff)
  ultimately have "trace (exec E s (instrs f)) = trace (exec E s (rev zs)) @ [E_Jump (t # map (eval_val E (exec E s (rev zs))) (tl (operands i)))]"
    by (simp add: is' silent_trace t events_of_def)
  then show ?thesis by blast
qed

subsection \<open>The processor along the visited blocks\<close>

definition block_at :: "(u8 list \<Rightarrow> u64 \<Rightarrow> cs_insn list) \<Rightarrow> u8 list \<Rightarrow> u64 \<Rightarrow> u64 \<Rightarrow> cs_insn list" where
  "block_at decode img base va = jump_code_of (decode (take 256 (drop (unat (va - base)) img)) va)"

fun x86_blocks ::
  "(u8 list \<Rightarrow> u64 \<Rightarrow> cs_insn list) \<Rightarrow> u8 list \<Rightarrow> u64 \<Rightarrow> u64 list \<Rightarrow> x86_state \<Rightarrow> x86_state option" where
  "x86_blocks decode img base [] m = Some m"
| "x86_blocks decode img base (va # vas) m =
     do { m \<leftarrow> x86_run (block_at decode img base va) m; x86_blocks decode img base vas m }"

lemma x86_blocks_snoc:
  "x86_blocks decode img base (vas @ [va]) m =
     do { m \<leftarrow> x86_blocks decode img base vas m; x86_run (block_at decode img base va) m }"
  by (induction vas arbitrary: m) (simp_all split: bind_splits)

text \<open>The evaluator's state stands for the processor's state.\<close>

definition stands_for :: "bounds \<Rightarrow> env \<Rightarrow> state \<Rightarrow> GuidedEvaluator \<Rightarrow> x86_state \<Rightarrow> bool" where
  "stands_for B E s ev m \<longleftrightarrow> sim B E s (ge_state ev) m \<and> jumping (ge_state ev) \<and> fits True True (ge_state ev)
     \<and> mirrors UNIV (ge_memory ev) (mem s)"

lemma fits_single_iff: "fits True True st \<longleftrightarrow> single_operands (instrs (func st))"
  by (auto simp: fits_def plain_form_def single_operands_def list_all_iff)

lemma promote_stands_for:
  assumes "guided_promote ev = Some ev'" "stands_for B E s ev m" "ev_ok B k ev"
  shows "stands_for B E s ev' m"
proof -
  from assms(1) obtain f bm where f: "guided_promote_rounds 3 (ge_func ev) (ge_memory ev) = Some (f, bm)"
    "ev' = (with_func f ev)\<lparr>ge_memory := bm\<rparr>"
    by (auto simp: guided_promote_def elim!: bind_SomeE)
  from assms(2) have st: "sim B E s (ge_state ev) m" "jump_only (instrs (ge_func ev))" "single_operands (instrs (ge_func ev))"
      "mirrors UNIV (ge_memory ev) (mem s)"
    by (simp_all add: stands_for_def fits_single_iff)
  note r = jump_only_rounds [OF f(1) ev_ssa [OF assms(3)] st(2-4)]
  have "ev_ok B k ev'" using guided_promote_ok [OF assms(1,3)] by blast
  then have "lift_ok B (ge_state ev')" by (simp add: ev_ok_def)
  moreover have "ge_state ev' = (ge_state ev)\<lparr>func := f\<rparr>" "ge_memory ev' = bm" by (simp_all add: f(2) with_func_def)
  ultimately show ?thesis
    using r st(1) by (simp add: stands_for_def fits_single_iff sim_def lx_def get_reg_def)
qed

lemma follow_block:
  assumes run: "guided_block decode s = Some (s', go)" and dec: "bounded_decode decode"
    and st: "stands_for B E t (gl_ev s) m" "ev_ok B (gl_steps s) (gl_ev s)" "10 * nat (gl_steps s + 256) \<le> lb_limit B"
    and blk: "block_at decode (ge_image (gl_ev s)) (ge_base (gl_ev s)) (gl_va s) = is" "jump_block is" "x86_run is m = Some m'"
    and inside: "gl_result s' \<noteq> OUT_OF_BOUNDS"
  shows "stands_for B E t (gl_ev s') m' \<and> (\<exists>a. x_events m' = x_events m @ [E_Jump [a]]
    \<and> (if go then gl_va s' = a else gl_result s' \<in> {UNRESOLVED_TARGET, TARGET_OUTSIDE_IMAGE}))"
proof -
  let ?ev = "(gl_ev s)\<lparr>ge_jmp_trace := ge_jmp_trace (gl_ev s) @ [gl_va s]\<rparr>"
  have ok': "ev_ok B (gl_steps s) ?ev" using st(2) by (simp add: ev_ok_def)
  from run inside obtain bs where c: "read_bytes ?ev (gl_va s) 256 = Some (Some bs)"
    by (auto simp: guided_block_def Let_def elim!: bind_SomeE split: option.splits)
  then have bs: "bs = take 256 (drop (unat (gl_va s - ge_base (gl_ev s))) (ge_image (gl_ev s)))"
    by (auto simp: read_bytes_def Let_def split: if_splits)
  have "length bs \<le> 256" using bs by simp
  then have len: "length (decode bs (gl_va s)) \<le> 256" using dec order_trans unfolding bounded_decode_def by blast
  from run c obtain steps va r ev1 ev2 where
      l: "guided_lift (decode bs (gl_va s)) (gl_steps s) (gl_va s) ?ev = Some (steps, va, r, ev1)"
    and p: "guided_promote ev1 = Some ev2"
    and rest: "r = IN_PROGRESS \<Longrightarrow> \<exists>target. resolve_jmp_target (ge_func ev2) = Some target
        \<and> gl_ev s' \<in> {ev2, record_vjcc va ev2} \<and> (if go then target = Some (gl_va s') else gl_result s' \<in> {UNRESOLVED_TARGET, TARGET_OUTSIDE_IMAGE})"
    by (auto simp: guided_block_def Let_def elim!: bind_SomeE split: option.splits if_splits)
  have "nat (gl_steps s + int (length (decode bs (gl_va s)))) \<le> nat (gl_steps s + 256)" using len by simp
  then have "10 * nat (gl_steps s + int (length (decode bs (gl_va s)))) \<le> lb_limit B" using st(3) by linarith
  note l' = guided_lift_ok [OF l ok' this]
  have is': "jump_code_of (decode bs (gl_va s)) = is" using blk(1) by (simp add: block_at_def bs)
  let ?n = "int (length is)"
  from jump_code_lift [OF l, of 0 ?n] is' blk(2)
  have ev1: "ev1 = ?ev\<lparr>ge_state := lift_loop is 0 ?n (ge_state (gl_ev s))\<rparr>" and r: "r = IN_PROGRESS" by simp_all
  have small: "length (jump_code_of js) \<le> length js" for js by (induction js) auto
  from st(1) have s1: "sim B E t (ge_state (gl_ev s)) m" "jumping (ge_state (gl_ev s))" "fits True True (ge_state (gl_ev s))"
      "mirrors UNIV (ge_memory (gl_ev s)) (mem t)" by (simp_all add: stands_for_def)
  have "length is \<le> 256" using small [of "decode bs (gl_va s)"] is' len by simp
  moreover have "0 \<le> gl_steps s" "n_emitted (ge_state (gl_ev s)) \<le> 10 * nat (gl_steps s)" using st(2) by (simp_all add: ev_ok_def)
  ultimately have room: "n_emitted (ge_state (gl_ev s)) + 10 * length is \<le> lb_limit B"
    using st(3) by (simp add: nat_add_distrib)
  have exact: "list_all exact_form is" "list_all store_free is"
    using blk(2) by (auto simp: jump_block_def store_free_def list_all_iff)
  have "stands_for B E t ev1 m'"
    using lift_loop_sim [OF s1(1) room exact(1) blk(3), of 0 ?n] lift_loop_jumping [OF s1(2) exact(2) blk(3), of 0 ?n]
      lift_loop_fits [OF s1(3), of "is" 0 ?n] s1(4)
    by (simp add: stands_for_def ev1)
  from promote_stands_for [OF p this conjunct1 [OF l']] have s2: "stands_for B E t ev2 m'" .
  have ssa2: "ssa (instrs (ge_func ev2))" using guided_promote_ok [OF p conjunct1 [OF l']] ev_ssa by blast
  from block_events blk(2,3) is' obtain a where a: "x_events m' = x_events m @ [E_Jump [a]]" by blast
  from rest [OF r] obtain target where target: "resolve_jmp_target (ge_func ev2) = Some target"
    "gl_ev s' \<in> {ev2, record_vjcc va ev2}"
    "if go then target = Some (gl_va s') else gl_result s' \<in> {UNRESOLVED_TARGET, TARGET_OUTSIDE_IMAGE}" by blast
  have "gl_va s' = a" if go
  proof -
    from target(1,3) that resolve_jmp_target_sound [OF _ ssa2, of "gl_va s'" E t] s2 obtain T us where
      "trace (exec E t (instrs (ge_func ev2))) = T @ [E_Jump (gl_va s' # us)]" by (auto simp: stands_for_def)
    with s2 a show ?thesis by (simp add: stands_for_def sim_def lx_def)
  qed
  moreover have "stands_for B E t (gl_ev s') m'"
    using s2 target(2) by (auto simp: stands_for_def record_vjcc_def split: option.split)
  ultimately show ?thesis using a target(3) by (auto split: if_splits)
qed

lemma follow_reach:
  assumes reach: "guided_reach decode ms mx (guided_init (fresh_evaluator img base reg rs memory) start) r"
    and dec: "bounded_decode decode" and B: "B = guided_bounds ms {}" "bounds_ok B" "vm_refs rs = {}"
    and init: "stands_for B E t (guided_start (fresh_evaluator img base reg rs memory)) m0"
  shows "r = (s, go) \<Longrightarrow> gl_result s \<noteq> OUT_OF_BOUNDS \<Longrightarrow>
    \<forall>va \<in> set (ge_jmp_trace (gl_ev s)). jump_block (block_at decode img base va) \<Longrightarrow>
    x86_blocks decode img base (ge_jmp_trace (gl_ev s)) m0 = Some m \<Longrightarrow>
    stands_for B E t (gl_ev s) m
    \<and> (if ge_jmp_trace (gl_ev s) = [] then x_events m = x_events m0
       else \<exists>a. x_events m = x_events m0 @ map (\<lambda>a. E_Jump [a]) (tl (ge_jmp_trace (gl_ev s)) @ [a])
         \<and> (gl_result s \<notin> {UNRESOLVED_TARGET, TARGET_OUTSIDE_IMAGE} \<longrightarrow> gl_va s = a))"
  using reach
proof (induction arbitrary: s go m)
  case reach_start
  then show ?case using init by (auto simp: guided_init_def)
next
  case (reach_round s1 r)
  have limit: "10 * nat (ms + 256) \<le> lb_limit B" by (simp add: B(1) guided_bounds_def)
  have B': "bounds_ok (guided_bounds ms {})" "vm_refs rs \<subseteq> {}" using B by simp_all
  note inv1 = guided_reach_inv [OF reach_round(1) dec limit guided_init_inv [OF B', folded B(1)]]
  then have ok1: "ev_ok B (gl_steps s1) (gl_ev s1)" "open_inv (gl_ev s1)" "gl_result s1 = IN_PROGRESS"
      "ge_image (gl_ev s1) = img" "ge_base (gl_ev s1) = base" by (auto simp: guided_inv_def)
  from reach_round(3) reach_round.prems(1) obtain ev stop where e: "enter_block mx (gl_va s1) (gl_ev s1) = Some (ev, stop)"
    and rest: "(case stop of
            Some (result, final_vpc) \<Rightarrow> Some (s1\<lparr>gl_ev := ev, gl_result := result, gl_final_vpc := final_vpc\<rparr>, False)
          | None \<Rightarrow> guided_block decode (s1\<lparr>gl_ev := ev\<rparr>)) = Some (s, go)"
    by (auto simp: guided_step_def elim!: bind_SomeE)
  note c = enter_block_catalog [OF e ok1(2)]
  show ?case
  proof (cases stop)
    case (Some p)
    with rest have s: "s = s1\<lparr>gl_ev := ev, gl_result := fst p, gl_final_vpc := snd p\<rparr>" by (auto split: prod.splits)
    with reach_round.IH [OF refl, of m] reach_round.prems c ok1(3) show ?thesis
      by (auto simp: stands_for_def split: if_splits)
  next
    case None
    then have blk: "guided_block decode (s1\<lparr>gl_ev := ev\<rparr>) = Some (s, go)" using rest by simp
    from guided_block_frame [OF blk] c have tr: "ge_jmp_trace (gl_ev s) = ge_jmp_trace (gl_ev s1) @ [gl_va s1]"
      by (simp add: same_frame_def)
    with reach_round.prems(4) obtain m1 where m1: "x86_blocks decode img base (ge_jmp_trace (gl_ev s1)) m0 = Some m1"
      "x86_run (block_at decode img base (gl_va s1)) m1 = Some m"
      by (auto simp: x86_blocks_snoc elim!: bind_SomeE)
    from reach_round.IH [OF refl _ _ m1(1)] ok1(3) reach_round.prems(3) tr
    have ih: "stands_for B E t (gl_ev s1) m1"
      "if ge_jmp_trace (gl_ev s1) = [] then x_events m1 = x_events m0
       else x_events m1 = x_events m0 @ map (\<lambda>a. E_Jump [a]) (tl (ge_jmp_trace (gl_ev s1)) @ [gl_va s1])"
      by (auto split: if_splits)
    have st: "stands_for B E t (gl_ev (s1\<lparr>gl_ev := ev\<rparr>)) m1" using ih(1) c by (simp add: stands_for_def)
    have ok: "ev_ok B (gl_steps (s1\<lparr>gl_ev := ev\<rparr>)) (gl_ev (s1\<lparr>gl_ev := ev\<rparr>))" using ok1(1) c by (simp add: ev_ok_def)
    have "10 * nat (gl_steps s1 + 256) \<le> 10 * nat (ms + 256)" using reach_round(2) by simp
    then have room: "10 * nat (gl_steps (s1\<lparr>gl_ev := ev\<rparr>) + 256) \<le> lb_limit B" using limit by simp
    have at: "block_at decode (ge_image (gl_ev (s1\<lparr>gl_ev := ev\<rparr>))) (ge_base (gl_ev (s1\<lparr>gl_ev := ev\<rparr>))) (gl_va (s1\<lparr>gl_ev := ev\<rparr>))
        = block_at decode img base (gl_va s1)" using ok1(4,5) c by simp
    have jb: "jump_block (block_at decode img base (gl_va s1))" using reach_round.prems(3) tr by simp
    from follow_block [OF blk dec st ok room at jb m1(2) reach_round.prems(2)] obtain a where
      f: "stands_for B E t (gl_ev s) m" "x_events m = x_events m1 @ [E_Jump [a]]"
        "if go then gl_va s = a else gl_result s \<in> {UNRESOLVED_TARGET, TARGET_OUTSIDE_IMAGE}" by blast
    have "x_events m = x_events m0 @ map (\<lambda>a. E_Jump [a]) (tl (ge_jmp_trace (gl_ev s)) @ [a])"
      using ih(2) f(2) tr by (cases "ge_jmp_trace (gl_ev s1)") simp_all
    with f tr show ?thesis by (auto split: if_splits)
  qed
qed

subsection \<open>Property\<close>

lemma start_stands_for:
  assumes "bounds_ok (guided_bounds ms {})" "vm_refs rs = {}" "ev0 = guided_start (fresh_evaluator img base reg rs memory)"
    and "\<And>g. eval_val E s (get_reg (ge_state ev0) (gpr_name g)) = x_reg m g" "mem s = x_mem m" "trace s = x_events m"
    and "holds (ge_memory ev0) (x_mem m)"
  shows "stands_for (guided_bounds ms {}) E s ev0 m"
  using guided_start_ok [OF assms(1), of rs img base reg memory] assms(2-)
  by (simp add: stands_for_def sim_def lx_def ev_ok_def fits_def mirrors_def)


text \<open>The miniature machine: the processor jumps from the handler to itself, twice.\<close>

definition mini_x86 :: x86_state where
  "mini_x86 = \<lparr>x_reg = (\<lambda>_. 0)(R11 := 128, RSP := 0x7FFFFFFFD000), x_mem = wr64 (\<lambda>_. 0) 128 16, x_events = []\<rparr>"

definition mini_env :: env where
  "mini_env = \<lparr>sym = \<lambda>_. 0, symmem = \<lambda>_ _. 0, other_op = \<lambda>_ _. 0, ext_call = \<lambda>_ m. (0, m)\<rparr>"

definition mini_state :: state where
  "mini_state = \<lparr>vals = \<lambda>_. 0, mem = wr64 (\<lambda>_. 0) 128 16, trace = []\<rparr>"

lemma mini_block: "block_at mini_decode mini_image 0 16 = mini_insns 16"
  by (simp add: block_at_def mini_decode_def mini_image_def mini_insns_def)

lemma mini_step:
  "x_reg m R11 = 128 \<Longrightarrow> rd64 (x_mem m) 128 = 16 \<Longrightarrow>
   x86_run (block_at mini_decode mini_image 0 16) m = Some (m\<lparr>x_events := x_events m @ [E_Jump [16]]\<rparr>)"
  by (simp add: mini_block mini_insns_def x86_step_def x86_read_def x86_ea_def)

lemma mini_machine: "x86_blocks mini_decode mini_image 0 [16, 16] mini_x86 = Some (mini_x86\<lparr>x_events := [E_Jump [16], E_Jump [16]]\<rparr>)"
  by (simp add: mini_step mini_x86_def rd64_wr64)


end
