(* ===== verification/Closed_Code.thy ===== *)
theory Closed_Code
  imports Guided_Correct
begin

section \<open>Code that is closed under its own references\<close>

text \<open>
  Every instruction an operand names is in the function, and is not a store. The lifter and all passes
  keep this, so what a run of the guided evaluator leaves can be renumbered and put next to other code
  without an operand meeting a foreign id.
\<close>

definition live_ids :: "Instruction list \<Rightarrow> u32 set" where
  "live_ids is = ids (filter (\<lambda>i. op i \<noteq> Op_STORE) is)"

definition closed_code :: "Instruction list \<Rightarrow> bool" where
  "closed_code is \<longleftrightarrow> refs is \<subseteq> live_ids is"

lemma live_ids_simps [simp]:
  "live_ids [] = {}" "live_ids (i # is) = (if op i \<noteq> Op_STORE then insert (result_id i) (live_ids is) else live_ids is)"
  "live_ids (xs @ ys) = live_ids xs \<union> live_ids ys"
  by (auto simp: live_ids_def)

lemma live_ids_subset: "live_ids is \<subseteq> ids is"
  by (auto simp: live_ids_def)

subsection \<open>Lifting\<close>

definition val_live :: "LiftState \<Rightarrow> Value \<Rightarrow> bool" where
  "val_live st v \<longleftrightarrow> val_refs v \<subseteq> live_ids (instrs (func st))"

definition state_live :: "LiftState \<Rightarrow> bool" where
  "state_live st \<longleftrightarrow> closed_code (instrs (func st)) \<and> (\<forall>nv \<in> set (regs st). val_live st (snd nv))"

lemma val_live_simps [simp]: "val_live st (Const a b)" "val_live st (SymReg n)"
  by (simp_all add: val_live_def)

lemma get_reg_live [simp]: "state_live st \<Longrightarrow> val_live st (get_reg st n)"
  by (auto simp: get_reg_def state_live_def split: option.splits dest!: map_of_SomeD)

lemma set_AList_update: "set (AList.update n v xs) \<subseteq> insert (n, v) (set xs)"
  by (induction xs) auto

lemma set_reg_live [simp]:
  "val_live (set_reg n w st) v = val_live st v"
  "state_live st \<Longrightarrow> val_live st v \<Longrightarrow> state_live (set_reg n v st)"
  by (auto simp: val_live_def state_live_def set_reg_def dest!: set_AList_update [THEN subsetD])

lemma set_dst_live [simp]:
  "val_live (set_dst d w st) v = val_live st v"
  "state_live st \<Longrightarrow> val_live st v \<Longrightarrow> state_live (set_dst d v st)"
  by (simp_all add: set_dst_def split: x86_op.split)

lemma emit_ref_live [simp]:
  "val_live st v \<Longrightarrow> val_live (snd (emit_ref x vs ann st)) v"
  "x \<noteq> Op_STORE \<Longrightarrow> val_live (snd (emit_ref x vs ann st)) (fst (emit_ref x vs ann st))"
  "\<lbrakk>state_live st; list_all (val_live st) vs\<rbrakk> \<Longrightarrow> state_live (snd (emit_ref x vs ann st))"
  by (auto simp: emit_ref_def emit_def Let_def ref_def val_live_def state_live_def closed_code_def list_all_iff ref_ids_val_refs)

lemma add_index_live [simp]:
  "val_live st v \<Longrightarrow> val_live (snd (add_index index scale addr st)) v"
  "val_live st addr \<Longrightarrow> val_live (snd (add_index index scale addr st)) (fst (add_index index scale addr st))"
  "state_live st \<Longrightarrow> val_live st addr \<Longrightarrow> state_live (snd (add_index index scale addr st))"
  by (simp_all add: add_index_def Let_def case_prod_unfold)

lemma mem_base_value_live [simp]: "state_live st \<Longrightarrow> val_live st (mem_base_value insn base st)"
  by (simp add: mem_base_value_def)

lemma op_value_live [simp]:
  "val_live st v \<Longrightarrow> val_live (snd (op_value insn idx st)) v"
  "state_live st \<Longrightarrow> val_live (snd (op_value insn idx st)) (fst (op_value insn idx st))"
  "state_live st \<Longrightarrow> state_live (snd (op_value insn idx st))"
  by (simp_all add: op_value_def Let_def case_prod_unfold split: x86_op.split)

lemma dst_address_live [simp]:
  "val_live st v \<Longrightarrow> val_live (snd (dst_address base disp st)) v"
  "val_live (snd (dst_address base disp st)) (fst (dst_address base disp st))"
  "state_live st \<Longrightarrow> state_live (snd (dst_address base disp st))"
  by (simp_all add: dst_address_def)

lemma handlers_live:
  assumes "state_live st"
  shows "state_live (lift_push insn st)" "state_live (lift_pop insn st)" "state_live (lift_mov insn st)"
    "state_live (lift_lea insn st)" "x \<noteq> Op_STORE \<Longrightarrow> state_live (lift_binop x insn st)"
    "x \<noteq> Op_STORE \<Longrightarrow> state_live (lift_unop x insn st)"
    "state_live (lift_inc_dec insn st)" "state_live (lift_call insn st)"
    "state_live (lift_ret insn st)" "state_live (lift_jmp insn st)" "state_live (lift_pushfq insn st)"
    "state_live (lift_popfq insn st)" "x \<noteq> Op_STORE \<Longrightarrow> state_live (lift_flags x insn st)"
    "state_live (lift_jcc insn st)" "state_live (lift_xchg insn st)" "state_live (lift_cdqe insn st)"
    "x \<noteq> Op_STORE \<Longrightarrow> state_live (lift_extend x insn st)" "state_live (lift_setcc insn st)"
    "state_live (lift_cmov insn st)" "state_live (lift_unsupported insn st)"
  using assms
  unfolding lift_handlers Let_def case_prod_unfold
  by (simp_all split: x86_op.split)

lemma if_live: "state_live a \<Longrightarrow> state_live b \<Longrightarrow> state_live (if c then a else b)"
  by simp

lemma lift_insn_live: "state_live st \<Longrightarrow> state_live (lift_insn insn st)"
proof -
  assume st: "state_live st"
  have "map_of binop_map m = Some x \<Longrightarrow> x \<noteq> Op_STORE" "map_of unop_map m = Some x \<Longrightarrow> x \<noteq> Op_STORE" for m x
    by (auto simp: binop_map_def unop_map_def split: if_splits)
  then have b: "state_live (if map_of binop_map m \<noteq> None \<and> c then lift_binop (the (map_of binop_map m)) insn st else st')"
    and u: "state_live (if map_of unop_map m \<noteq> None \<and> c then lift_unop (the (map_of unop_map m)) insn st else st')"
    if "state_live st'" for m c st'
    using that handlers_live(5,6) [OF st] by auto
  have f: "state_live (lift_flags Op_AND insn st)" "state_live (lift_flags Op_SUB insn st)"
      "state_live (lift_extend Op_ZEXT insn st)" "state_live (lift_extend Op_SEXT insn st)"
    by (simp_all add: handlers_live st)
  show ?thesis
    unfolding lift_insn_def Let_def
    by (intro b u if_live f handlers_live(1-4) handlers_live(7-12) handlers_live(14-16) handlers_live(18-20) st)
qed

subsection \<open>The passes\<close>

lemma kept_live:
  "list_all2 (kept_store E t) is is' \<Longrightarrow> map result_id is' = map result_id is \<Longrightarrow> live_ids is \<subseteq> live_ids is'"
  by (induction rule: list_all2_induct) (auto simp: kept_store_def quiet_op_def)

text \<open>What folding and promotion keep.\<close>

definition keeps_live :: "Function \<Rightarrow> Function \<Rightarrow> bool" where
  "keeps_live f g \<longleftrightarrow> shape f g \<and> live_ids (instrs f) \<subseteq> live_ids (instrs g)"

lemma keeps_live_trans: "keeps_live f g \<Longrightarrow> keeps_live g h \<Longrightarrow> keeps_live f h"
  unfolding keeps_live_def using shape_trans by blast

lemma keeps_live_refl: "keeps_live f f"
  by (simp add: keeps_live_def shape_refl)

lemma keeps_live_closed: "keeps_live f g \<Longrightarrow> closed_code (instrs f) \<Longrightarrow> closed_code (instrs g)"
  unfolding keeps_live_def shape_def closed_code_def by blast

lemma fold_passes_live:
  assumes "(n, p) \<in> set FOLD_PASSES" "p f = Some (f', ch)" "ssa (instrs f)"
  shows "ssa (instrs f') \<and> keeps_live f f'"
  using fold_passes_shape [OF assms] kept_live [OF fold_passes_kept [OF assms]]
  by (simp add: keeps_live_def shape_def)

interpretation live_pipeline: pass_pipeline FOLD_PASSES "\<lambda>f. ssa (instrs f)" keeps_live
  by unfold_locales (auto simp: keeps_live_refl dest: fold_passes_live fold_passes_same intro: keeps_live_trans)

lemma run_fold_live: "run_fold_convergence f n = Some (f', rep) \<Longrightarrow> ssa (instrs f) \<Longrightarrow> ssa (instrs f') \<and> keeps_live f f'"
  unfolding run_fold_convergence_def using live_pipeline.converge_good [of n 0 f _ f'] by blast

lemma apply_store_ranges: "apply_store vec im x bm = Some bm' \<Longrightarrow> safe_ranges bm' = safe_ranges bm"
  by (auto simp: apply_store_def store_u64_def store_def elim!: bind_SomeE split: if_splits option.splits)

lemma promote_walk_live:
  "promote_walk im d r bm c = Some (js, bm', c') \<Longrightarrow> live_ids (d @ r) \<subseteq> live_ids js \<and> safe_ranges bm' = safe_ranges bm"
proof (induction im d r bm c rule: promote_walk.induct)
  case (2 im d x r bm c)
  then obtain bm1 x1 p where st: "apply_store (d @ x # r) im x bm = Some bm1"
    and ld: "promote_load (d @ x # r) im bm1 x = Some (x1, p)"
    and rest: "promote_walk im (d @ [x1]) r bm1 (c \<or> p) = Some (js, bm', c')"
    by (auto elim!: bind_SomeE)
  from "2.IH" [OF st ld refl rest] promote_load_shape [OF ld] promote_load_id [OF ld] apply_store_ranges [OF st]
  show ?case by (auto split: if_splits)
qed simp

lemma promote_pass_live:
  assumes "promote_pass f bm = Some (f', bm', c)" "ssa (instrs f)"
  shows "ssa (instrs f') \<and> keeps_live f f' \<and> safe_ranges bm' = safe_ranges bm"
proof -
  from assms(1) obtain js where js: "f' = f\<lparr>instrs := js\<rparr>"
    "promote_walk (build_instr_map (instrs f)) [] (instrs f) bm False = Some (js, bm', c)"
    by (auto simp: promote_pass_def elim!: bind_SomeE)
  from promote_pass_shape [OF assms] promote_walk_live [OF js(2)] js(1) show ?thesis
    by (simp add: keeps_live_def)
qed

lemma guided_promote_rounds_live:
  "guided_promote_rounds n f bm = Some (f', bm') \<Longrightarrow> ssa (instrs f) \<Longrightarrow>
   ssa (instrs f') \<and> keeps_live f f' \<and> safe_ranges bm' = safe_ranges bm"
proof (induction n arbitrary: f bm)
  case (Suc n)
  from Suc.prems(1) obtain f1 rep f2 bm2 p where f1: "run_fold_convergence f 8 = Some (f1, rep)"
    and f2: "promote_pass f1 bm = Some (f2, bm2, p)"
    and rest: "(if \<not> p then Some (f2, bm2) else guided_promote_rounds n f2 bm2) = Some (f', bm')"
    by (auto simp: guided_promote_rounds_Suc simp del: guided_promote_rounds.simps elim!: bind_SomeE)
  note s1 = run_fold_live [OF f1 Suc.prems(2)]
  note s2 = promote_pass_live [OF f2 conjunct1 [OF s1]]
  have s: "ssa (instrs f2)" "keeps_live f f2" "safe_ranges bm2 = safe_ranges bm" using s1 s2 keeps_live_trans by blast+
  show ?case
  proof (cases p)
    case True
    with rest Suc.IH [of f2 bm2] s show ?thesis by (auto intro: keeps_live_trans)
  qed (use rest s in auto)
qed (simp add: keeps_live_refl)

text \<open>The full pipeline also drops stores and instructions that no operand names.\<close>

lemma dead_store_live:
  "live_ids (select_kept is (snd (dead_store_walk is))) = live_ids is
   \<and> refs (select_kept is (snd (dead_store_walk is))) \<subseteq> refs is
   \<and> length (select_kept is (snd (dead_store_walk is))) \<le> length is"
proof (induction "is")
  case (Cons i "is")
  obtain live keep where w: "dead_store_walk is = (live, keep)" by force
  have "private_store i = Some c \<Longrightarrow> op i = Op_STORE" for c
    by (auto simp: private_store_def is_store_def split: if_splits)
  with Cons w show ?case by (auto split: option.splits)
qed simp

lemma dead_dep_live:
  assumes "closed_code is"
  shows "closed_code (filter (\<lambda>i. op_is_side_effectful (op i) \<or> result_id i \<in> refs is) is)"
  unfolding closed_code_def
proof
  let ?K = "\<lambda>i. op_is_side_effectful (op i) \<or> result_id i \<in> refs is"
  fix j assume "j \<in> refs (filter ?K is)"
  then have j: "j \<in> refs is" by auto
  with assms obtain i where "i \<in> set is" "op i \<noteq> Op_STORE" "result_id i = j"
    unfolding closed_code_def live_ids_def by auto
  then show "j \<in> live_ids (filter ?K is)" using j unfolding live_ids_def by auto
qed

definition closed_ssa :: "Function \<Rightarrow> bool" where
  "closed_ssa f \<longleftrightarrow> ssa (instrs f) \<and> closed_code (instrs f)"

definition shrinks :: "Function \<Rightarrow> Function \<Rightarrow> bool" where
  "shrinks f g \<longleftrightarrow> length (instrs g) \<le> length (instrs f)"

interpretation closed_pipeline: pass_pipeline ALL_PASSES closed_ssa shrinks
proof unfold_locales
  fix n p f f' ch
  assume p: "(n, p) \<in> set ALL_PASSES" "p f = Some (f', ch)" and f: "closed_ssa f"
  from all_passes_cases [OF p(1)] show "closed_ssa f' \<and> shrinks f f'"
  proof (elim disjE)
    assume "(n, p) \<in> set FOLD_PASSES"
    from fold_passes_live [OF this p(2)] f keeps_live_closed [of f f'] show ?thesis
      by (auto simp: closed_ssa_def shrinks_def keeps_live_def shape_def dest: map_eq_imp_length_eq)
  next
    assume "p = (\<lambda>f. Some (dead_store_elim_pass f))"
    then have f': "instrs f' = select_kept (instrs f) (snd (dead_store_walk (instrs f)))"
      using p(2) dead_store_elim_instrs [of f] by simp
    have "ssa (instrs f')" unfolding f' using f by (intro ssa_select_kept) (simp add: closed_ssa_def)
    moreover have "refs (instrs f') \<subseteq> live_ids (instrs f')"
      using dead_store_live [of "instrs f", folded f'] f by (elim conjE, simp only: closed_ssa_def closed_code_def) (elim conjE, erule (1) subset_trans)
    ultimately show ?thesis
      using dead_store_live [of "instrs f", folded f'] by (simp only: closed_ssa_def shrinks_def closed_code_def)
  next
    assume "p = (\<lambda>f. Some (dead_dep_elim_pass f))"
    then have "instrs f' = filter (\<lambda>i. op_is_side_effectful (op i) \<or> result_id i \<in> refs (instrs f)) (instrs f)"
      using p(2) drop_unkept_instrs [of _ f] by (metis dead_dep_elim_pass_def fst_conv option.sel referenced_refs)
    with f dead_dep_live ssa_filter show ?thesis
      by (simp add: closed_ssa_def shrinks_def)
  qed
next
  fix n p f f'
  assume "(n, p) \<in> set ALL_PASSES" "p f = Some (f', False)"
  with all_passes_cases [OF this(1)] show "f' = f"
    by (auto dest: fold_passes_same dead_store_unchanged dead_dep_unchanged)
qed (auto simp: shrinks_def)


subsection \<open>Runs of the guided evaluator\<close>

text \<open>The state is live, and the address comes from the start, the image or a safe range.\<close>

definition place_ok :: "u64 \<Rightarrow> MemRange list \<Rightarrow> u8 list \<Rightarrow> u64 \<Rightarrow> u64 \<Rightarrow> bool" where
  "place_ok start ranges img base va \<longleftrightarrow>
     va = start \<or> va \<in> image_addresses img base \<or> list_ex (\<lambda>r. contains r va) ranges"

definition live_run :: "u64 \<Rightarrow> MemRange list \<Rightarrow> u8 list \<Rightarrow> u64 \<Rightarrow> guided_loop_state \<Rightarrow> bool" where
  "live_run start ranges img base s \<longleftrightarrow> state_live (ge_state (gl_ev s)) \<and> safe_ranges (ge_memory (gl_ev s)) = ranges
     \<and> ge_image (gl_ev s) = img \<and> ge_base (gl_ev s) = base \<and> place_ok start ranges img base (gl_va s)"

lemma with_func_live:
  assumes "state_live (ge_state ev)" "keeps_live (ge_func ev) f"
  shows "state_live (ge_state (with_func f ev))"
proof -
  have "val_live (ge_state (with_func f ev)) v" if "val_live (ge_state ev) v" for v
    using that assms(2) by (auto simp: val_live_def keeps_live_def with_func_def)
  moreover have "closed_code (instrs f)" using assms keeps_live_closed by (auto simp: state_live_def)
  ultimately show ?thesis using assms(1) by (simp add: state_live_def with_func_def)
qed

lemma guided_lift_live:
  assumes "guided_lift is steps va ev = Some (steps', va', result, ev')" "state_live (ge_state ev)" 
    "ev_ok B steps ev" "10 * nat (steps + int (length is)) \<le> lb_limit B"
  shows "state_live (ge_state ev') \<and> (va' = va \<or> is_safe (ge_memory ev) va')"
  using assms
proof (induction "is" arbitrary: steps ev)
  case (Cons i "is")
  let ?ev = "ev\<lparr>ge_state := lift_insn i (ge_state ev)\<rparr>"
  have live: "state_live (ge_state ?ev)" using lift_insn_live [OF Cons.prems(2)] by simp
  have pos: "0 \<le> steps" using Cons.prems(3) by (simp add: ev_ok_def)
  then have "nat steps + 1 \<le> nat (steps + int (length (i # is)))" by simp
  then have room: "n_emitted (ge_state ev) + 10 \<le> lb_limit B" using Cons.prems(3,4) unfolding ev_ok_def by linarith
  have ok: "ev_ok B (steps + 1) ?ev"
    using Cons.prems(3) lift_insn_keeps [OF _ room, of i] pos by (simp add: ev_ok_def nat_add_distrib)
  show ?case
  proof (cases "mnemonic i = ''ret''")
    case True
    with Cons.prems(1) obtain f rep where f: "run_fold_convergence (ge_func ?ev) 8 = Some (f, rep)"
      and rest: "ev' = with_func f ?ev" "va' = va \<or> is_safe (ge_memory ev) va'"
      by (auto simp: Let_def with_func_def elim!: bind_SomeE split: option.splits if_splits)
    from with_func_live [OF live] run_fold_live [OF f ev_ssa [OF ok]] rest show ?thesis by simp
  next
    case False
    show ?thesis
    proof (cases "mnemonic i = ''jmp'' \<or> mnemonic i = ''call''")
      case True
      with False Cons.prems(1) live show ?thesis by (auto simp: Let_def split: if_splits)
    next
      case neither: False
      with False Cons.prems(1) have "guided_lift is (steps + 1) va ?ev = Some (steps', va', result, ev')"
        by (simp add: Let_def)
      from Cons.IH [OF this live ok] Cons.prems(4) show ?thesis by (simp add: algebra_simps)
    qed
  qed
qed simp

lemma guided_promote_live:
  assumes "guided_promote ev = Some ev'" "state_live (ge_state ev)" "ssa (instrs (ge_func ev))"
  shows "state_live (ge_state ev') \<and> ssa (instrs (ge_func ev')) \<and> safe_ranges (ge_memory ev') = safe_ranges (ge_memory ev)"
proof -
  from assms(1) obtain f m where f: "guided_promote_rounds 3 (ge_func ev) (ge_memory ev) = Some (f, m)"
    "ev' = (with_func f ev)\<lparr>ge_memory := m\<rparr>"
    by (auto simp: guided_promote_def elim!: bind_SomeE)
  from guided_promote_rounds_live [OF f(1) assms(3)] with_func_live [OF assms(2)] f(2) show ?thesis
    by (simp add: with_func_def)
qed

lemma record_vjcc_memory [simp]:
  "ge_memory (record_vjcc va ev) = ge_memory ev" "ge_image (record_vjcc va ev) = ge_image ev" "ge_base (record_vjcc va ev) = ge_base ev"
  by (simp_all add: record_vjcc_def split: option.split)

lemma guided_block_live:
  assumes run: "guided_block decode s = Some (s', go)" and dec: "bounded_decode decode"
    and ok: "ev_ok B (gl_steps s) (gl_ev s)" "10 * nat (gl_steps s + 256) \<le> lb_limit B"
    and live: "live_run start ranges img base s"
  shows "live_run start ranges img base s'"
proof -
  let ?ev = "(gl_ev s)\<lparr>ge_jmp_trace := ge_jmp_trace (gl_ev s) @ [gl_va s]\<rparr>"
  have ok': "ev_ok B (gl_steps s) ?ev" using ok(1) by (simp add: ev_ok_def)
  from run obtain code where code: "read_bytes ?ev (gl_va s) 256 = Some code"
    by (auto simp: guided_block_def Let_def elim!: bind_SomeE)
  show ?thesis
  proof (cases code)
    case None
    with run code live show ?thesis by (auto simp: guided_block_def Let_def live_run_def)
  next
    case (Some bs)
    have "length bs \<le> 256" using code Some by (auto simp: read_bytes_def Let_def split: if_splits)
    then have len: "length (decode bs (gl_va s)) \<le> 256" using dec order_trans unfolding bounded_decode_def by blast
    from run code Some obtain steps va r ev1 ev2 where
        l: "guided_lift (decode bs (gl_va s)) (gl_steps s) (gl_va s) ?ev = Some (steps, va, r, ev1)"
      and p: "guided_promote ev1 = Some ev2"
      and rest: "gl_ev s' \<in> {ev2, record_vjcc va ev2}" "gl_va s' = va \<or> is_in_image ev2 (gl_va s')"
      by (auto simp: guided_block_def Let_def elim!: bind_SomeE split: if_splits option.splits)
    have "nat (gl_steps s + int (length (decode bs (gl_va s)))) \<le> nat (gl_steps s + 256)" using len by simp
    then have room: "10 * nat (gl_steps s + int (length (decode bs (gl_va s)))) \<le> lb_limit B" using ok(2) by linarith
    have live': "state_live (ge_state ?ev)" using live by (simp add: live_run_def)
    note l' = guided_lift_live [OF l live' ok' room]
    have ssa: "ssa (instrs (ge_func ev1))" using guided_lift_ok [OF l ok' room] ev_ssa by blast
    note p' = guided_promote_live [OF p conjunct1 [OF l'] ssa]
    have "same_frame ?ev ev2" "ge_memory ev1 = ge_memory ?ev"
      using guided_lift_frame [OF l] guided_promote_frame [OF p] same_frame_trans by blast+
    with l' p' live have fr: "ge_image ev2 = img" "ge_base ev2 = base" "safe_ranges (ge_memory ev2) = ranges"
        "va = gl_va s \<or> list_ex (\<lambda>r. contains r va) ranges"
      by (auto simp: same_frame_def live_run_def is_safe_def)
    with live have "place_ok start ranges img base va" by (auto simp: place_ok_def live_run_def)
    moreover have "place_ok start ranges img base (gl_va s')" if "is_in_image ev2 (gl_va s')"
      using that fr by (simp add: place_ok_def is_in_image_def image_addresses_def)
    ultimately show ?thesis using rest p' fr by (auto simp: live_run_def)
  qed
qed

lemma enter_block_live:
  assumes "enter_block mx va ev = Some (ev', stop)"
  shows "ge_state ev' = ge_state ev \<and> ge_memory ev' = ge_memory ev \<and> ge_image ev' = ge_image ev \<and> ge_base ev' = ge_base ev"
proof (cases "va \<in> ge_visited ev")
  case False
  with assms show ?thesis by (auto simp: enter_block_def)
next
  case True
  from assms True show ?thesis
    by (cases rule: enter_block_again) (auto simp: count_dispatch_def split: if_splits)
qed

lemma guided_reach_live:
  assumes "guided_reach decode ms mx s0 r" "bounded_decode decode" "10 * nat (ms + 256) \<le> lb_limit B"
    "guided_inv B img base ms mx start (s0, True)" "live_run start ranges img base s0"
  shows "live_run start ranges img base (fst r)"
  using assms(1)
proof induction
  case reach_start
  show ?case using assms(5) by simp
next
  case (reach_round s r)
  obtain s' go where r: "r = (s', go)" by force
  from guided_reach_inv [OF reach_round(1) assms(2-4)] have ok: "ev_ok B (gl_steps s) (gl_ev s)" by (simp add: guided_inv_def)
  from reach_round(3) r obtain ev stop where e: "enter_block mx (gl_va s) (gl_ev s) = Some (ev, stop)"
    and rest: "(case stop of
            Some (result, final_vpc) \<Rightarrow> Some (s\<lparr>gl_ev := ev, gl_result := result, gl_final_vpc := final_vpc\<rparr>, False)
          | None \<Rightarrow> guided_block decode (s\<lparr>gl_ev := ev\<rparr>)) = Some (s', go)"
    by (auto simp: guided_step_def elim!: bind_SomeE)
  note f = enter_block_live [OF e]
  have live: "live_run start ranges img base (s\<lparr>gl_ev := ev\<rparr>)" using reach_round(4) f by (simp add: live_run_def)
  show ?case
  proof (cases stop)
    case (Some p)
    with rest live show ?thesis by (auto simp: r live_run_def split: prod.splits)
  next
    case None
    have "10 * nat (gl_steps s + 256) \<le> 10 * nat (ms + 256)" using reach_round(2) by simp
    then have "10 * nat (gl_steps s + 256) \<le> lb_limit B" using assms(3) by linarith
    with guided_block_live [OF _ assms(2) _ _ live, of s' go B] None rest ok f show ?thesis
      by (simp add: r ev_ok_def)
  qed
qed

lemma fold_store_ranges [simp]: "safe_ranges (fold (\<lambda>k m. store m (g k) (h k)) ks m) = safe_ranges m"
  by (induction ks arbitrary: m) (simp_all add: store_def)

lemma guided_safe_range_ranges:
  "safe_ranges (ge_memory (guided_safe_range a b ev)) = safe_ranges (ge_memory ev) @ [\<lparr>range_start = a, range_end = b\<rparr>]"
  by (simp add: guided_safe_range_def Let_def add_safe_range_def)

lemma guided_start_ranges:
  "safe_ranges (ge_memory (guided_start ev)) =
     safe_ranges (ge_memory ev) @ [\<lparr>range_start = 0x7FFFFFFFD000 - 0x200000, range_end = 0x7FFFFFFFD000 + 0x10000\<rparr>]"
proof -
  have "safe_ranges (ge_memory (ev'\<lparr>ge_state := st\<rparr>)) = safe_ranges (ge_memory ev')" for ev' :: GuidedEvaluator and st by simp
  then show ?thesis unfolding guided_start_def Let_def by (simp only: guided_safe_range_ranges)
qed

lemma guided_start_state:
  "ge_state (guided_start ev) = foldl (\<lambda>st (k, v). set_reg k v st)
     (set_reg ''rsp'' (Const64 0x7FFFFFFFD000) (ge_state ev)) (ge_initial_regs ev)"
  by (simp add: guided_start_def guided_safe_range_def Let_def)

text \<open>What a run leaves: closed code in single-assignment form, no longer than ten times the steps.\<close>

lemma guided_run_closed:
  assumes run: "guided_run (Some decode) start ms mx (fresh_evaluator img base reg rs memory) = Some (rep, ev)"
    and dec: "bounded_decode decode" and room: "10 * nat (ms + 256) \<le> 2 ^ 32" "0 \<le> ms" and regs: "vm_refs rs = {}"
  shows "ssa (instrs (ge_func ev)) \<and> closed_code (instrs (ge_func ev)) \<and> length (instrs (ge_func ev)) \<le> 10 * nat (ms + 256)
    \<and> place_ok start (safe_ranges memory @ [\<lparr>range_start = 0x7FFFFFFFD000 - 0x200000, range_end = 0x7FFFFFFFD000 + 0x10000\<rparr>])
        img base (er_stop_va rep)"
proof -
  let ?B = "guided_bounds ms {}" and ?s0 = "guided_init (fresh_evaluator img base reg rs memory) start"
    and ?R = "safe_ranges memory @ [\<lparr>range_start = 0x7FFFFFFFD000 - 0x200000, range_end = 0x7FFFFFFFD000 + 0x10000\<rparr>]"
  have B: "bounds_ok ?B" "vm_refs rs \<subseteq> {}" using guided_bounds_ok [OF room(1)] regs by simp_all
  have lim: "10 * nat (ms + 256) \<le> lb_limit ?B" by (simp add: guided_bounds_def)
  from run obtain s f cr where s: "guided_loop decode ms mx ?s0 = Some s"
    and f: "run_to_convergence (ge_func (gl_ev s)) 32 = Some (f, cr)" "ev = with_func f (gl_ev s)" "er_stop_va rep = gl_va s"
    by (rule guided_run_loop) simp
  from guided_loop_reach [OF s reach_start] obtain go where reach: "guided_reach decode ms mx ?s0 (s, go)" by blast
  have "state_live st \<Longrightarrow> \<forall>v \<in> snd ` set rs. val_refs v = {} \<Longrightarrow> state_live (foldl (\<lambda>st (k, v). set_reg k v st) st rs)" for st rs
    by (induction rs arbitrary: st) (auto simp: val_live_def)
  moreover have "state_live (set_reg ''rsp'' (Const64 0x7FFFFFFFD000) (new_lift_state (new_function ''guided'') 0x7FFFFFFFD000))"
    by (intro set_reg_live(2)) (auto simp: state_live_def new_lift_state_def new_function_def closed_code_def default_regs_def)
  moreover have "\<forall>v \<in> snd ` set rs. val_refs v = {}" using regs by (auto simp: vm_refs_def)
  ultimately have "live_run start ?R img base ?s0"
    by (simp add: live_run_def guided_init_def place_ok_def guided_start_ranges guided_start_state del: diff_numeral_simps)
  note live = guided_reach_live [OF reach dec lim guided_init_inv [OF B] this]
  from guided_reach_inv [OF reach dec lim guided_init_inv [OF B]]
  have ok: "ev_ok ?B (gl_steps s) (gl_ev s)" by (simp add: guided_inv_def)
  have "closed_ssa (ge_func (gl_ev s))"
    using live ev_ssa [OF ok] by (simp add: closed_ssa_def live_run_def state_live_def)
  from closed_pipeline.converge_good [OF f(1) [unfolded run_to_convergence_def] this]
  have "closed_ssa f" "length (instrs f) \<le> n_emitted (ge_state (gl_ev s))" by (simp_all add: shrinks_def)
  moreover have "n_emitted (ge_state (gl_ev s)) \<le> lb_limit ?B" using ok by (simp add: ev_ok_def lift_ok_def)
  ultimately show ?thesis
    using live f by (simp add: closed_ssa_def with_func_def live_run_def guided_bounds_def)
qed

end
