(* ===== verification/Native_Recovery.thy ===== *)
theory Native_Recovery
  imports Segment_Correct
begin

section \<open>Recovering the graph of native code (src/eval/segment_eval.cpp)\<close>

text \<open>
  CFG recovery calls its oracle once per block, each time on the exit state of an earlier
  block. The interface \<open>segment_contract\<close> says what an oracle with a state promises under such a
  use, and what follows for the recovered graph; the native oracle - the segment evaluator on a
  running id counter - is an instance.
\<close>

subsection \<open>Where the values of phi nodes come from\<close>

lemma phi_pairs_find:
  "phi_pairs incs reg = Some ps \<Longrightarrow> cv \<in> set ps \<Longrightarrow> \<exists>inc \<in> set incs. vm_find (snd inc) reg = Some (snd cv)"
  by (induction incs arbitrary: ps) (auto split: option.splits)

lemma block_phis_find:
  "phi \<in> set (fst (block_phis incs rs nid)) \<Longrightarrow> phi_pairs incs (phi_reg phi) = Some (phi_incoming phi)"
proof (induction rs arbitrary: nid)
  case (Cons r rs)
  from Cons.IH [of nid] Cons.IH [of "nid + 1"] Cons.prems show ?case
    by (auto simp: Let_def needs_phi_def split: if_splits prod.splits option.splits)
qed simp

lemma add_phis_find:
  "\<lbrakk>b \<in> set (add_phis st names bs nid); \<forall>b \<in> set bs. bb_phis b = []; phi \<in> set (bb_phis b)\<rbrakk>
   \<Longrightarrow> \<exists>c. phi_pairs (incoming_of st c) (phi_reg phi) = Some (phi_incoming phi)"
proof (induction bs arbitrary: nid)
  case (Cons b0 bs)
  obtain phis nid' where bp: "block_phis (incoming_of st (bb_id b0)) names nid = (phis, nid')" by force
  with Cons show ?case
    using block_phis_find [of phi "incoming_of st (bb_id b0)" names nid]
    by (auto simp: Let_def split: if_splits)
qed simp

subsection \<open>The interface of a stateful oracle\<close>

text \<open>
  \<open>fit s x\<close>: the oracle in state \<open>s\<close> may be asked about a block entered in \<open>x\<close>.
  \<open>emitted s ls\<close>: in state \<open>s\<close> it has returned the blocks \<open>ls\<close>, in this order.
\<close>

locale segment_contract =
  fixes orc :: "'s segment_oracle" and config :: CFGRecoveryConfig and entry_state :: VMState
    and fit :: "'s \<Rightarrow> VMState \<Rightarrow> bool" and emitted :: "'s \<Rightarrow> Instruction list list \<Rightarrow> bool"
  assumes plain: "\<not> (full_ssa config \<and> tracked_regs config \<noteq> [])"
    and keeps: "\<lbrakk>emitted s ls; fit s x; int (length ls) \<le> max_blocks config; orc s v x = Some (res, s')\<rbrakk>
      \<Longrightarrow> emitted s' (ls @ [seg_instrs res]) \<and> (\<forall>y. fit s y \<longrightarrow> fit s' y)
        \<and> (\<forall>q \<in> set (seg_targets res). fit s' (snd q))"
begin

definition served :: "u64 list \<Rightarrow> nat \<Rightarrow> rec_state \<Rightarrow> 's \<Rightarrow> bool" where
  "served vs p st s \<longleftrightarrow> bfs_inv orc config entry_state vs p st
     \<and> emitted s (map bb_instrs (take p (cfg_blocks (r_cfg st)))) \<and> fit s entry_state
     \<and> int p \<le> max 0 (max_blocks config + 1)
     \<and> (\<forall>b. \<forall>inc \<in> set (incoming_of st b). fit s (snd inc))"

lemma served_input:
  assumes "served vs p st s" "p < length vs"
  shows "fit s (seg_input config entry_state p st)"
proof (cases "p = 0")
  case True
  with assms plain show ?thesis by (auto simp: seg_input_def served_def)
next
  case False
  with assms bfs_incoming [of orc config entry_state vs p st p]
  have "incoming_of st (of_nat p) \<noteq> []" by (simp add: served_def)
  then have "hd (incoming_of st (of_nat p)) \<in> set (incoming_of st (of_nat p))" by simp
  with assms(1) False plain show ?thesis unfolding served_def seg_input_def by auto
qed

lemma running_facts:
  assumes "served vs p st s" "running config st" and small: "max_blocks config < 2 ^ 31"
  shows "p < length vs" "length vs + 2 < 2 ^ 32" "int p \<le> max_blocks config"
    "length (cfg_blocks (r_cfg st)) = length vs"
proof -
  have I: "p < length vs" "int (length vs) \<le> max_blocks config" "length (cfg_blocks (r_cfg st)) = length vs"
    using assms by (auto simp: running_def served_def bfs_inv_def table_inv_def)
  then show "p < length vs" "length (cfg_blocks (r_cfg st)) = length vs" "int p \<le> max_blocks config" by linarith+
  from I(2) small have "int (length vs) < 2 ^ 31" by linarith
  then show "length vs + 2 < 2 ^ 32" by simp
qed

lemma served_step:
  assumes inv: "served vs p st s" and run: "running config st" and small: "max_blocks config < 2 ^ 31"
    and step: "recover_step orc config entry_state 0 st s = Some (st', s')"
  shows "\<exists>ws. served (vs @ ws) (Suc p) st' s'"
proof -
  note f = running_facts [OF inv run small]
  have bfs: "bfs_inv orc config entry_state vs p st" using inv by (simp add: served_def)
  from bfs_step [OF bfs run small step] obtain ws where
    bfs': "bfs_inv orc config entry_state (vs @ ws) (Suc p) st'" by blast
  obtain res st2 where o: "orc s (vs ! p) (seg_input config entry_state p st) = Some (res, s')"
    and spec: "term_spec vs (of_nat p) res (st\<lparr>worklist := drop (Suc p) vs, processed := set (take (Suc p) vs)\<rparr>) st2"
    and st': "st' = finish_block p res (seg_term (add_vpcs vs res) res) st2"
    by (rule recover_step_cases [OF bfs f(1,2) step])
  let ?ls = "map bb_instrs (take p (cfg_blocks (r_cfg st)))"
  have em: "emitted s ?ls" and len: "int (length ?ls) \<le> max_blocks config" using inv f(3) by (simp_all add: served_def)
  note k = keeps [OF em served_input [OF inv f(1)] len o]
  have blocks: "cfg_blocks (r_cfg st2) = cfg_blocks (r_cfg st) @ fresh_blocks vs (add_vpcs vs res)"
    and inc: "incoming_of st2 b = incoming_of st b @ new_incoming (add_vpcs vs res) (of_nat p) res b" for b
    using spec by (simp_all add: term_spec_def Let_def incoming_of_def)
  have "map bb_instrs (take (Suc p) (cfg_blocks (r_cfg st'))) = ?ls @ [seg_instrs res]"
    using f(1,4) by (simp add: st' finish_block_def blocks take_Suc_conv_app_nth nth_append)
  moreover have "fit s' (snd i)" if "i \<in> set (incoming_of st' b)" for i b
    using that inv k by (auto simp: st' inc served_def new_incoming_def)
  ultimately have "served (vs @ ws) (Suc p) st' s'"
    using bfs' k inv f(3) by (simp add: served_def)
  then show ?thesis ..
qed

lemma served_loop:
  "\<lbrakk>recover_loop orc config entry_state 0 st s = Some (st', s'); served vs p st s; max_blocks config < 2 ^ 31\<rbrakk>
   \<Longrightarrow> \<exists>vs' p'. served vs' p' st' s'"
proof (induction "pending st" arbitrary: vs p st s rule: less_induct)
  case less
  show ?case
  proof (cases "running config st")
    case False
    with less.prems show ?thesis by (subst (asm) recover_loop.simps) auto
  next
    case True
    with less.prems(1) obtain st1 s1 where step: "recover_step orc config entry_state 0 st s = Some (st1, s1)"
      and rest: "recover_loop orc config entry_state 0 st1 s1 = Some (st', s')"
      by (subst (asm) recover_loop.simps) (auto elim!: bind_SomeE)
    from served_step [OF less.prems(2) True less.prems(3) step] obtain ws where "served (vs @ ws) (Suc p) st1 s1" ..
    moreover have "pending st1 < pending st"
      using recover_step_pending [OF step] True by (simp add: running_def)
    ultimately show ?thesis using less.hyps rest less.prems(3) by blast
  qed
qed

lemma served_initial:
  assumes "initial_rec_state (entry_vpc config) = (0, st)" "emitted s []" "fit s entry_state"
  shows "served [entry_vpc config] 0 st s"
proof -
  obtain st0 where i: "initial_rec_state (entry_vpc config) = (0, st0)"
    "bfs_inv orc config entry_state [entry_vpc config] 0 st0" using initial_bfs by blast
  then have "st0 = st" using assms(1) by simp
  moreover have "map fst (incoming_of st0 b) = []" for b
    using i(2) by (auto simp: bfs_inv_def predecessors_def filter_empty_conv)
  ultimately show ?thesis using i(2) assms(2,3) by (simp add: served_def)
qed

text \<open>The blocks of the recovered graph are those the oracle returned, in order of their numbers, followed
  by blocks it was never asked about; a value that reaches a phi node comes from a state that fits.\<close>

lemma recovered_blocks:
  assumes "recover orc config entry_state s = Some (cfg, s')" "emitted s []" "fit s entry_state"
    and "max_blocks config < 2 ^ 31"
  shows "\<exists>p \<le> length (cfg_blocks cfg). int p \<le> max 0 (max_blocks config + 1) \<and> emitted s' (map bb_instrs (take p (cfg_blocks cfg)))
      \<and> (\<forall>b \<in> set (drop p (cfg_blocks cfg)). bb_instrs b = [])
      \<and> (\<forall>b \<in> set (cfg_blocks cfg). \<forall>phi \<in> set (bb_phis b). \<forall>cv \<in> set (phi_incoming phi).
          \<exists>y. fit s' y \<and> vm_find y (phi_reg phi) = Some (snd cv))"
proof -
  obtain st where st: "initial_rec_state (entry_vpc config) = (0, st)" using initial_bfs by blast
  with assms(1) obtain st' where loop: "recover_loop orc config entry_state 0 st s = Some (st', s')"
    and cfg: "cfg = finish_cfg config entry_state 0 st'"
    by (auto simp: recover_def elim!: bind_SomeE)
  from served_loop [OF loop served_initial [OF st assms(2,3)] assms(4)] obtain vs p where inv: "served vs p st' s'" by blast
  then have bfs: "table_inv vs st'" "p \<le> length vs" "length (cfg_blocks (r_cfg st')) = length vs"
    and rest: "p \<le> k \<Longrightarrow> k < length vs \<Longrightarrow> cfg_blocks (r_cfg st') ! k = fresh_block (vs ! k) k" for k
    by (auto simp: served_def bfs_inv_def table_inv_def)
  have same: "map bb_instrs (cfg_blocks cfg) = map bb_instrs (cfg_blocks (r_cfg st'))"
    using finish_cfg_nth(6) [OF _ plain] by (intro nth_equalityI) (simp_all add: cfg)
  then have "emitted s' (map bb_instrs (take p (cfg_blocks cfg)))"
    using inv by (simp add: served_def take_map [symmetric])
  moreover have "bb_instrs b = []" if "b \<in> set (drop p (cfg_blocks cfg))" for b
  proof -
    from that obtain i where i: "i < length (cfg_blocks cfg) - p" "b = cfg_blocks cfg ! (p + i)"
      by (auto simp: in_set_conv_nth)
    define k where "k = p + i"
    with i have k: "p \<le> k" "k < length (cfg_blocks cfg)" "b = cfg_blocks cfg ! k" by simp_all
    then have "bb_instrs b = map bb_instrs (cfg_blocks cfg) ! k" by simp
    with k rest [of k] bfs(3) show ?thesis unfolding same by (simp add: cfg fresh_block_def)
  qed
  moreover have "\<exists>y. fit s' y \<and> vm_find y (phi_reg phi) = Some (snd cv)"
    if "b \<in> set (cfg_blocks cfg)" "phi \<in> set (bb_phis b)" "cv \<in> set (phi_incoming phi)" for b phi cv
  proof -
    note here = that
    have "b \<in> set (add_phis st' (tracked_names config st') (cfg_blocks (r_cfg st')) (max_result_id (r_cfg st') + 1))"
      using that(1) plain by (auto simp: cfg finish_cfg_def Let_def)
    moreover have "\<forall>b \<in> set (cfg_blocks (r_cfg st')). bb_phis b = []" using bfs(1) by (simp add: table_inv_def)
    ultimately obtain c where "phi_pairs (incoming_of st' c) (phi_reg phi) = Some (phi_incoming phi)"
      using here(2) add_phis_find by blast
    from phi_pairs_find [OF this here(3)] inv show ?thesis by (auto simp: served_def)
  qed
  moreover have "int p \<le> max 0 (max_blocks config + 1)" using inv by (simp only: served_def)
  ultimately show ?thesis using bfs(2,3) by (intro exI [of _ p]) (simp add: cfg)
qed

end

text \<open>An oracle that always answers when it is used as intended.\<close>

locale answering_contract = segment_contract +
  assumes answers: "\<lbrakk>emitted s ls; fit s x; int (length ls) \<le> max_blocks config\<rbrakk> \<Longrightarrow> orc s v x \<noteq> None"
begin

lemma loop_answers:
  "\<lbrakk>served vs p st s; max_blocks config < 2 ^ 31\<rbrakk> \<Longrightarrow> \<exists>r. recover_loop orc config entry_state 0 st s = Some r"
proof (induction "pending st" arbitrary: vs p st s rule: less_induct)
  case less
  show ?case
  proof (cases "running config st")
    case False
    then show ?thesis by (subst recover_loop.simps) simp
  next
    case True
    note f = running_facts [OF less.prems(1) True less.prems(2)]
    have bfs: "bfs_inv orc config entry_state vs p st"
      and em: "emitted s (map bb_instrs (take p (cfg_blocks (r_cfg st))))" using less.prems(1) by (simp_all add: served_def)
    have len: "int (length (map bb_instrs (take p (cfg_blocks (r_cfg st))))) \<le> max_blocks config" using f(3) by simp
    from recover_step_defined [OF bfs f(1,2) answers [OF em served_input [OF less.prems(1) f(1)] len]]
    obtain st1 s1 where step: "recover_step orc config entry_state 0 st s = Some (st1, s1)" by fastforce
    from served_step [OF less.prems(1) True less.prems(2) step] obtain ws where "served (vs @ ws) (Suc p) st1 s1" ..
    moreover have "pending st1 < pending st"
      using recover_step_pending [OF step] True by (simp add: running_def)
    ultimately show ?thesis using less.hyps less.prems(2) step True by (subst recover_loop.simps) simp
  qed
qed

lemma recover_answers:
  assumes "emitted s []" "fit s entry_state" "max_blocks config < 2 ^ 31"
  shows "\<exists>cfg s'. recover orc config entry_state s = Some (cfg, s')"
proof -
  obtain st where st: "initial_rec_state (entry_vpc config) = (0, st)" using initial_bfs by blast
  from loop_answers [OF served_initial [OF st assms(1,2)] assms(3)] obtain r where
    "recover_loop orc config entry_state 0 st s = Some r" ..
  with st show ?thesis by (cases r) (simp add: recover_def)
qed

end

subsection \<open>The native oracle\<close>

text \<open>The ids handed out after \<open>n\<close> instructions; the oracle's counter stands at the next one.\<close>

definition ids_upto :: "nat \<Rightarrow> u32 set" where
  "ids_upto n = (\<lambda>k. 1 + of_nat k) ` {..<n}"

definition native_fit :: "u32 \<times> u64 set \<Rightarrow> VMState \<Rightarrow> bool" where
  "native_fit s x \<longleftrightarrow> vm_refs x \<subseteq> ids_upto (unat (fst s - 1))"

text \<open>The blocks are numbered consecutively from 1, and there is room for the ones to come.\<close>

definition native_emitted :: "int \<Rightarrow> u32 \<times> u64 set \<Rightarrow> Instruction list list \<Rightarrow> bool" where
  "native_emitted mb s ls \<longleftrightarrow>
     80000 * (mb + 1) + 2 \<le> 2 ^ 32 \<and> length (concat ls) \<le> 80000 * length ls
     \<and> fst s = 1 + of_nat (length (concat ls)) \<and> refs (concat ls) \<subseteq> ids_upto (length (concat ls))
     \<and> map result_id (concat ls) = map (\<lambda>k. 1 + of_nat k) [0..<length (concat ls)]"

lemma native_oracle_run:
  assumes "native_oracle dis img base leaders s v x = Some (res, s')"
  obtains sr memory' where "lift_and_optimize_segment dis img base v x empty_memory 8000 (fst s) False (Some leaders) = Some (sr, memory')"
    "seg_instrs res = instrs (sr_func sr)" "fst s' = next_id (sr_func sr)"
    "\<forall>q \<in> set (seg_targets res). snd q = sr_exit_regs sr" "fst ` set (seg_targets res) \<union> snd s \<subseteq> snd s'"
proof -
  obtain i d where s: "s = (i, d)" by force
  from assms obtain sr memory' where run: "lift_and_optimize_segment dis img base v x empty_memory 8000 (fst s) False (Some leaders) = Some (sr, memory')"
    by (auto simp: native_oracle_def s elim!: bind_SomeE)
  with assms show thesis
    by (intro that [OF run])
      (auto simp: native_oracle_def s Let_def seg_targets_def default_segment_def split: SegStop.splits option.splits)
qed

lemma native_step:
  assumes em: "native_emitted mb s ls" and fit: "native_fit s x" and len: "int (length ls) \<le> mb"
  shows "bounds_ok (segment_bounds (fst s) 8000 (ids_upto (length (concat ls))))"
    "vm_refs x \<subseteq> ids_upto (length (concat ls))" "length (concat ls) + 80000 + 1 < 2 ^ 32"
proof -
  let ?n = "length (concat ls)"
  have "int ?n \<le> 80000 * int (length ls)" using em by (simp add: native_emitted_def)
  with len em have "int ?n + 80000 + 1 < 2 ^ 32" by (simp add: native_emitted_def)
  then show room: "?n + 80000 + 1 < 2 ^ 32" by simp
  have n: "unat (fst s - 1) = ?n" using em room by (simp add: native_emitted_def unat_of_nat)
  with fit show "vm_refs x \<subseteq> ids_upto ?n" by (simp add: native_fit_def)
  have "fst s + of_nat k \<notin> ids_upto ?n" if "k < 80000" for k
  proof
    assume "fst s + of_nat k \<in> ids_upto ?n"
    then obtain j where j: "j < ?n" "(1 :: u32) + of_nat (?n + k) = 1 + of_nat j"
      using em by (auto simp: ids_upto_def native_emitted_def algebra_simps)
    then have "(of_nat (?n + k) :: u32) = of_nat j" by simp
    with j(1) room that show False using of_nat_u32_inject [of "?n + k" j] by simp
  qed
  then show "bounds_ok (segment_bounds (fst s) 8000 (ids_upto ?n))"
    by (simp add: bounds_ok_def segment_bounds_def)
qed

lemma ids_upto_add: "ids_upto n \<union> (\<lambda>k. 1 + of_nat n + of_nat k) ` {..<m} = ids_upto (n + m)"
proof -
  have "(\<lambda>k. 1 + of_nat n + of_nat k :: u32) ` {..<m} = (\<lambda>k. 1 + of_nat k) ` {n..<n + m}"
  proof -
    have "{n..<n + m} = (\<lambda>k. n + k) ` {..<m}"
      using image_add_atLeastLessThan [of n 0 m] by (simp add: lessThan_atLeast0 add.commute)
    then show ?thesis by (simp add: image_image algebra_simps)
  qed
  moreover have "{..<n} \<union> {n..<n + m} = {..<n + m}" by auto
  ultimately show ?thesis by (simp add: ids_upto_def image_Un [symmetric])
qed

lemma native_keeps:
  assumes em: "native_emitted mb s ls" and fit: "native_fit s x" and len: "int (length ls) \<le> mb"
    and run: "native_oracle dis img base leaders s v x = Some (res, s')"
  shows "native_emitted mb s' (ls @ [seg_instrs res]) \<and> (\<forall>y. native_fit s y \<longrightarrow> native_fit s' y)
    \<and> (\<forall>q \<in> set (seg_targets res). native_fit s' (snd q))"
proof -
  let ?n = "length (concat ls)"
  note st = native_step [OF em fit len]
  obtain sr memory' where sr: "lift_and_optimize_segment dis img base v x empty_memory 8000 (fst s) False (Some leaders) = Some (sr, memory')"
    "seg_instrs res = instrs (sr_func sr)" "fst s' = next_id (sr_func sr)"
    "\<forall>q \<in> set (seg_targets res). snd q = sr_exit_regs sr"
    by (rule native_oracle_run [OF run])
  let ?m = "length (instrs (sr_func sr))"
  note ok = segment_lift_ok [OF sr(1) st(1,2)]
  have s: "fst s = 1 + of_nat ?n" using em by (simp add: native_emitted_def)
  from ok have l: "?m \<le> 80000" "next_id (sr_func sr) = 1 + of_nat (?n + ?m)"
    "map result_id (instrs (sr_func sr)) = map (\<lambda>k. 1 + of_nat ?n + of_nat k) [0..<?m]"
    by (simp_all add: lift_ok_def segment_bounds_def s)
  have "vm_refs (sr_exit_regs sr) \<subseteq> ids_upto ?n \<union> (\<lambda>k. 1 + of_nat ?n + of_nat k) ` {..<?m}"
    using lift_ok_refs(1) [OF conjunct1 [OF ok]] by (simp add: known_ids_def segment_bounds_def s)
  then have exit: "vm_refs (sr_exit_regs sr) \<subseteq> ids_upto (?n + ?m)" by (simp add: ids_upto_add)
  have "refs (instrs (sr_func sr)) \<subseteq> ids_upto ?n \<union> (\<lambda>k. 1 + of_nat ?n + of_nat k) ` {..<?m}"
    using lift_ok_refs(2) [OF conjunct1 [OF ok]] by (simp add: known_ids_def segment_bounds_def s)
  then have refs: "refs (instrs (sr_func sr)) \<subseteq> ids_upto (?n + ?m)" by (simp add: ids_upto_add)
  have n: "unat (fst s - 1) = ?n" "unat (fst s' - 1) = ?n + ?m"
  proof -
    have small: "unat (of_nat N :: u32) = N" if "N < 2 ^ 32" for N using that by (simp add: unat_of_nat)
    have "fst s - 1 = of_nat ?n" "fst s' - 1 = of_nat (?n + ?m)" using s sr(3) l(2) by simp_all
    moreover have "?n < 2 ^ 32" "?n + ?m < 2 ^ 32" using st(3) l(1) by linarith+
    ultimately show "unat (fst s - 1) = ?n" "unat (fst s' - 1) = ?n + ?m" using small by metis+
  qed
  have "map result_id (concat (ls @ [seg_instrs res])) = map (\<lambda>k. 1 + of_nat k) [0..<?n + ?m]"
  proof -
    have "map (\<lambda>k. 1 + of_nat ?n + of_nat k :: u32) [0..<?m] = map (\<lambda>k. 1 + of_nat k) [?n..<?n + ?m]"
      by (rule nth_equalityI) (simp_all add: algebra_simps)
    with em l(3) sr(2) show ?thesis
      by (simp add: native_emitted_def upt_add_eq_append [of 0 ?n ?m, simplified])
  qed
  note ids = this
  have len': "length (concat (ls @ [seg_instrs res])) = ?n + ?m" by (simp add: sr(2))
  have bound: "?n + ?m \<le> 80000 * length (ls @ [seg_instrs res])"
    using em l(1) by (simp add: native_emitted_def)
  have mono: "ids_upto ?n \<subseteq> ids_upto (?n + ?m)" by (auto simp: ids_upto_def)
  have "refs (concat (ls @ [seg_instrs res])) = refs (concat ls) \<union> refs (seg_instrs res)" by auto
  moreover have "refs (concat ls) \<subseteq> ids_upto ?n" using em by (simp only: native_emitted_def)
  ultimately have "refs (concat (ls @ [seg_instrs res])) \<subseteq> ids_upto (?n + ?m)"
    using mono refs unfolding sr(2) by blast
  with ids len' bound have "native_emitted mb s' (ls @ [seg_instrs res])"
    using em sr(3) l(2) unfolding native_emitted_def len' by simp
  with mono show ?thesis using exit sr(4) by (auto simp: native_fit_def n)
qed

lemma native_answers:
  assumes "no_risky_code decode" "native_emitted mb s ls" "native_fit s x" "int (length ls) \<le> mb"
  shows "native_oracle (Some decode) img base leaders s v x \<noteq> None"
proof -
  note st = native_step [OF assms(2-4)]
  obtain i d where s: "s = (i, d)" by force
  from segment_defined [OF assms(1) st(1,2), of img base v empty_memory False "Some leaders"]
  obtain sr memory' where
    "lift_and_optimize_segment (Some decode) img base v x empty_memory 8000 i False (Some leaders) = Some (sr, memory')"
    by (auto simp: s)
  then show ?thesis by (simp add: native_oracle_def s Let_def)
qed

lemma native_config_sel [simp]:
  "max_blocks (native_config e mb) = mb" "entry_vpc (native_config e mb) = e"
  "tracked_regs (native_config e mb) = []" "\<not> full_ssa (native_config e mb)"
  by (simp_all add: native_config_def)

interpretation native: segment_contract "native_oracle dis img base leaders" "native_config entry mb" "[]"
    native_fit "native_emitted mb" for dis img base leaders entry mb
proof unfold_locales
  fix s ls x v res s'
  assume "native_emitted mb s ls" "native_fit s x" "int (length ls) \<le> max_blocks (native_config entry mb)"
    "native_oracle dis img base leaders s v x = Some (res, s')"
  then show "native_emitted mb s' (ls @ [seg_instrs res]) \<and> (\<forall>y. native_fit s y \<longrightarrow> native_fit s' y)
    \<and> (\<forall>q \<in> set (seg_targets res). native_fit s' (snd q))"
    by (intro native_keeps) simp_all
qed simp

interpretation native_safe: answering_contract "native_oracle (Some decode) img base leaders" "native_config entry mb" "[]"
    native_fit "\<lambda>s ls. no_risky_code decode \<and> native_emitted mb s ls" for decode img base leaders entry mb
proof unfold_locales
  fix s ls x v
  assume *: "no_risky_code decode \<and> native_emitted mb s ls" "native_fit s x"
    "int (length ls) \<le> max_blocks (native_config entry mb)"
  then show "native_oracle (Some decode) img base leaders s v x \<noteq> None"
    by (intro native_answers) simp_all
  fix res s'
  assume "native_oracle (Some decode) img base leaders s v x = Some (res, s')"
  with * native_keeps [of mb s ls x] show "(no_risky_code decode \<and> native_emitted mb s' (ls @ [seg_instrs res]))
    \<and> (\<forall>y. native_fit s y \<longrightarrow> native_fit s' y) \<and> (\<forall>q \<in> set (seg_targets res). native_fit s' (snd q))"
    by simp
qed simp

subsection \<open>The recovered graph\<close>

definition block_code :: "CFGFunction \<Rightarrow> Instruction list" where
  "block_code cfg = concat (map bb_instrs (cfg_blocks cfg))"

definition phi_refs :: "CFGFunction \<Rightarrow> u32 set" where
  "phi_refs cfg = (\<Union>b \<in> set (cfg_blocks cfg). \<Union>phi \<in> set (bb_phis b). \<Union>cv \<in> set (phi_incoming phi). val_refs (snd cv))"

definition numbered_code :: "CFGFunction \<Rightarrow> bool" where
  "numbered_code cfg \<longleftrightarrow> length (block_code cfg) < 2 ^ 32
     \<and> map result_id (block_code cfg) = map (\<lambda>k. 1 + of_nat k) [0..<length (block_code cfg)]
     \<and> refs (block_code cfg) \<union> phi_refs cfg \<subseteq> ids (block_code cfg)"

lemma ids_upto_code:
  "map result_id is = map (\<lambda>k. 1 + of_nat k) [0..<length is] \<Longrightarrow> ids_upto (length is) = ids is"
proof -
  assume "map result_id is = map (\<lambda>k. 1 + of_nat k) [0..<length is]"
  then have "set (map result_id is) = (\<lambda>k. 1 + of_nat k) ` {..<length is}" by (simp add: lessThan_atLeast0)
  then show ?thesis by (simp add: ids_upto_def)
qed

lemma vm_find_refs: "vm_find y n = Some v \<Longrightarrow> val_refs v \<subseteq> vm_refs y"
  by (force simp: vm_find_def vm_refs_def dest: map_of_SomeD)

lemma native_pass_numbered:
  assumes run: "recover (native_oracle dis img base leaders) (native_config entry mb) [] (1, L) = Some (cfg, s')"
    and room: "80000 * (mb + 1) + 2 \<le> 2 ^ 32"
  shows "numbered_code cfg"
proof -
  have em: "native_emitted mb (1, L) []" and fit: "native_fit (1, L) []"
    using room by (simp_all add: native_emitted_def native_fit_def vm_refs_def)
  have small: "max_blocks (native_config entry mb) < 2 ^ 31" using room by simp
  from native.recovered_blocks [OF run em fit small] obtain p where
    out: "native_emitted mb s' (map bb_instrs (take p (cfg_blocks cfg)))"
    and rest: "\<forall>b \<in> set (drop p (cfg_blocks cfg)). bb_instrs b = []"
    and p: "int p \<le> max 0 (max_blocks (native_config entry mb) + 1)"
    and phi: "\<forall>b \<in> set (cfg_blocks cfg). \<forall>phi \<in> set (bb_phis b). \<forall>cv \<in> set (phi_incoming phi).
        \<exists>y. native_fit s' y \<and> vm_find y (phi_reg phi) = Some (snd cv)" by blast
  have code: "block_code cfg = concat (map bb_instrs (take p (cfg_blocks cfg)))"
  proof -
    have "concat (map bb_instrs (drop p (cfg_blocks cfg))) = []" using rest by simp
    moreover have "cfg_blocks cfg = take p (cfg_blocks cfg) @ drop p (cfg_blocks cfg)" by simp
    ultimately show ?thesis unfolding block_code_def by (metis append_Nil2 concat_append map_append)
  qed
  note e = out [unfolded native_emitted_def, folded code]
  let ?n = "length (block_code cfg)"
  have "length (take p (cfg_blocks cfg)) \<le> p" by simp
  then have "int ?n \<le> 80000 * int p" using e by (simp add: min_def split: if_splits)
  with p room have n: "?n < 2 ^ 32" by (simp add: max_def split: if_splits)
  have known: "ids_upto ?n = ids (block_code cfg)" using e by (intro ids_upto_code) simp
  have "unat (fst s' - 1) = ?n" using e n by (simp add: unat_of_nat)
  then have "vm_refs y \<subseteq> ids_upto ?n" if "native_fit s' y" for y using that by (simp add: native_fit_def)
  then have "phi_refs cfg \<subseteq> ids_upto ?n"
    using phi vm_find_refs unfolding phi_refs_def by (intro UN_least) blast
  with e n show ?thesis unfolding numbered_code_def known [symmetric] by blast
qed

lemma native_passes_numbered:
  assumes "native_passes dis img base entry mb n leaders cfg0 = Some cfg" "80000 * (mb + 1) + 2 \<le> 2 ^ 32"
    "numbered_code cfg0"
  shows "numbered_code cfg"
  using assms
proof (induction n arbitrary: leaders cfg0)
  case (Suc n)
  from Suc.prems(1) obtain c i d where c: "recover (native_oracle dis img base leaders) (native_config entry mb) [] (1, leaders) = Some (c, (i, d))"
    "(if card d = card leaders then Some c else native_passes dis img base entry mb n d c) = Some cfg"
    by (auto elim!: bind_SomeE)
  note numbered = native_pass_numbered [OF c(1) Suc.prems(2)]
  show ?case
  proof (cases "card d = card leaders")
    case True
    with c(2) numbered show ?thesis by simp
  next
    case False
    with c(2) Suc.IH [OF _ Suc.prems(2) numbered] show ?thesis by simp
  qed
qed simp

lemma native_passes_answer:
  assumes "no_risky_code decode" "80000 * (mb + 1) + 2 \<le> 2 ^ 32"
  shows "\<exists>cfg. native_passes (Some decode) img base entry mb n leaders cfg0 = Some cfg"
proof (induction n arbitrary: leaders cfg0)
  case (Suc n)
  have "native_emitted mb (1, leaders) []" "native_fit (1, leaders) []"
    using assms(2) by (simp_all add: native_emitted_def native_fit_def vm_refs_def)
  moreover have "max_blocks (native_config entry mb) < 2 ^ 31" using assms(2) by simp
  ultimately obtain c s' where
    "recover (native_oracle (Some decode) img base leaders) (native_config entry mb) [] (1, leaders) = Some (c, s')"
    using native_safe.recover_answers [of decode mb "(1, leaders)" entry img base leaders] assms(1) by blast
  with Suc show ?case by (cases s') simp
qed simp

text \<open>The stack rewrite at the end only annotates.\<close>

lemma stack_rewrite_blocks_eq:
  "stack_rewrite_blocks bs =
     (if list_ex (\<lambda>b. list_ex (overflows 0x7FFFFFFFD000) (bb_instrs b)) bs then None
      else Some (map (\<lambda>b. b\<lparr>bb_instrs := map (mark_stack 0x7FFFFFFFD000) (bb_instrs b)\<rparr>) bs))"
  by (induction bs) (auto simp: stack_rewrite_blocks_def stack_rewrite_instrs_spec)

lemma stack_rewrite_numbered:
  assumes "stack_rewrite_blocks (cfg_blocks cfg) = Some bs" "numbered_code cfg"
  shows "numbered_code (cfg\<lparr>cfg_blocks := bs\<rparr>)"
proof -
  let ?m = "mark_stack 0x7FFFFFFFD000"
  from assms(1) have bs: "bs = map (\<lambda>b. b\<lparr>bb_instrs := map ?m (bb_instrs b)\<rparr>) (cfg_blocks cfg)"
    by (simp add: stack_rewrite_blocks_eq split: if_splits)
  have code: "block_code (cfg\<lparr>cfg_blocks := bs\<rparr>) = map ?m (block_code cfg)"
    by (simp add: block_code_def bs map_concat o_def)
  have "map result_id (map ?m is) = map result_id is" "refs (map ?m is) = refs is" "ids (map ?m is) = ids is" for "is"
    by (simp_all add: o_def image_image ref_ids_def)
  moreover have "phi_refs (cfg\<lparr>cfg_blocks := bs\<rparr>) = phi_refs cfg" by (simp add: phi_refs_def bs)
  ultimately show ?thesis using assms(2) by (simp only: numbered_code_def code length_map)
qed

lemma numbered_distinct: "numbered_code cfg \<Longrightarrow> distinct (map result_id (block_code cfg))"
proof -
  assume n: "numbered_code cfg"
  have "inj_on (\<lambda>k. 1 + of_nat k :: u32) {..<length (block_code cfg)}"
    using n of_nat_u32_inject by (intro inj_onI) (auto simp: numbered_code_def)
  with n show ?thesis by (simp add: numbered_code_def distinct_map lessThan_atLeast0)
qed

subsection \<open>Properties\<close>


lemma jump_pass_1:
  "map_option (\<lambda>(c, (i, d)). (d = {0, 8}, card d))
     (recover (native_oracle (Some jump_code) jump_image 0 {0}) (native_config 0 64) [] (1, {0}))
   = Some (True, 2)"
  by code_simp

lemma jump_pass_2:
  "map_option (\<lambda>(c, (i, d)). (map (\<lambda>b. map (\<lambda>i. (op i, operands i, result_id i)) (bb_instrs b)) (cfg_blocks c), card d))
     (recover (native_oracle (Some jump_code) jump_image 0 {0, 8}) (native_config 0 64) [] (1, {0, 8}))
   = Some ([[(Op_CONST, [Const64 8], 1), (Op_JMP, [Const64 8], 2)], []], 2)"
  by code_simp


end
