(* ===== verification/VM_Recovery.thy ===== *)
theory VM_Recovery
  imports Closed_Code Native_Recovery
begin

section \<open>Recovering the graph of a virtual machine's program (src/eval/segment_eval.cpp)\<close>

text \<open>
  Each virtual program counter gets a block: a fresh guided evaluator runs from the dispatcher with the
  counter in its register until the virtual machine leaves, or until the next counter depends on a
  condition. The code of every run is renumbered into one range of ids.
\<close>

subsection \<open>Renumbering\<close>

text \<open>The hash map from old to new ids is a map; \<^verbatim>\<open>idmap[in.result_id]\<close> would add a zero for an id
  that is not there.\<close>

fun assign_ids :: "Instruction list \<Rightarrow> (u32 \<rightharpoonup> u32) \<Rightarrow> u32 \<Rightarrow> (u32 \<rightharpoonup> u32) \<times> u32" where
  "assign_ids [] idmap nid = (idmap, nid)"
| "assign_ids (i # is) idmap nid = assign_ids is (idmap(result_id i \<mapsto> nid)) (nid + 1)"

definition remap_value :: "(u32 \<rightharpoonup> u32) \<Rightarrow> Value \<Rightarrow> Value" where
  "remap_value idmap v =
     (case get_instrref v of
        Some r \<Rightarrow> (case idmap r of Some n \<Rightarrow> InstrRef n | None \<Rightarrow> v)
      | None \<Rightarrow> v)"

definition renumber :: "(u32 \<rightharpoonup> u32) \<Rightarrow> Instruction \<Rightarrow> Instruction" where
  "renumber idmap i =
     i\<lparr>result_id := (case idmap (result_id i) of Some n \<Rightarrow> n | None \<Rightarrow> 0),
       operands := map (remap_value idmap) (operands i)\<rparr>"

definition append_renumbered ::
  "Instruction list \<Rightarrow> Instruction list \<Rightarrow> u32 \<Rightarrow> Instruction list \<times> (u32 \<rightharpoonup> u32) \<times> u32" where
  "append_renumbered dst src nid =
     (let (idmap, nid) = assign_ids src Map.empty nid
      in (dst @ map (renumber idmap) src, idmap, nid))"

definition vpc_lbl :: "u64 \<Rightarrow> string" where
  "vpc_lbl vpc = os_str [Str ''vpc_0x'', Hex, Num (unat vpc)]"

subsection \<open>A segment\<close>

datatype VmKind = Vm_Ret | Vm_Branch | Vm_Unresolved

record VmSegment =
  vs_kind :: VmKind
  vs_instrs :: "Instruction list"
  vs_dispatcher_va :: u64
  vs_condition :: "Value option"
  vs_vpc_taken :: "u64 option"
  vs_vpc_not_taken :: "u64 option"

definition segment_evaluator ::
  "u8 list \<Rightarrow> u64 \<Rightarrow> string \<Rightarrow> VMState \<Rightarrow> (u64 \<times> u64) list \<Rightarrow> GuidedEvaluator" where
  "segment_evaluator img base reg inject ranges =
     (let ev = foldl (\<lambda>ev (s, e). guided_safe_range s e ev) (new_evaluator img base reg) ranges
      in if inject \<noteq> [] then set_initial_regs inject ev else ev)"

text \<open>The last select of the code stands for the virtual conditional jump.\<close>

definition last_select :: "Instruction list \<Rightarrow> Instruction option" where
  "last_select is = find (\<lambda>i. op i = Op_SELECT) (rev is)"

definition run_vm_segment ::
  "disassembler \<Rightarrow> u8 list \<Rightarrow> u64 \<Rightarrow> string \<Rightarrow> u64 \<Rightarrow> VMState \<Rightarrow> (u64 \<times> u64) list \<Rightarrow> int \<Rightarrow> int \<Rightarrow> VmSegment option" where
  "run_vm_segment dis img base reg start_va inject ranges max_steps max_vm_insns =
     do { (rep, ev) \<leftarrow> guided_run dis start_va max_steps max_vm_insns (segment_evaluator img base reg inject ranges);
          let f = ge_func ev;
          let seg = \<lparr>vs_kind = Vm_Unresolved, vs_instrs = instrs f, vs_dispatcher_va = er_stop_va rep,
                     vs_condition = None, vs_vpc_taken = None, vs_vpc_not_taken = None\<rparr>;
          if er_result rep = VMEXIT_RET \<or> er_result rep = RET then Some (seg\<lparr>vs_kind := Vm_Ret\<rparr>)
          else if er_result rep = UNRESOLVED_TARGET then
            (case last_select (instrs f) of
               Some sel \<Rightarrow>
                 if length (operands sel) = 3 then
                   do { tg \<leftarrow> extract_vjcc_targets f (ref sel) (operands sel ! 0);
                        Some (case tg of
                                Some (t, n) \<Rightarrow>
                                  seg\<lparr>vs_kind := Vm_Branch, vs_condition := Some (operands sel ! 0),
                                      vs_vpc_taken := Some t, vs_vpc_not_taken := Some n\<rparr>
                              | None \<Rightarrow> seg) }
                 else Some seg
             | None \<Rightarrow> Some seg)
          else Some seg }"

subsection \<open>The loop\<close>

record VmWork =
  vw_key :: u64
  vw_start_va :: u64
  vw_inject :: VMState
  vw_bid :: u32

record vm_state =
  vr_cfg :: CFGFunction
  vr_vpc_to_block :: "u64 \<rightharpoonup> u32"
  vr_next_id :: u32
  vr_dispatcher_va :: u64
  vr_worklist :: "VmWork list"
  vr_processed :: "u64 set"

definition vm_get_block :: "u64 \<Rightarrow> string \<Rightarrow> vm_state \<Rightarrow> u32 \<times> vm_state" where
  "vm_get_block vpc lbl st =
     (case vr_vpc_to_block st vpc of
        Some b \<Rightarrow> (b, st)
      | None \<Rightarrow>
          (let (b, cfg) = add_block (vr_cfg st) lbl
           in (b, st\<lparr>vr_cfg := cfg, vr_vpc_to_block := (vr_vpc_to_block st)(vpc \<mapsto> b)\<rparr>)))"

definition vm_push :: "string \<Rightarrow> u64 \<Rightarrow> u32 \<Rightarrow> vm_state \<Rightarrow> vm_state" where
  "vm_push reg vpc b st =
     (if vpc \<in> vr_processed st then st
      else st\<lparr>vr_worklist := vr_worklist st @
             [\<lparr>vw_key = vpc, vw_start_va = vr_dispatcher_va st, vw_inject = [(reg, Const64 vpc)], vw_bid = b\<rparr>]\<rparr>)"

text \<open>The two successors of a branch: their blocks, edges and work.\<close>

definition vm_branch :: "string \<Rightarrow> u32 \<Rightarrow> u64 \<Rightarrow> u64 \<Rightarrow> vm_state \<Rightarrow> Terminator \<times> vm_state" where
  "vm_branch reg bid taken not_taken st =
     (let tback = taken \<in> vr_processed st;
          fback = not_taken \<in> vr_processed st;
          (t, st) = vm_get_block taken (vpc_lbl taken) st;
          (f, st) = vm_get_block not_taken (vpc_lbl not_taken) st;
          st = st\<lparr>vr_cfg := add_edge (add_edge (vr_cfg st) bid t tback) bid f fback\<rparr>;
          st = vm_push reg not_taken f (vm_push reg taken t st)
      in (default_term\<lparr>term_kind := Term_CJMP, term_target := Some t, term_fallthrough := Some f\<rparr>, st))"

definition vm_successors :: "string \<Rightarrow> u32 \<Rightarrow> VmSegment \<Rightarrow> vm_state \<Rightarrow> Terminator \<times> vm_state" where
  "vm_successors reg bid seg st =
     (case (vs_kind seg, vs_vpc_taken seg, vs_vpc_not_taken seg) of
        (Vm_Ret, _, _) \<Rightarrow> (default_term\<lparr>term_kind := Term_RET\<rparr>, st)
      | (Vm_Branch, Some t, Some n) \<Rightarrow> vm_branch reg bid t n st
      | _ \<Rightarrow> (default_term, st))"

text \<open>The code of the segment becomes the code of its block.\<close>

definition vm_assemble :: "u32 \<Rightarrow> VmSegment \<Rightarrow> Terminator \<Rightarrow> vm_state \<Rightarrow> vm_state option" where
  "vm_assemble bid seg term st =
     do { bb \<leftarrow> block_by_id (vr_cfg st) bid;
          let (is, idmap, nid) = append_renumbered (bb_instrs bb) (vs_instrs seg) (vr_next_id st);
          let term = (case vs_condition seg of
                        Some c \<Rightarrow> term\<lparr>term_condition := Some (remap_value idmap c)\<rparr> | None \<Rightarrow> term);
          cfg \<leftarrow> update_block (vr_cfg st) bid (\<lambda>bb. bb\<lparr>bb_instrs := is, bb_term := term\<rparr>);
          Some (st\<lparr>vr_cfg := cfg, vr_next_id := nid\<rparr>) }"

definition vm_step ::
  "disassembler \<Rightarrow> u8 list \<Rightarrow> u64 \<Rightarrow> string \<Rightarrow> (u64 \<times> u64) list \<Rightarrow> vm_state \<Rightarrow> vm_state option" where
  "vm_step dis img base reg ranges st =
     (case vr_worklist st of
        [] \<Rightarrow> Some st
      | w # ws \<Rightarrow>
          (let st = st\<lparr>vr_worklist := ws\<rparr>
           in if vw_key w \<in> vr_processed st then Some st
              else
                do { let st = st\<lparr>vr_processed := insert (vw_key w) (vr_processed st)\<rparr>;
                     seg \<leftarrow> run_vm_segment dis img base reg (vw_start_va w) (vw_inject w) ranges 50000 2000;
                     let st = (if vr_dispatcher_va st = 0 \<and> vs_dispatcher_va seg \<noteq> 0
                               then st\<lparr>vr_dispatcher_va := vs_dispatcher_va seg\<rparr> else st);
                     let (term, st) = vm_successors reg (vw_bid w) seg st;
                     vm_assemble (vw_bid w) seg term st }))"

definition vm_running :: "int \<Rightarrow> vm_state \<Rightarrow> bool" where
  "vm_running max_blks st \<longleftrightarrow> vr_worklist st \<noteq> [] \<and> int (length (cfg_blocks (vr_cfg st))) \<le> max_blks"

lemma vm_get_block_frame [simp]:
  "vr_processed (snd (vm_get_block v l st)) = vr_processed st" "vr_worklist (snd (vm_get_block v l st)) = vr_worklist st"
  "vr_next_id (snd (vm_get_block v l st)) = vr_next_id st" "vr_dispatcher_va (snd (vm_get_block v l st)) = vr_dispatcher_va st"
  by (simp_all add: vm_get_block_def split: option.split prod.split)

lemma vm_push_frame [simp]:
  "vr_processed (vm_push r v b st) = vr_processed st" "vr_cfg (vm_push r v b st) = vr_cfg st"
  "vr_vpc_to_block (vm_push r v b st) = vr_vpc_to_block st" "vr_next_id (vm_push r v b st) = vr_next_id st"
  "vr_dispatcher_va (vm_push r v b st) = vr_dispatcher_va st"
  by (simp_all add: vm_push_def)

lemma vm_branch_frame [simp]:
  "vr_processed (snd (vm_branch reg bid t n st)) = vr_processed st" "vr_next_id (snd (vm_branch reg bid t n st)) = vr_next_id st"
  "vr_dispatcher_va (snd (vm_branch reg bid t n st)) = vr_dispatcher_va st"
  by (simp_all add: vm_branch_def Let_def case_prod_unfold)

lemma vm_successors_frame [simp]:
  "vr_processed (snd (vm_successors reg bid seg st)) = vr_processed st"
  "vr_next_id (snd (vm_successors reg bid seg st)) = vr_next_id st"
  "vr_dispatcher_va (snd (vm_successors reg bid seg st)) = vr_dispatcher_va st"
  by (simp_all add: vm_successors_def split: VmKind.split option.split)

lemma vm_assemble_frame:
  "vm_assemble bid seg t st = Some st' \<Longrightarrow> vr_processed st' = vr_processed st \<and> vr_worklist st' = vr_worklist st
     \<and> vr_dispatcher_va st' = vr_dispatcher_va st"
  by (auto simp: vm_assemble_def Let_def elim!: bind_SomeE split: prod.splits)

lemma vm_step_cases:
  assumes "vm_step dis img base reg ranges st = Some st'" "vr_worklist st = w # ws"
  obtains (skip) "vw_key w \<in> vr_processed st" "st' = st\<lparr>vr_worklist := ws\<rparr>"
  | (run) seg st1 where "vw_key w \<notin> vr_processed st"
      "run_vm_segment dis img base reg (vw_start_va w) (vw_inject w) ranges 50000 2000 = Some seg"
      "st1 = st\<lparr>vr_worklist := ws, vr_processed := insert (vw_key w) (vr_processed st),
         vr_dispatcher_va := (if vr_dispatcher_va st = 0 then vs_dispatcher_va seg else vr_dispatcher_va st)\<rparr>"
      "vm_assemble (vw_bid w) seg (fst (vm_successors reg (vw_bid w) seg st1)) (snd (vm_successors reg (vw_bid w) seg st1)) = Some st'"
proof (cases "vw_key w \<in> vr_processed st")
  case True
  with assms show thesis by (intro skip) (simp_all add: vm_step_def)
next
  case False
  let ?st = "st\<lparr>vr_worklist := ws, vr_processed := insert (vw_key w) (vr_processed st)\<rparr>"
  from False assms obtain seg where seg: "run_vm_segment dis img base reg (vw_start_va w) (vw_inject w) ranges 50000 2000 = Some seg"
    and rest: "(let st = (if vr_dispatcher_va ?st = 0 \<and> vs_dispatcher_va seg \<noteq> 0
                  then ?st\<lparr>vr_dispatcher_va := vs_dispatcher_va seg\<rparr> else ?st);
               (term, st) = vm_successors reg (vw_bid w) seg st
           in vm_assemble (vw_bid w) seg term st) = Some st'"
    by (auto simp: vm_step_def Let_def elim!: bind_SomeE)
  have "(if vr_dispatcher_va ?st = 0 \<and> vs_dispatcher_va seg \<noteq> 0 then ?st\<lparr>vr_dispatcher_va := vs_dispatcher_va seg\<rparr> else ?st)
      = ?st\<lparr>vr_dispatcher_va := (if vr_dispatcher_va st = 0 then vs_dispatcher_va seg else vr_dispatcher_va st)\<rparr>"
    by simp
  from run [OF False seg refl] rest [unfolded this Let_def case_prod_unfold] show thesis by simp
qed

lemma vm_step_decreases:
  assumes "vm_step dis img base reg ranges st = Some st'" "vr_worklist st \<noteq> []"
  shows "card (- vr_processed st') < card (- vr_processed st)
    \<or> vr_processed st' = vr_processed st \<and> length (vr_worklist st') < length (vr_worklist st)"
proof -
  from assms(2) obtain w ws where wl: "vr_worklist st = w # ws" by (cases "vr_worklist st") auto
  from assms(1) wl show ?thesis
  proof (cases rule: vm_step_cases)
    case skip
    with wl show ?thesis by simp
  next
    case (run seg st1)
    have "vr_processed st' = insert (vw_key w) (vr_processed st)"
      using vm_assemble_frame [OF run(4)] by (simp add: run(3))
    moreover have "- insert (vw_key w) (vr_processed st) \<subset> - vr_processed st" using run(1) by blast
    then have "card (- insert (vw_key w) (vr_processed st)) < card (- vr_processed st)" by (simp add: psubset_card_mono)
    ultimately show ?thesis by simp
  qed
qed

function vm_loop ::
  "disassembler \<Rightarrow> u8 list \<Rightarrow> u64 \<Rightarrow> string \<Rightarrow> (u64 \<times> u64) list \<Rightarrow> int \<Rightarrow> vm_state \<Rightarrow> vm_state option" where
  "vm_loop dis img base reg ranges max_blks st =
     (if \<not> vm_running max_blks st then Some st
      else do { st' \<leftarrow> vm_step dis img base reg ranges st;
                vm_loop dis img base reg ranges max_blks st' })"
  by pat_completeness auto
termination
  by (relation "measures [\<lambda>(d, i, b, r, sr, mb, st). card (- vr_processed st),
      \<lambda>(d, i, b, r, sr, mb, st). length (vr_worklist st)]")
    (auto simp: vm_running_def dest: vm_step_decreases)

declare vm_loop.simps [simp del]

definition vm_initial :: "u64 \<Rightarrow> vm_state" where
  "vm_initial entry_va =
     (let st = \<lparr>vr_cfg = new_cfg ''vm'', vr_vpc_to_block = Map.empty, vr_next_id = 1, vr_dispatcher_va = 0,
                vr_worklist = [], vr_processed = {}\<rparr>;
          (entry_bid, st) = vm_get_block entry_va ''entry'' st
      in st\<lparr>vr_cfg := (vr_cfg st)\<lparr>entry_block := entry_bid\<rparr>,
            vr_worklist := [\<lparr>vw_key = entry_va, vw_start_va = entry_va, vw_inject = [], vw_bid = entry_bid\<rparr>]\<rparr>)"

definition recover_vm_cfg ::
  "disassembler \<Rightarrow> u8 list \<Rightarrow> u64 \<Rightarrow> string \<Rightarrow> u64 \<Rightarrow> (u64 \<times> u64) list \<Rightarrow> int \<Rightarrow> CFGFunction option" where
  "recover_vm_cfg dis img base reg entry_va ranges max_blks =
     do { st \<leftarrow> vm_loop dis img base reg ranges max_blks (vm_initial entry_va);
          bs \<leftarrow> stack_rewrite_blocks (cfg_blocks (vr_cfg st));
          Some ((vr_cfg st)\<lparr>cfg_blocks := bs\<rparr>) }"

end
