(* ===== verification/VM_Correct.thy ===== *)
theory VM_Correct
  imports VM_Recovery "HOL-Library.Multiset"
begin

section \<open>What virtual machine recovery guarantees\<close>

subsection \<open>Renumbered code computes the same\<close>

lemma assign_ids_nid: "snd (assign_ids is m n) = n + of_nat (length is)"
  by (induction "is" arbitrary: m n) (simp_all add: algebra_simps)

lemma assign_ids_other: "j \<notin> ids is \<Longrightarrow> fst (assign_ids is m n) j = m j"
  by (induction "is" arbitrary: m n) auto

lemma assign_ids_nth:
  "distinct (map result_id is) \<Longrightarrow> k < length is \<Longrightarrow> fst (assign_ids is m n) (result_id (is ! k)) = Some (n + of_nat k)"
proof (induction "is" arbitrary: m n k)
  case (Cons i "is")
  show ?case
  proof (cases k)
    case 0
    with Cons.prems assign_ids_other [of "result_id i" "is"] show ?thesis by simp
  next
    case (Suc l)
    with Cons.IH [of l "m(result_id i \<mapsto> n)" "n + 1"] Cons.prems show ?thesis by (simp add: algebra_simps fun_upd_def)
  qed
qed simp

text \<open>The renaming is defined on the ids of the code, and one-to-one while the 32-bit counter does not
  come round.\<close>

definition renames :: "(u32 \<rightharpoonup> u32) \<Rightarrow> u32 set \<Rightarrow> bool" where
  "renames m D \<longleftrightarrow> D \<subseteq> dom m \<and> inj_on (\<lambda>j. the (m j)) D"

lemma assign_ids_renames:
  assumes "distinct (map result_id is)" "length is \<le> 2 ^ 32"
  shows "renames (fst (assign_ids is m n)) (ids is)"
proof -
  let ?m = "fst (assign_ids is m n)"
  have at: "\<exists>k < length is. j = result_id (is ! k) \<and> ?m j = Some (n + of_nat k)" if "j \<in> ids is" for j
  proof -
    from that obtain k where "k < length is" "j = result_id (is ! k)" by (auto simp: in_set_conv_nth)
    with assign_ids_nth [OF assms(1), of k m n] show ?thesis by blast
  qed
  have "i = j" if ij: "i \<in> ids is" "j \<in> ids is" "the (?m i) = the (?m j)" for i j
  proof -
    from at [OF ij(1)] at [OF ij(2)] obtain k l where k: "k < length is" "i = result_id (is ! k)" "?m i = Some (n + of_nat k)"
      and l: "l < length is" "j = result_id (is ! l)" "?m j = Some (n + of_nat l)" by blast
    have "(of_nat k :: u32) = of_nat l" using ij(3) k(3) l(3) by simp
    then have "k = l" using of_nat_u32_inject [of k l] k(1) l(1) assms(2) by simp
    with k(2) l(2) show ?thesis by simp
  qed
  moreover have "ids is \<subseteq> dom ?m" using at by fastforce
  ultimately show ?thesis by (auto simp: renames_def inj_on_def)
qed

lemma renumber_result_id: "m (result_id i) = Some k \<Longrightarrow> result_id (renumber m i) = k"
  by (simp add: renumber_def)

lemma renumber_sel [simp]: "op (renumber m i) = op i" "operands (renumber m i) = map (remap_value m) (operands i)"
  "annotations (renumber m i) = annotations i"
  by (simp_all add: renumber_def)

lemma renumbered_ids:
  "distinct (map result_id is) \<Longrightarrow>
   map result_id (map (renumber (fst (assign_ids is m n))) is) = map (\<lambda>k. n + of_nat k) [0..<length is]"
  by (intro nth_equalityI) (simp_all add: renumber_result_id assign_ids_nth)

lemma remap_value_refs: "val_refs v \<subseteq> dom m \<Longrightarrow> val_refs (remap_value m v) = (\<lambda>j. the (m j)) ` val_refs v"
  by (cases v) (auto simp: remap_value_def)

text \<open>The values of the ids in \<open>D\<close> are found under their new names.\<close>

definition renamed_state :: "(u32 \<rightharpoonup> u32) \<Rightarrow> u32 set \<Rightarrow> state \<Rightarrow> state \<Rightarrow> bool" where
  "renamed_state m D t t' \<longleftrightarrow> trace t' = trace t \<and> mem t' = mem t \<and> (\<forall>j \<in> D. vals t' (the (m j)) = vals t j)"

lemma renamed_value:
  assumes "renamed_state m D t t'" "val_refs v \<subseteq> D" "D \<subseteq> dom m"
  shows "eval_val E t' (remap_value m v) = eval_val E t v"
proof (cases "get_instrref v")
  case (Some j)
  then have v: "v = InstrRef j" by (cases v) simp_all
  with assms(2,3) obtain k where "m j = Some k" by auto
  with assms(1,2) v show ?thesis by (auto simp: renamed_state_def remap_value_def)
next
  case None
  then show ?thesis by (cases v) (simp_all add: remap_value_def)
qed

lemma renumber_exec:
  "\<lbrakk>ssa is; refs is \<subseteq> D \<union> ids is; D \<inter> ids is = {}; renames m (D \<union> ids is); renamed_state m D t t'\<rbrakk>
   \<Longrightarrow> renamed_state m (D \<union> ids is) (exec E t is) (exec E t' (map (renumber m) is))"
proof (induction "is" arbitrary: D t t')
  case (Cons i "is")
  have i: "set (ref_ids i) \<subseteq> D" "ssa is" "result_id i \<notin> ids is" "result_id i \<notin> D"
    using Cons.prems(1-3) unfolding ssa_Cons_iff by auto
  have dom: "D \<subseteq> dom m" "result_id i \<in> dom m" using Cons.prems(4) by (auto simp: renames_def)
  then obtain k where k: "m (result_id i) = Some k" by blast
  have "\<forall>v \<in> set (operands i). eval_val E t' (remap_value m v) = eval_val E t v"
    using renamed_value [OF Cons.prems(5) _ dom(1), where E = E] i(1) val_refs_operand by (meson subset_trans)
  then have vs: "map (eval_val E t') (operands (renumber m i)) = map (eval_val E t) (operands i)" by simp
  have other: "the (m j) \<noteq> k" if "j \<in> D" for j
  proof
    assume "the (m j) = k"
    moreover have "j \<noteq> result_id i" using Cons.prems(3) that by auto
    ultimately show False
      using Cons.prems(4) that k by (auto simp: renames_def inj_on_def)
  qed
  have "renamed_state m (insert (result_id i) D) (exec_instr E t i) (exec_instr E t' (renumber m i))"
    using Cons.prems(5) other k i(4) unfolding renamed_state_def exec_instr_sel vs
    by (auto simp: renumber_result_id)
  from Cons.IH [OF i(2) _ _ _ this] Cons.prems(2-4) i(3) show ?case
    by (simp add: Un_assoc [symmetric] insert_commute)
qed simp


subsection \<open>A segment\<close>

definition all_ranges :: "(u64 \<times> u64) list \<Rightarrow> MemRange list" where
  "all_ranges ranges = map (\<lambda>(s, e). \<lparr>range_start = s, range_end = e\<rparr>) ranges
     @ [\<lparr>range_start = 0x7FFFFFFFD000 - 0x200000, range_end = 0x7FFFFFFFD000 + 0x10000\<rparr>]"

lemma segment_evaluator_fresh:
  obtains memory where "segment_evaluator img base reg inject ranges = fresh_evaluator img base reg inject memory"
    "safe_ranges memory = map (\<lambda>(s, e). \<lparr>range_start = s, range_end = e\<rparr>) ranges"
proof -
  have one: "guided_safe_range s e (fresh_evaluator img base reg [] m) =
      fresh_evaluator img base reg [] (ge_memory (guided_safe_range s e (fresh_evaluator img base reg [] m)))" for s e m
    by (simp add: guided_safe_range_def fresh_evaluator_def new_evaluator_def Let_def)
  have "\<exists>m'. foldl (\<lambda>ev (s, e). guided_safe_range s e ev) (fresh_evaluator img base reg [] m) ranges = fresh_evaluator img base reg [] m'
      \<and> safe_ranges m' = safe_ranges m @ map (\<lambda>(s, e). \<lparr>range_start = s, range_end = e\<rparr>) ranges" for m
  proof (induction ranges arbitrary: m)
    case (Cons r ranges)
    obtain s e where r: "r = (s, e)" by force
    from Cons [of "ge_memory (guided_safe_range s e (fresh_evaluator img base reg [] m))"] show ?case
      by (simp add: r one [symmetric] guided_safe_range_ranges)
  qed (auto intro: exI)
  from this [of empty_memory] obtain m where
    m: "foldl (\<lambda>ev (s, e). guided_safe_range s e ev) (new_evaluator img base reg) ranges = fresh_evaluator img base reg [] m"
      "safe_ranges m = map (\<lambda>(s, e). \<lparr>range_start = s, range_end = e\<rparr>) ranges"
    by (auto simp: fresh_evaluator_def new_evaluator_def empty_memory_def)
  have "set_initial_regs inject (fresh_evaluator img base reg [] m) = fresh_evaluator img base reg inject m"
    by (simp add: set_initial_regs_def fresh_evaluator_def)
  then have "segment_evaluator img base reg inject ranges = fresh_evaluator img base reg inject m"
    using m(1) by (cases inject) (simp_all add: segment_evaluator_def Let_def)
  from that [OF this m(2)] show thesis .
qed

definition segment_ok :: "(u64 \<Rightarrow> bool) \<Rightarrow> VmSegment \<Rightarrow> bool" where
  "segment_ok place seg \<longleftrightarrow> ssa (vs_instrs seg) \<and> refs (vs_instrs seg) \<subseteq> ids (vs_instrs seg)
     \<and> length (vs_instrs seg) \<le> 502560 \<and> place (vs_dispatcher_va seg)
     \<and> (if vs_kind seg = Vm_Branch then \<exists>c t n. vs_condition seg = Some c \<and> val_refs c \<subseteq> ids (vs_instrs seg)
          \<and> vs_vpc_taken seg = Some t \<and> vs_vpc_not_taken seg = Some n \<and> t \<noteq> n
        else vs_condition seg = None)"

lemma last_select_mem: "last_select is = Some sel \<Longrightarrow> sel \<in> set is"
  unfolding last_select_def by (metis (no_types, lifting) find_Some_iff nth_mem set_rev)

lemma run_vm_segment_ok:
  assumes run: "run_vm_segment (Some decode) img base reg start inject ranges 50000 2000 = Some seg"
    and dec: "bounded_decode decode" and inj: "vm_refs inject = {}"
  shows "segment_ok (place_ok start (all_ranges ranges) img base) seg"
proof -
  obtain memory where ev0: "segment_evaluator img base reg inject ranges = fresh_evaluator img base reg inject memory"
    and rg: "safe_ranges memory = map (\<lambda>(s, e). \<lparr>range_start = s, range_end = e\<rparr>) ranges"
    by (rule segment_evaluator_fresh)
  from run obtain rep ev where g: "guided_run (Some decode) start 50000 2000 (fresh_evaluator img base reg inject memory) = Some (rep, ev)"
    by (auto simp: run_vm_segment_def ev0 elim!: bind_SomeE)
  let ?f = "ge_func ev"
  from guided_run_closed [OF g dec _ _ inj]
  have c: "ssa (instrs ?f)" "closed_code (instrs ?f)" "length (instrs ?f) \<le> 502560"
    "place_ok start (all_ranges ranges) img base (er_stop_va rep)"
    by (simp_all add: all_ranges_def rg)
  have closed: "refs (instrs ?f) \<subseteq> ids (instrs ?f)" using c(2) live_ids_subset unfolding closed_code_def by blast
  have cond: "val_refs (operands sel ! 0) \<subseteq> ids (instrs ?f)"
    if "last_select (instrs ?f) = Some sel" "length (operands sel) = 3" for sel
  proof -
    have "operands sel ! 0 \<in> set (operands sel)" using that(2) by (intro nth_mem) simp
    then have "val_refs (operands sel ! 0) \<subseteq> refs (instrs ?f)"
      using val_refs_operand last_select_mem [OF that(1)] by blast
    with closed show ?thesis by blast
  qed
  have cl: "x \<in> ids (instrs ?f)" if "i \<in> set (instrs ?f)" "x \<in> set (ref_ids i)" for i x
    using closed that by blast
  have ne: "t \<noteq> n" if "extract_vjcc_targets f v w = Some (Some (t, n))" for f v w t n
    using that by (auto simp: extract_vjcc_targets_def elim!: bind_SomeE split: option.splits if_splits)
  from run g show ?thesis
    by (auto simp: run_vm_segment_def ev0 Let_def segment_ok_def c elim!: bind_SomeE
        split: if_splits option.splits intro: cl dest: ne dest!: cond) (rule cl)
qed


subsection \<open>The table of blocks\<close>

text \<open>\<open>vs\<close> lists the virtual program counters in the order of their blocks.\<close>

definition vm_table :: "u64 list \<Rightarrow> vm_state \<Rightarrow> bool" where
  "vm_table vs st \<longleftrightarrow> numbered (vr_cfg st) \<and> distinct vs \<and> length vs = length (cfg_blocks (vr_cfg st))
     \<and> (\<forall>i < length vs. vr_vpc_to_block st (vs ! i) = Some (of_nat i))
     \<and> (\<forall>v. v \<notin> set vs \<longrightarrow> vr_vpc_to_block st v = None)"

definition at_key :: "u64 list \<Rightarrow> u64 \<Rightarrow> u32 \<Rightarrow> bool" where
  "at_key vs v b \<longleftrightarrow> (\<exists>i < length vs. vs ! i = v \<and> b = of_nat i)"

definition empty_block :: "BasicBlock \<Rightarrow> bool" where
  "empty_block b \<longleftrightarrow> bb_phis b = [] \<and> bb_instrs b = [] \<and> bb_term b = default_term"

lemma at_key_append: "at_key vs v b \<Longrightarrow> at_key (vs @ ws) v b"
  unfolding at_key_def by (metis length_append nth_append trans_less_add1)

lemma vm_get_block_table:
  assumes "vm_get_block v l st = (b, st')" "vm_table vs st" "length vs + 1 < 2 ^ 32"
  obtains ws nb where "vm_table (vs @ ws) st'" "at_key (vs @ ws) v b" "length ws \<le> 1" "length nb = length ws"
    "cfg_blocks (vr_cfg st') = cfg_blocks (vr_cfg st) @ nb" "list_all empty_block nb"
    "cfg_edges (vr_cfg st') = cfg_edges (vr_cfg st)"
proof (cases "v \<in> set vs")
  case True
  then obtain i where i: "i < length vs" "vs ! i = v" by (auto simp: in_set_conv_nth)
  with assms(2) have "vr_vpc_to_block st v = Some (of_nat i)" by (auto simp: vm_table_def)
  with assms(1) have "b = of_nat i" "st' = st" by (auto simp: vm_get_block_def)
  with that [of "[]" "[]"] i assms(2) show thesis by (auto simp: at_key_def)
next
  case False
  with assms(2) have "vr_vpc_to_block st v = None" by (simp add: vm_table_def)
  with assms(1) obtain cfg where cfg: "add_block (vr_cfg st) l = (b, cfg)"
    "st' = st\<lparr>vr_cfg := cfg, vr_vpc_to_block := (vr_vpc_to_block st)(v \<mapsto> b)\<rparr>"
    by (auto simp: vm_get_block_def split: prod.splits)
  have num: "numbered (vr_cfg st)" and len: "length vs = length (cfg_blocks (vr_cfg st))"
    using assms(2) by (simp_all add: vm_table_def)
  from numbered_add_block [OF num _ cfg(1)] assms(3) len
  have n: "numbered cfg" "b = of_nat (length vs)" by simp_all
  obtain nb where bs: "cfg_blocks cfg = cfg_blocks (vr_cfg st) @ [nb]" "empty_block nb" "cfg_edges cfg = cfg_edges (vr_cfg st)"
    using cfg(1) by (auto simp: add_block_def Let_def empty_block_def)
  have "vm_table (vs @ [v]) st'"
    unfolding vm_table_def
  proof (intro conjI allI impI)
    fix i assume "i < length (vs @ [v])"
    moreover have "vs ! i \<noteq> v" if "i < length vs" using that False by auto
    ultimately show "vr_vpc_to_block st' ((vs @ [v]) ! i) = Some (of_nat i)"
      using assms(2) n(2) by (cases "i = length vs") (simp_all add: vm_table_def cfg(2) nth_append)
  next
    fix u assume "u \<notin> set (vs @ [v])"
    then show "vr_vpc_to_block st' u = None" using assms(2) by (simp add: vm_table_def cfg(2))
  qed (use assms(2) n(1) bs(1) False in \<open>simp_all add: vm_table_def cfg(2)\<close>)
  moreover have "at_key (vs @ [v]) v b" unfolding at_key_def using n(2) by (intro exI [of _ "length vs"]) simp
  ultimately show thesis using bs by (intro that [of "[v]" "[nb]"]) (simp_all add: cfg(2))
qed

subsection \<open>The successors of a block\<close>

definition vm_targets :: "Terminator \<Rightarrow> u32 list" where
  "vm_targets t =
     (case (term_kind t, term_target t, term_fallthrough t) of
        (Term_CJMP, Some x, Some y) \<Rightarrow> [x, y] | _ \<Rightarrow> [])"

text \<open>The terminator before the condition is filled in.\<close>

definition bare_term :: "VmKind \<Rightarrow> Terminator \<Rightarrow> bool" where
  "bare_term k t \<longleftrightarrow>
     (case k of
        Vm_Branch \<Rightarrow> \<exists>x y. t = \<lparr>term_kind = Term_CJMP, term_target = Some x, term_fallthrough = Some y, term_condition = None\<rparr>
      | Vm_Ret \<Rightarrow> t = default_term\<lparr>term_kind := Term_RET\<rparr>
      | Vm_Unresolved \<Rightarrow> t = default_term)"

definition work_ok :: "(u64 \<Rightarrow> bool) \<Rightarrow> u64 list \<Rightarrow> VmWork \<Rightarrow> bool" where
  "work_ok good vs w \<longleftrightarrow> good (vw_start_va w) \<and> vm_refs (vw_inject w) = {} \<and> at_key vs (vw_key w) (vw_bid w)"

lemma successors_add_edge:
  "successors (add_edge cfg i t back) j = successors cfg j @ (if i = j then [t] else [])"
  by (simp add: successors_def add_edge_def)

lemma vm_push_work:
  assumes "list_all (work_ok good vs) (vr_worklist st)" "good (vr_dispatcher_va st)" "at_key vs v b"
  shows "list_all (work_ok good vs) (vr_worklist (vm_push reg v b st))"
  using assms by (simp add: vm_push_def work_ok_def vm_refs_def)

lemma vm_successors_table:
  assumes t: "vm_table vs st" "length vs + 2 < 2 ^ 32" and k: "at_key vs key bid"
    and seg: "segment_ok place seg" and good: "good (vr_dispatcher_va st)"
    and wl: "list_all (work_ok good vs) (vr_worklist st)"
  obtains ws nb trm st' where "vm_successors reg bid seg st = (trm, st')" "vm_table (vs @ ws) st'" "length ws \<le> 2"
    "cfg_blocks (vr_cfg st') = cfg_blocks (vr_cfg st) @ nb" "list_all empty_block nb" "length nb = length ws"
    "\<forall>j. successors (vr_cfg st') j = successors (vr_cfg st) j @ (if bid = j then vm_targets trm else [])"
    "set (map edge_from (cfg_edges (vr_cfg st'))) \<subseteq> insert bid (set (map edge_from (cfg_edges (vr_cfg st))))"
    "bare_term (vs_kind seg) trm" "\<forall>x \<in> set (vm_targets trm). \<exists>v. at_key (vs @ ws) v x"
    "list_all (work_ok good (vs @ ws)) (vr_worklist st')"
proof (cases "vs_kind seg = Vm_Branch")
  case False
  then consider "vs_kind seg = Vm_Ret" | "vs_kind seg = Vm_Unresolved" by (cases "vs_kind seg") auto
  then show thesis
    by cases (use t wl in \<open>auto intro!: that [of _ _ "[]" "[]"] simp: vm_successors_def bare_term_def vm_targets_def default_term_def\<close>)
next
  case True
  with seg obtain t n where tn: "vs_vpc_taken seg = Some t" "vs_vpc_not_taken seg = Some n" by (auto simp: segment_ok_def)
  obtain x st1 where x: "vm_get_block t (vpc_lbl t) st = (x, st1)" by force
  obtain y st2 where y: "vm_get_block n (vpc_lbl n) st1 = (y, st2)" by force
  from t(2) have "length vs + 1 < 2 ^ 32" by simp
  from vm_get_block_table [OF x t(1) this] obtain ws1 nb1 where
    b1: "vm_table (vs @ ws1) st1" "at_key (vs @ ws1) t x" "length ws1 \<le> 1" "length nb1 = length ws1"
      "cfg_blocks (vr_cfg st1) = cfg_blocks (vr_cfg st) @ nb1" "list_all empty_block nb1" "cfg_edges (vr_cfg st1) = cfg_edges (vr_cfg st)" .
  have "length (vs @ ws1) + 1 < 2 ^ 32" using t(2) b1(3) by simp
  from vm_get_block_table [OF y b1(1) this] obtain ws2 nb2 where
    b2: "vm_table ((vs @ ws1) @ ws2) st2" "at_key ((vs @ ws1) @ ws2) n y" "length ws2 \<le> 1" "length nb2 = length ws2"
      "cfg_blocks (vr_cfg st2) = cfg_blocks (vr_cfg st1) @ nb2" "list_all empty_block nb2" "cfg_edges (vr_cfg st2) = cfg_edges (vr_cfg st1)" .
  let ?ws = "ws1 @ ws2" and ?nb = "nb1 @ nb2"
  let ?st3 = "st2\<lparr>vr_cfg := add_edge (add_edge (vr_cfg st2) bid x (t \<in> vr_processed st)) bid y (n \<in> vr_processed st)\<rparr>"
  let ?trm = "\<lparr>term_kind = Term_CJMP, term_target = Some x, term_fallthrough = Some y, term_condition = None\<rparr>"
  let ?st' = "vm_push reg n y (vm_push reg t x ?st3)"
  have frame: "vr_worklist st2 = vr_worklist st" "vr_dispatcher_va st2 = vr_dispatcher_va st"
    using vm_get_block_frame [of t "vpc_lbl t" st] vm_get_block_frame [of n "vpc_lbl n" st1] x y by simp_all
  have run: "vm_successors reg bid seg st = (?trm, ?st')"
    by (simp add: vm_successors_def True tn vm_branch_def Let_def x y default_term_def)
  have keys: "at_key (vs @ ?ws) t x" "at_key (vs @ ?ws) n y"
    using b2(2) at_key_append [OF b1(2), of ws2] by simp_all
  have table: "vm_table (vs @ ?ws) ?st'" using b2(1) by (simp add: vm_table_def numbered_def add_edge_def)
  have succ: "\<forall>j. successors (vr_cfg ?st') j = successors (vr_cfg st) j @ (if bid = j then vm_targets ?trm else [])"
    using b1(7) b2(7) by (simp add: successors_add_edge vm_targets_def) (simp add: successors_def)
  have wl': "list_all (work_ok good (vs @ ?ws)) (vr_worklist ?st')"
  proof (intro vm_push_work)
    show "list_all (work_ok good (vs @ ?ws)) (vr_worklist ?st3)"
      using wl at_key_append by (auto simp: frame list_all_iff work_ok_def)
  qed (use good keys in \<open>simp_all add: frame\<close>)
  from keys have targets: "\<forall>z \<in> set (vm_targets ?trm). \<exists>v. at_key (vs @ ?ws) v z" by (auto simp: vm_targets_def)
  show thesis
    by (rule that [OF run table _ _ _ _ succ _ _ targets wl', of ?nb])
      (use b1 b2 True in \<open>auto simp: add_edge_def bare_term_def\<close>)
qed


subsection \<open>The invariant of the loop\<close>

definition vm_term_ok :: "Instruction list \<Rightarrow> Terminator \<Rightarrow> bool" where
  "vm_term_ok is t \<longleftrightarrow>
     (if term_kind t = Term_CJMP then length (vm_targets t) = 2 \<and> (\<exists>c. term_condition t = Some c \<and> val_refs c \<subseteq> ids is)
      else t \<in> {default_term, default_term\<lparr>term_kind := Term_RET\<rparr>})"

definition vm_block_ok :: "CFGFunction \<Rightarrow> BasicBlock \<Rightarrow> bool" where
  "vm_block_ok cfg b \<longleftrightarrow> bb_phis b = [] \<and> refs (bb_instrs b) \<subseteq> ids (bb_instrs b) \<and> vm_term_ok (bb_instrs b) (bb_term b)
     \<and> successors cfg (bb_id b) = vm_targets (bb_term b) \<and> set (vm_targets (bb_term b)) \<subseteq> set (map bb_id (cfg_blocks cfg))"

definition handed_out :: "Instruction list \<Rightarrow> bool" where
  "handed_out is \<longleftrightarrow> mset (map result_id is) = mset (map (\<lambda>k. 1 + of_nat k) [0..<length is])"

definition vm_inv :: "(u64 \<Rightarrow> bool) \<Rightarrow> u64 list \<Rightarrow> vm_state \<Rightarrow> bool" where
  "vm_inv good vs st \<longleftrightarrow> vm_table vs st \<and> list_all (work_ok good vs) (vr_worklist st) \<and> vr_processed st \<subseteq> set vs
     \<and> (\<forall>i < length vs. vm_block_ok (vr_cfg st) (cfg_blocks (vr_cfg st) ! i)
          \<and> (vs ! i \<notin> vr_processed st \<longrightarrow> empty_block (cfg_blocks (vr_cfg st) ! i)))
     \<and> (vr_dispatcher_va st \<noteq> 0 \<longrightarrow> good (vr_dispatcher_va st))
     \<and> set (map edge_from (cfg_edges (vr_cfg st))) \<subseteq> set (map bb_id (cfg_blocks (vr_cfg st)))
     \<and> vr_next_id st = 1 + of_nat (length (block_code (vr_cfg st)))
     \<and> length (block_code (vr_cfg st)) \<le> 502560 * card (vr_processed st)
     \<and> handed_out (block_code (vr_cfg st))"

lemma mset_concat_update:
  "i < length bs \<Longrightarrow> f (bs ! i) = [] \<Longrightarrow> mset (concat (map f (bs[i := x]))) = mset (concat (map f bs)) + mset (f x)"
proof (induction bs arbitrary: i)
  case (Cons b bs)
  then show ?case by (cases i) simp_all
qed simp

lemma renumbered_refs:
  assumes "refs is \<subseteq> ids is" "distinct (map result_id is)"
  shows "refs (map (renumber (fst (assign_ids is m n))) is) \<subseteq> ids (map (renumber (fst (assign_ids is m n))) is)"
    "val_refs c \<subseteq> ids is \<Longrightarrow> val_refs (remap_value (fst (assign_ids is m n)) c) \<subseteq> ids (map (renumber (fst (assign_ids is m n))) is)"
proof -
  let ?m = "fst (assign_ids is m n)"
  have dom: "ids is \<subseteq> dom ?m" using assign_ids_nth [OF assms(2)] by (fastforce simp: in_set_conv_nth)
  have img: "(\<lambda>j. the (?m j)) ` ids is = ids (map (renumber ?m) is)"
    using dom by (force simp: renumber_def image_iff domIff)
  have one: "val_refs (remap_value ?m v) \<subseteq> ids (map (renumber ?m) is)" if "val_refs v \<subseteq> ids is" for v
  proof -
    have "val_refs (remap_value ?m v) = (\<lambda>j. the (?m j)) ` val_refs v" using that dom by (intro remap_value_refs) blast
    also have "\<dots> \<subseteq> (\<lambda>j. the (?m j)) ` ids is" using that by (rule image_mono)
    finally show ?thesis by (simp only: img)
  qed
  then show "val_refs c \<subseteq> ids is \<Longrightarrow> val_refs (remap_value ?m c) \<subseteq> ids (map (renumber ?m) is)" .
  have "set (ref_ids (renumber ?m i)) \<subseteq> ids (map (renumber ?m) is)" if "i \<in> set is" for i
  proof -
    have "\<forall>v \<in> set (operands i). val_refs v \<subseteq> ids is" using assms(1) that val_refs_operand by blast
    then have "val_refs w \<subseteq> ids (map (renumber ?m) is)" if "w \<in> set (operands (renumber ?m i))" for w
    proof -
      from that obtain v where "v \<in> set (operands i)" "w = remap_value ?m v" by auto
      with one [of v] \<open>\<forall>v \<in> set (operands i). val_refs v \<subseteq> ids is\<close> show ?thesis by blast
    qed
    then show ?thesis unfolding ref_ids_val_refs by (rule UN_least)
  qed
  then show "refs (map (renumber ?m) is) \<subseteq> ids (map (renumber ?m) is)" by auto
qed

lemma handed_out_append:
  assumes "handed_out is" "mset js = mset is + mset ks"
    "map result_id ks = map (\<lambda>k. 1 + of_nat (length is) + of_nat k) [0..<length ks]"
  shows "handed_out js"
proof -
  have "length js = length is + length ks" using assms(2) by (metis size_mset size_union)
  then have "map (\<lambda>k. 1 + of_nat k :: u32) [0..<length js] = map (\<lambda>k. 1 + of_nat k) [0..<length is]
      @ map (\<lambda>k. 1 + of_nat k) [length is..<length is + length ks]"
    by (simp only: upt_add_eq_append [OF le0] map_append)
  also have "map (\<lambda>k. 1 + of_nat k :: u32) [length is..<length is + length ks] = map result_id ks"
    unfolding assms(3) by (intro nth_equalityI) (simp_all add: algebra_simps)
  finally have "mset (map (\<lambda>k. 1 + of_nat k :: u32) [0..<length js]) = mset (map result_id is) + mset (map result_id ks)"
    using assms(1) by (simp add: handed_out_def)
  moreover have "mset (map result_id js) = mset (map result_id is) + mset (map result_id ks)"
    by (simp add: assms(2))
  ultimately show ?thesis by (simp add: handed_out_def)
qed

text \<open>What assembling a block amounts to, when it was empty.\<close>

definition final_term :: "VmSegment \<Rightarrow> u32 \<Rightarrow> Terminator \<Rightarrow> Terminator" where
  "final_term seg nid t =
     (case vs_condition seg of
        Some c \<Rightarrow> t\<lparr>term_condition := Some (remap_value (fst (assign_ids (vs_instrs seg) Map.empty nid)) c)\<rparr>
      | None \<Rightarrow> t)"

definition segment_code :: "VmSegment \<Rightarrow> u32 \<Rightarrow> Instruction list" where
  "segment_code seg nid = map (renumber (fst (assign_ids (vs_instrs seg) Map.empty nid))) (vs_instrs seg)"

lemma vm_assemble_eq:
  assumes "numbered (vr_cfg st)" "i < length (cfg_blocks (vr_cfg st))" "bb_instrs (cfg_blocks (vr_cfg st) ! i) = []"
  shows "vm_assemble (of_nat i) seg t st = Some (st\<lparr>
     vr_cfg := (vr_cfg st)\<lparr>cfg_blocks := (cfg_blocks (vr_cfg st))[i := (cfg_blocks (vr_cfg st) ! i)
        \<lparr>bb_instrs := segment_code seg (vr_next_id st), bb_term := final_term seg (vr_next_id st) t\<rparr>]\<rparr>,
     vr_next_id := vr_next_id st + of_nat (length (vs_instrs seg))\<rparr>)"
  using numbered_lookup [OF assms(1,2)] assms(3)
  by (cases "vs_condition seg") (simp_all add: vm_assemble_def append_renumbered_def Let_def case_prod_unfold segment_code_def final_term_def assign_ids_nid)

lemma segment_block_ok:
  assumes "segment_ok place seg" "bare_term (vs_kind seg) t"
  shows "refs (segment_code seg nid) \<subseteq> ids (segment_code seg nid)" "vm_term_ok (segment_code seg nid) (final_term seg nid t)"
    "vm_targets (final_term seg nid t) = vm_targets t"
    "map result_id (segment_code seg nid) = map (\<lambda>k. nid + of_nat k) [0..<length (segment_code seg nid)]"
    "length (segment_code seg nid) \<le> 502560"
proof -
  have d: "distinct (map result_id (vs_instrs seg))" "refs (vs_instrs seg) \<subseteq> ids (vs_instrs seg)"
    using assms(1) ssa_distinct by (simp_all add: segment_ok_def)
  note r = renumbered_refs [OF d(2,1)]
  show "refs (segment_code seg nid) \<subseteq> ids (segment_code seg nid)" using r(1) by (simp only: segment_code_def)
  show "map result_id (segment_code seg nid) = map (\<lambda>k. nid + of_nat k) [0..<length (segment_code seg nid)]"
    using renumbered_ids [OF d(1)] by (simp only: segment_code_def length_map)
  show "length (segment_code seg nid) \<le> 502560" using assms(1) by (simp add: segment_code_def segment_ok_def)
  show "vm_targets (final_term seg nid t) = vm_targets t"
    by (cases "vs_condition seg"; cases "term_kind t") (simp_all add: final_term_def vm_targets_def)
  show "vm_term_ok (segment_code seg nid) (final_term seg nid t)"
  proof (cases "vs_kind seg = Vm_Branch")
    case True
    with assms obtain c where c: "vs_condition seg = Some c" "val_refs c \<subseteq> ids (vs_instrs seg)" by (auto simp: segment_ok_def)
    from r(2) [OF c(2)] True assms(2) show ?thesis
      by (auto simp: bare_term_def final_term_def c(1) vm_term_ok_def vm_targets_def segment_code_def simp del: set_map)
  next
    case False
    with assms show ?thesis
      by (cases "vs_kind seg") (auto simp: bare_term_def final_term_def vm_term_ok_def segment_ok_def default_term_def)
  qed
qed

lemma numbered_id_inject:
  "numbered cfg \<Longrightarrow> j < length (cfg_blocks cfg) \<Longrightarrow> k < length (cfg_blocks cfg) \<Longrightarrow>
   bb_id (cfg_blocks cfg ! j) = bb_id (cfg_blocks cfg ! k) \<longleftrightarrow> j = k"
  by (simp add: numbered_nth numbered_def of_nat_u32_inject)

lemma numbered_ids: "numbered cfg \<Longrightarrow> set (map bb_id (cfg_blocks cfg)) = of_nat ` {..<length (cfg_blocks cfg)}"
  by (simp add: numbered_def lessThan_atLeast0)

lemma empty_block_code: "list_all empty_block nb \<Longrightarrow> concat (map bb_instrs nb) = []"
  by (auto simp: list_all_iff empty_block_def)

text \<open>The state in which the successors of the work \<open>w\<close> are set up.\<close>

definition vm_enter :: "VmWork \<Rightarrow> VmWork list \<Rightarrow> VmSegment \<Rightarrow> vm_state \<Rightarrow> vm_state" where
  "vm_enter w ws seg st = st\<lparr>vr_worklist := ws, vr_processed := insert (vw_key w) (vr_processed st),
     vr_dispatcher_va := (if vr_dispatcher_va st = 0 then vs_dispatcher_va seg else vr_dispatcher_va st)\<rparr>"

lemma vm_step_enter:
  assumes "vr_worklist st = w # ws" "vw_key w \<notin> vr_processed st"
    "run_vm_segment dis img base reg (vw_start_va w) (vw_inject w) ranges 50000 2000 = Some seg"
  shows "vm_step dis img base reg ranges st =
    vm_assemble (vw_bid w) seg (fst (vm_successors reg (vw_bid w) seg (vm_enter w ws seg st)))
      (snd (vm_successors reg (vw_bid w) seg (vm_enter w ws seg st)))"
proof -
  let ?st = "st\<lparr>vr_worklist := ws, vr_processed := insert (vw_key w) (vr_processed st)\<rparr>"
  have "(if vr_dispatcher_va ?st = 0 \<and> vs_dispatcher_va seg \<noteq> 0 then ?st\<lparr>vr_dispatcher_va := vs_dispatcher_va seg\<rparr> else ?st)
      = vm_enter w ws seg st"
    by (simp add: vm_enter_def)
  with assms show ?thesis by (simp add: vm_step_def Let_def case_prod_unfold)
qed

lemma vm_run_step:
  assumes inv: "vm_inv good vs st" and room: "length vs + 2 < 2 ^ 32"
    and w: "vr_worklist st = w # ws" "vw_key w \<notin> vr_processed st"
    and seg: "segment_ok good seg"
    and st1: "st1 = st\<lparr>vr_worklist := ws, vr_processed := insert (vw_key w) (vr_processed st),
         vr_dispatcher_va := (if vr_dispatcher_va st = 0 then vs_dispatcher_va seg else vr_dispatcher_va st)\<rparr>"
  obtains st' us where "vm_assemble (vw_bid w) seg (fst (vm_successors reg (vw_bid w) seg st1)) (snd (vm_successors reg (vw_bid w) seg st1)) = Some st'"
    "vm_inv good (vs @ us) st'" "length us \<le> 2"
proof -
  have I: "vm_table vs st" "list_all (work_ok good vs) (vr_worklist st)" "vr_processed st \<subseteq> set vs"
    using inv by (simp_all add: vm_inv_def)
  have blk: "vm_block_ok (vr_cfg st) (cfg_blocks (vr_cfg st) ! j)"
    "vs ! j \<notin> vr_processed st \<Longrightarrow> empty_block (cfg_blocks (vr_cfg st) ! j)" if "j < length vs" for j
    using inv that by (simp_all add: vm_inv_def)
  have table: "vm_table vs st1" using I(1) by (simp add: vm_table_def st1)
  have good: "good (vr_dispatcher_va st1)" using inv seg by (auto simp: vm_inv_def segment_ok_def st1)
  have key: "at_key vs (vw_key w) (vw_bid w)" and wl: "list_all (work_ok good vs) (vr_worklist st1)"
    using I(2) w(1) by (simp_all add: work_ok_def st1)
  from key obtain i where i: "i < length vs" "vs ! i = vw_key w" "vw_bid w = of_nat i" by (auto simp: at_key_def)
  obtain us nb trm st2 where s: "vm_successors reg (vw_bid w) seg st1 = (trm, st2)" "vm_table (vs @ us) st2" "length us \<le> 2"
    "cfg_blocks (vr_cfg st2) = cfg_blocks (vr_cfg st1) @ nb" "list_all empty_block nb" "length nb = length us"
    "\<forall>j. successors (vr_cfg st2) j = successors (vr_cfg st1) j @ (if vw_bid w = j then vm_targets trm else [])"
    "set (map edge_from (cfg_edges (vr_cfg st2))) \<subseteq> insert (vw_bid w) (set (map edge_from (cfg_edges (vr_cfg st1))))"
    "bare_term (vs_kind seg) trm" "\<forall>x \<in> set (vm_targets trm). \<exists>v. at_key (vs @ us) v x"
    "list_all (work_ok good (vs @ us)) (vr_worklist st2)"
    by (rule vm_successors_table [OF table room key seg good wl])
  have fr: "vr_next_id st2 = vr_next_id st" "vr_processed st2 = insert (vw_key w) (vr_processed st)"
    "vr_dispatcher_va st2 = vr_dispatcher_va st1"
    using vm_successors_frame [of reg "vw_bid w" seg st1] unfolding s(1) by (simp_all add: st1)
  have cfg1: "vr_cfg st1 = vr_cfg st" by (simp add: st1)
  let ?bs = "cfg_blocks (vr_cfg st)" and ?n = "length vs"
  have len: "length ?bs = ?n" and num: "numbered (vr_cfg st)" and num2: "numbered (vr_cfg st2)"
    using I(1) s(2) by (simp_all add: vm_table_def)
  have bs2: "cfg_blocks (vr_cfg st2) = ?bs @ nb" using s(4) by (simp add: cfg1)
  have bsi: "cfg_blocks (vr_cfg st2) ! i = ?bs ! i" using i(1) len by (simp add: bs2 nth_append)
  have old: "empty_block (?bs ! i)" using blk(2) [OF i(1)] w(2) i(2) by simp
  let ?code = "segment_code seg (vr_next_id st)" and ?trm = "final_term seg (vr_next_id st) trm"
  let ?b = "(?bs ! i)\<lparr>bb_instrs := ?code, bb_term := ?trm\<rparr>"
  let ?cfg = "(vr_cfg st2)\<lparr>cfg_blocks := (?bs @ nb)[i := ?b]\<rparr>"
  let ?st' = "st2\<lparr>vr_cfg := ?cfg, vr_next_id := vr_next_id st + of_nat (length (vs_instrs seg))\<rparr>"
  note code = segment_block_ok [OF seg s(9), of "vr_next_id st"]
  have asm: "vm_assemble (vw_bid w) seg trm st2 = Some ?st'"
    using vm_assemble_eq [OF num2, of i seg trm] old i(1) len by (simp add: bs2 i(3) fr(1) nth_append empty_block_def)
  have num3: "numbered ?cfg"
    using numbered_update [OF num2, of "\<lambda>b. b\<lparr>bb_instrs := ?code, bb_term := ?trm\<rparr>" i] i(1) len by (simp add: bs2 nth_append)
  have table': "vm_table (vs @ us) ?st'" using s(2) num3 by (simp add: vm_table_def bs2)
  have ids': "set (map bb_id (cfg_blocks ?cfg)) = of_nat ` {..<length (vs @ us)}"
    using numbered_ids [OF num3] len s(6) by simp
  have ids: "set (map bb_id ?bs) = of_nat ` {..<?n}" using numbered_ids [OF num] len by simp
  have succ: "successors ?cfg j = successors (vr_cfg st) j @ (if vw_bid w = j then vm_targets trm else [])" for j
    using s(7) by (simp add: successors_def cfg1)
  have none: "successors (vr_cfg st) j = []" if "j \<notin> set (map bb_id ?bs)" for j
    using inv that by (auto simp: vm_inv_def successors_def filter_empty_conv)
  have blocks: "vm_block_ok ?cfg (cfg_blocks ?cfg ! j) \<and> ((vs @ us) ! j \<notin> insert (vw_key w) (vr_processed st) \<longrightarrow> empty_block (cfg_blocks ?cfg ! j))"
    if j: "j < length (vs @ us)" for j
  proof -
    have id: "bb_id (cfg_blocks ?cfg ! j) = of_nat j" using numbered_nth [OF num3, of j] j len s(6) by simp
    have small: "(of_nat i :: u32) = of_nat j \<longleftrightarrow> i = j"
      using of_nat_u32_inject [of i j] j i(1) s(3) room by simp
    have grow: "of_nat ` {..<?n} \<subseteq> (of_nat ` {..<length (vs @ us)} :: u32 set)" by auto
    consider "j = i" | "j < ?n" "j \<noteq> i" | "?n \<le> j" by linarith
    then show ?thesis
    proof cases
      case 1
      have "successors (vr_cfg st) (of_nat i) = []"
        using blk(1) [OF i(1)] old numbered_nth [OF num, of i] i(1) len
        by (simp add: vm_block_ok_def empty_block_def vm_targets_def default_term_def)
      then have "successors ?cfg (of_nat i) = vm_targets ?trm" by (simp add: succ i(3) code(3))
      moreover have "set (vm_targets ?trm) \<subseteq> of_nat ` {..<length (vs @ us)}"
        using s(10) by (auto simp: code(3) at_key_def)
      moreover have "cfg_blocks ?cfg ! j = ?b" using 1 i(1) len by simp
      ultimately show ?thesis
        using 1 old code(1,2) id i(2) unfolding vm_block_ok_def ids'
        by (simp add: empty_block_def fr(2) nth_append i(1))
    next
      case 2
      then have b: "cfg_blocks ?cfg ! j = ?bs ! j" using len by (simp add: nth_append)
      have "successors ?cfg (bb_id (?bs ! j)) = successors (vr_cfg st) (bb_id (?bs ! j))"
        using id b small 2 by (simp add: succ i(3))
      with blk [OF 2(1)] 2 grow show ?thesis
        unfolding b vm_block_ok_def ids' ids by (auto simp: fr(2) nth_append)
    next
      case 3
      then have "cfg_blocks ?cfg ! j = nb ! (j - ?n)" "j - ?n < length nb" using i(1) len j s(6) by (auto simp: nth_append)
      then have e: "empty_block (cfg_blocks ?cfg ! j)" using s(5) by (simp add: list_all_length)
      have "(of_nat j :: u32) \<notin> set (map bb_id ?bs)"
        using 3 j s(3) room unfolding ids by (auto simp: of_nat_u32_inject)
      then have "successors ?cfg (of_nat j) = []" using none 3 i(1) small by (simp add: succ i(3))
      with e id show ?thesis by (simp add: vm_block_ok_def empty_block_def vm_term_ok_def vm_targets_def default_term_def)
    qed
  qed
  have edges: "set (map edge_from (cfg_edges ?cfg)) \<subseteq> set (map bb_id (cfg_blocks ?cfg))"
  proof -
    have "set (map edge_from (cfg_edges (vr_cfg st))) \<subseteq> of_nat ` {..<?n}" using inv ids by (simp add: vm_inv_def)
    moreover have "vw_bid w \<in> of_nat ` {..<?n}" using i by simp
    ultimately have "set (map edge_from (cfg_edges (vr_cfg st2))) \<subseteq> of_nat ` {..<?n}"
      using s(8) unfolding cfg1 by blast
    then show ?thesis unfolding ids' by auto
  qed
  have ms: "mset (block_code ?cfg) = mset (block_code (vr_cfg st)) + mset ?code"
    using mset_concat_update [of i "?bs @ nb" bb_instrs ?b] i(1) len old empty_block_code [OF s(5)]
    by (simp add: block_code_def nth_append empty_block_def)
  from arg_cong [OF ms, of size] have lc: "length (block_code ?cfg) = length (block_code (vr_cfg st)) + length ?code"
    by simp
  have handed: "handed_out (block_code ?cfg)"
    using handed_out_append [OF _ ms] inv code(4) by (simp add: vm_inv_def)
  have bound: "length (block_code ?cfg) \<le> 502560 * card (insert (vw_key w) (vr_processed st))"
  proof -
    have "finite (vr_processed st)" using I(3) finite_subset by blast
    then have "card (insert (vw_key w) (vr_processed st)) = card (vr_processed st) + 1" using w(2) by simp
    then show ?thesis using inv lc code(5) by (simp add: vm_inv_def)
  qed
  have cfg': "vr_cfg ?st' = ?cfg" "vr_worklist ?st' = vr_worklist st2" "vr_processed ?st' = insert (vw_key w) (vr_processed st)"
    "vr_dispatcher_va ?st' = vr_dispatcher_va st1" "vr_next_id ?st' = vr_next_id st + of_nat (length (vs_instrs seg))"
    using fr by simp_all
  have next_id: "vr_next_id st + of_nat (length (vs_instrs seg)) = 1 + of_nat (length (block_code ?cfg))"
    using inv lc by (simp add: vm_inv_def segment_code_def)
  have "vm_inv good (vs @ us) ?st'"
    unfolding vm_inv_def cfg'
  proof (intro conjI)
    show "vm_table (vs @ us) ?st'" by (rule table')
    show "list_all (work_ok good (vs @ us)) (vr_worklist st2)" by (rule s(11))
    show "insert (vw_key w) (vr_processed st) \<subseteq> set (vs @ us)" using I(3) i(1) unfolding i(2) [symmetric] by auto
    show "\<forall>j < length (vs @ us). vm_block_ok ?cfg (cfg_blocks ?cfg ! j)
        \<and> ((vs @ us) ! j \<notin> insert (vw_key w) (vr_processed st) \<longrightarrow> empty_block (cfg_blocks ?cfg ! j))"
      using blocks by blast
    show "vr_dispatcher_va st1 \<noteq> 0 \<longrightarrow> good (vr_dispatcher_va st1)" using good by blast
  qed (use edges next_id bound handed in \<open>simp_all only: simp_thms\<close>)
  with asm s(1,3) that show thesis by simp
qed

subsection \<open>The loop\<close>

text \<open>\<open>good\<close> holds of the addresses a run may stop at, when it holds of where it starts.\<close>

definition good_places :: "(u64 \<Rightarrow> bool) \<Rightarrow> (u64 \<times> u64) list \<Rightarrow> u8 list \<Rightarrow> u64 \<Rightarrow> bool" where
  "good_places good ranges img base \<longleftrightarrow> (\<forall>s a. good s \<longrightarrow> place_ok s (all_ranges ranges) img base a \<longrightarrow> good a)"

lemma vm_initial_inv: "good entry \<Longrightarrow> vm_inv good [entry] (vm_initial entry)"
  by (simp add: vm_initial_def vm_get_block_def add_block_def new_cfg_def Let_def vm_inv_def vm_table_def work_ok_def
      at_key_def vm_refs_def vm_block_ok_def vm_term_ok_def vm_targets_def default_term_def empty_block_def
      successors_def block_code_def handed_out_def numbered_def)

lemma running_room:
  assumes "vm_inv good vs st" "vm_running mb st" "mb < 2 ^ 31"
  shows "length vs + 2 < 2 ^ 32" "int (length vs) \<le> mb"
proof -
  show "int (length vs) \<le> mb" using assms by (simp add: vm_inv_def vm_table_def vm_running_def)
  with assms(3) have "int (length vs) < 2 ^ 31" by linarith
  then show "length vs + 2 < 2 ^ 32" by simp
qed

lemma vm_step_inv:
  assumes step: "vm_step (Some decode) img base reg ranges st = Some st'" and dec: "bounded_decode decode"
    and inv: "vm_inv good vs st" and run: "vm_running mb st" "mb < 2 ^ 31" and places: "good_places good ranges img base"
  obtains us where "vm_inv good (vs @ us) st'" "length us \<le> 2"
proof -
  from run obtain w ws where wl: "vr_worklist st = w # ws" by (cases "vr_worklist st") (auto simp: vm_running_def)
  with inv have w: "good (vw_start_va w)" "vm_refs (vw_inject w) = {}" by (simp_all add: vm_inv_def work_ok_def)
  from step wl show thesis
  proof (cases rule: vm_step_cases)
    case skip
    with inv wl that [of "[]"] show thesis by (simp add: vm_inv_def vm_table_def)
  next
    case (run seg st1)
    from run_vm_segment_ok [OF run(2) dec w(2)] have "segment_ok good seg"
      using places w(1) by (auto simp: segment_ok_def good_places_def)
    then obtain st2 us where "vm_assemble (vw_bid w) seg (fst (vm_successors reg (vw_bid w) seg st1))
        (snd (vm_successors reg (vw_bid w) seg st1)) = Some st2" "vm_inv good (vs @ us) st2" "length us \<le> 2"
      by (rule vm_run_step [OF inv running_room(1) [OF inv assms(4,5)] wl run(1) _ run(3), where reg = reg])
    with run(4) that show thesis by simp
  qed
qed

lemma vm_loop_inv:
  assumes "vm_loop dis img base reg ranges mb st = Some st'" "dis = Some decode" "bounded_decode decode" "mb < 2 ^ 31"
    "good_places good ranges img base" "vm_inv good vs st" "int (length vs) \<le> max 1 (mb + 2)"
  shows "\<exists>us. vm_inv good us st' \<and> int (length us) \<le> max 1 (mb + 2)"
  using assms
proof (induction dis img base reg ranges mb st arbitrary: vs rule: vm_loop.induct)
  case (1 dis img base reg ranges mb st)
  show ?case
  proof (cases "vm_running mb st")
    case False
    with "1.prems" show ?thesis by (subst (asm) vm_loop.simps) auto
  next
    case True
    with "1.prems"(1) obtain st1 where step: "vm_step dis img base reg ranges st = Some st1"
      and rest: "vm_loop dis img base reg ranges mb st1 = Some st'"
      by (subst (asm) vm_loop.simps) (auto elim!: bind_SomeE)
    obtain us where us: "vm_inv good (vs @ us) st1" "length us \<le> 2"
      by (rule vm_step_inv [OF step [unfolded "1.prems"(2)] "1.prems"(3,6) True "1.prems"(4,5)])
    have "int (length vs) \<le> mb" using running_room(2) [OF "1.prems"(6) True "1.prems"(4)] .
    then have "int (length (vs @ us)) \<le> max 1 (mb + 2)" using us(2) by simp
    from "1.IH" [OF _ step rest "1.prems"(2-5) us(1) this] True show ?thesis by simp
  qed
qed

subsection \<open>The loop always has a result\<close>

definition ranges_readable :: "u8 list \<Rightarrow> u64 \<Rightarrow> (u64 \<times> u64) list \<Rightarrow> bool" where
  "ranges_readable img base ranges \<longleftrightarrow> (\<forall>r \<in> set (all_ranges ranges). \<forall>a. contains r a \<longrightarrow> readable img base a)"

lemma readable_places: "ranges_readable img base ranges \<Longrightarrow> good_places (readable img base) ranges img base"
  by (auto simp: good_places_def place_ok_def ranges_readable_def list_ex_iff readable_def image_addresses_def)

lemma vjcc_compute_defined:
  assumes "tame f"
  shows "\<exists>t. vjcc_compute f v c x = Some t"
proof -
  let ?f = "f\<lparr>instrs := map (assume_instr c x) (instrs f)\<rparr>"
  have "op (assume_instr c x i) \<in> {op i, Op_CONST}" for i
    by (simp add: assume_instr_def split: Value.split)
  then have "no_risky_ops (instrs ?f)" using assms
    by (auto simp: tame_def no_risky_ops_def list_all_iff) (metis Op.distinct insert_iff singletonD)+
  then have "tame ?f" using assms ssa_assume by (simp add: tame_def)
  then obtain g rep where g: "run_fold_convergence ?f 32 = Some (g, rep)" "tame g" using run_fold_defined by blast
  from g(2) have "ssa (instrs g)" by (simp add: tame_def)
  from resolve_defined [OF this] obtain r where "resolve (instrs g) (build_instr_map (instrs g)) v = Some r" by blast
  with g(1) show ?thesis by (auto simp: vjcc_compute_def fold_converge_pipeline)
qed

lemma run_vm_segment_defined:
  assumes "no_risky_code decode" "bounded_decode decode" "readable img base start" "vm_refs inject = {}"
  shows "\<exists>seg. run_vm_segment (Some decode) img base reg start inject ranges 50000 2000 = Some seg"
proof -
  obtain memory where ev0: "segment_evaluator img base reg inject ranges = fresh_evaluator img base reg inject memory"
    by (rule segment_evaluator_fresh)
  have "10 * nat (50000 + 256) \<le> (2 ^ 32 :: nat)" by simp
  from guided_run_total [OF assms(1-3) this assms(4)] obtain rep ev where
    ev: "guided_run (Some decode) start 50000 2000 (segment_evaluator img base reg inject ranges) = Some (rep, ev)"
      "tame (ge_func ev)"
    unfolding ev0 tame_def by blast
  have ex: "\<exists>t. extract_vjcc_targets (ge_func ev) v c = Some t" for v c
  proof -
    obtain t n where "vjcc_compute (ge_func ev) v c 1 = Some t" "vjcc_compute (ge_func ev) v c 0 = Some n"
      using vjcc_compute_defined [OF ev(2)] by blast
    then show ?thesis by (simp add: extract_vjcc_targets_def)
  qed
  show ?thesis
  proof (cases "last_select (instrs (ge_func ev))")
    case (Some sel)
    obtain t where "extract_vjcc_targets (ge_func ev) (ref sel) (operands sel ! 0) = Some t" using ex by blast
    with ev(1) Some show ?thesis by (simp add: run_vm_segment_def Let_def)
  qed (use ev(1) in \<open>simp add: run_vm_segment_def Let_def\<close>)
qed

end
