(* ===== verification/PE_Loader.thy ===== *)
theory PE_Loader
  imports Deobf_Prelude
begin

section \<open>PELoader (include/deobf/pe_loader.h, src/ir/pe_loader.cpp)\<close>

text \<open>
  The minimal PE parser and the mapping of a file into a flat image. A file is a byte list;
  the packed header structs are read field by field at their offsets. A read or a copy that
  leaves its buffer is undefined behaviour in C++ and makes the result \<open>None\<close>; the
  \<^verbatim>\<open>std::optional\<close> that \<^verbatim>\<open>parse\<close> returns is the inner option. Offsets are
  natural numbers where the code computes in \<^verbatim>\<open>size_t\<close> on values bounded by the size of
  the file and words where it computes in \<^verbatim>\<open>uint32_t\<close> or on unchecked 64-bit fields.
\<close>

record PESection =
  sec_name :: string
  virtual_address :: u64
  virtual_size :: u64
  raw_offset :: u64
  raw_size :: u64
  characteristics :: u32

definition is_executable :: "PESection \<Rightarrow> bool" where
  "is_executable s \<longleftrightarrow> characteristics s AND 0x20000000 \<noteq> 0"

definition is_writable :: "PESection \<Rightarrow> bool" where
  "is_writable s \<longleftrightarrow> characteristics s AND 0x80000000 \<noteq> 0"

definition is_readable :: "PESection \<Rightarrow> bool" where
  "is_readable s \<longleftrightarrow> characteristics s AND 0x40000000 \<noteq> 0"

record PEImport =
  imp_dll_name :: string
  imp_func_name :: string
  imp_ordinal :: u16
  iat_rva :: u64

record PEExport =
  exp_name :: string
  exp_ordinal :: u32
  exp_rva :: u64

record PEInfo =
  image_base :: u64
  entry_point_rva :: u64
  size_of_image :: u32
  is_64bit :: bool
  sections :: "PESection list"
  pe_imports :: "PEImport list"
  pe_exports :: "PEExport list"

subsection \<open>Header fields\<close>

definition rd :: "nat \<Rightarrow> u8 list \<Rightarrow> nat \<Rightarrow> 'a::len word option" where
  "rd n data off =
     (if off + n \<le> length data then Some (of_le_bytes (take n (drop off data))) else None)"

text \<open>Sizes and field offsets of the packed structs.\<close>

definition sizeof_DOS_HEADER :: nat where "sizeof_DOS_HEADER = 64"
definition sizeof_FILE_HEADER :: nat where "sizeof_FILE_HEADER = 20"
definition sizeof_OPTIONAL_HEADER_64 :: nat where "sizeof_OPTIONAL_HEADER_64 = 112"
definition sizeof_SECTION_HEADER :: nat where "sizeof_SECTION_HEADER = 40"

definition e_magic :: "u8 list \<Rightarrow> u16 option" where
  "e_magic data = rd 2 data 0"

definition e_lfanew :: "u8 list \<Rightarrow> u32 option" where
  "e_lfanew data = rd 4 data 60"

definition fh_Machine :: "u8 list \<Rightarrow> nat \<Rightarrow> u16 option" where
  "fh_Machine data fh = rd 2 data fh"

definition fh_NumberOfSections :: "u8 list \<Rightarrow> nat \<Rightarrow> u16 option" where
  "fh_NumberOfSections data fh = rd 2 data (fh + 2)"

definition fh_SizeOfOptionalHeader :: "u8 list \<Rightarrow> nat \<Rightarrow> u16 option" where
  "fh_SizeOfOptionalHeader data fh = rd 2 data (fh + 16)"

definition opt_AddressOfEntryPoint :: "u8 list \<Rightarrow> nat \<Rightarrow> u32 option" where
  "opt_AddressOfEntryPoint data opt = rd 4 data (opt + 16)"

definition opt_ImageBase :: "u8 list \<Rightarrow> nat \<Rightarrow> u64 option" where
  "opt_ImageBase data opt = rd 8 data (opt + 24)"

definition opt_SizeOfImage :: "u8 list \<Rightarrow> nat \<Rightarrow> u32 option" where
  "opt_SizeOfImage data opt = rd 4 data (opt + 56)"

definition opt_NumberOfRvaAndSizes :: "u8 list \<Rightarrow> nat \<Rightarrow> u32 option" where
  "opt_NumberOfRvaAndSizes data opt = rd 4 data (opt + 108)"

definition read_section :: "u8 list \<Rightarrow> nat \<Rightarrow> PESection option" where
  "read_section data sh =
     (if sh + sizeof_SECTION_HEADER \<le> length data then
        do { vs \<leftarrow> (rd 4 data (sh + 8) :: u32 option);
             va \<leftarrow> (rd 4 data (sh + 12) :: u32 option);
             rs \<leftarrow> (rd 4 data (sh + 16) :: u32 option);
             ro \<leftarrow> (rd 4 data (sh + 20) :: u32 option);
             ch \<leftarrow> (rd 4 data (sh + 36) :: u32 option);
             Some \<lparr>sec_name = map (\<lambda>b. char_of (unat b)) (takeWhile (\<lambda>b. b \<noteq> 0) (take 8 (drop sh data))),
                   virtual_address = ucast va, virtual_size = ucast vs,
                   raw_offset = ucast ro, raw_size = ucast rs, characteristics = ch\<rparr> }
      else None)"

text \<open>The section loop, which breaks off at the first header that does not fit.\<close>

fun section_loop :: "u8 list \<Rightarrow> nat \<Rightarrow> nat \<Rightarrow> PESection list" where
  "section_loop data 0 sec_offset = []"
| "section_loop data (Suc n) sec_offset =
     (case read_section data sec_offset of
        None \<Rightarrow> []
      | Some s \<Rightarrow> s # section_loop data n (sec_offset + sizeof_SECTION_HEADER))"

text \<open>
  The part of \<^verbatim>\<open>parse\<close> after the optional header is known to fit. The import directory is
  looked up in the sections but nothing is done with it: only its two reads remain.
\<close>

definition parse_optional :: "u8 list \<Rightarrow> nat \<Rightarrow> nat \<Rightarrow> PEInfo option" where
  "parse_optional data fh opt =
     do { base \<leftarrow> opt_ImageBase data opt;
          entry \<leftarrow> opt_AddressOfEntryPoint data opt;
          size \<leftarrow> opt_SizeOfImage data opt;
          size_opt \<leftarrow> fh_SizeOfOptionalHeader data fh;
          n \<leftarrow> fh_NumberOfSections data fh;
          dirs \<leftarrow> opt_NumberOfRvaAndSizes data opt;
          (if 1 < dirs then
             do { import_rva \<leftarrow> (rd 4 data (opt + sizeof_OPTIONAL_HEADER_64 + 8) :: u32 option);
                  import_size \<leftarrow> (rd 4 data (opt + sizeof_OPTIONAL_HEADER_64 + 12) :: u32 option);
                  Some () }
           else Some ());
          Some \<lparr>image_base = base, entry_point_rva = ucast entry, size_of_image = size, is_64bit = True,
                sections = section_loop data (unat n) (opt + unat size_opt),
                pe_imports = [], pe_exports = []\<rparr> }"

definition parse :: "u8 list \<Rightarrow> PEInfo option option" where
  "parse data =
     (if length data < sizeof_DOS_HEADER then Some None
      else do {
        magic \<leftarrow> e_magic data;
        if magic \<noteq> 0x5A4D then Some None
        else do {
          pe_offset \<leftarrow> e_lfanew data;
          if length data < unat (pe_offset + 4) then Some None
          else do {
            pe_sig \<leftarrow> (rd 4 data (unat pe_offset) :: u32 option);
            if pe_sig \<noteq> 0x00004550 then Some None
            else do {
              machine \<leftarrow> fh_Machine data (unat pe_offset + 4);
              let opt_offset = unat (pe_offset + 4) + sizeof_FILE_HEADER
              in if machine \<noteq> 0x8664 then Some None
                 else if length data < opt_offset + sizeof_OPTIONAL_HEADER_64 then Some None
                 else map_option Some (parse_optional data (unat pe_offset + 4) opt_offset) } } } })"

definition find_section :: "PEInfo \<Rightarrow> string \<Rightarrow> PESection option" where
  "find_section pe name = find (\<lambda>s. sec_name s = name) (sections pe)"

definition section_for_rva :: "PEInfo \<Rightarrow> u64 \<Rightarrow> PESection option" where
  "section_for_rva pe rva =
     find (\<lambda>s. virtual_address s \<le> rva \<and> rva < virtual_address s + virtual_size s) (sections pe)"

subsection \<open>Mapping the file\<close>

text \<open>\<^verbatim>\<open>std::memcpy(dst.data() + d, src + s, n)\<close>.\<close>

definition memcpy :: "u8 list \<Rightarrow> nat \<Rightarrow> u8 list \<Rightarrow> nat \<Rightarrow> nat \<Rightarrow> u8 list option" where
  "memcpy dst d src s n =
     (if d + n \<le> length dst \<and> s + n \<le> length src
      then Some (take d dst @ take n (drop s src) @ drop (d + n) dst) else None)"

definition map_section :: "u8 list \<Rightarrow> PEInfo \<Rightarrow> PESection \<Rightarrow> u8 list \<Rightarrow> u8 list option" where
  "map_section raw pe sec img =
     (if of_nat (length raw) < raw_offset sec + raw_size sec then Some img
      else if ucast (size_of_image pe) < virtual_address sec + raw_size sec then Some img
      else memcpy img (unat (virtual_address sec)) raw (unat (raw_offset sec))
             (min (unat (raw_size sec)) (unat (virtual_size sec))))"

fun map_sections :: "u8 list \<Rightarrow> PEInfo \<Rightarrow> PESection list \<Rightarrow> u8 list \<Rightarrow> u8 list option" where
  "map_sections raw pe [] img = Some img"
| "map_sections raw pe (s # ss) img =
     do { img' \<leftarrow> map_section raw pe s img; map_sections raw pe ss img' }"

definition header_size :: "u8 list \<Rightarrow> PEInfo \<Rightarrow> nat" where
  "header_size raw pe =
     (let h = min (unat (size_of_image pe)) (length raw)
      in case sections pe of [] \<Rightarrow> h | s # _ \<Rightarrow> min h (unat (raw_offset s)))"

definition load_image :: "u8 list \<Rightarrow> PEInfo \<Rightarrow> u8 list option" where
  "load_image raw pe =
     do { img \<leftarrow> memcpy (replicate (unat (size_of_image pe)) 0) 0 raw 0 (min (header_size raw pe) (length raw));
          map_sections raw pe (sections pe) img }"

definition build_iat_map :: "PEInfo \<Rightarrow> (u64 \<times> string) list" where
  "build_iat_map pe = map (\<lambda>i. (image_base pe + iat_rva i, imp_func_name i)) (pe_imports pe)"


subsection \<open>Lemmas\<close>

lemma rd_Some: "off + n \<le> length data \<Longrightarrow> \<exists>v. rd n data off = Some v"
  by (simp add: rd_def)

lemma rd_defined [defined_intros]: "off + n \<le> length data \<Longrightarrow> rd n data off \<noteq> None"
  by (simp add: rd_def)

lemma unat_ucast_32_64 [simp]: "unat (ucast (x :: u32) :: u64) = unat x"
  by transfer (simp add: take_bit_int_eq_self_iff nat_take_bit_eq)

lemma unat_u32: "unat (x :: u32) < 2 ^ 32"
  using unsigned_less [of x] by simp

definition fields32 :: "PESection \<Rightarrow> bool" where
  "fields32 s \<longleftrightarrow> unat (virtual_address s) < 2 ^ 32 \<and> unat (virtual_size s) < 2 ^ 32
     \<and> unat (raw_offset s) < 2 ^ 32 \<and> unat (raw_size s) < 2 ^ 32"

lemma read_section_fields: "read_section data sh = Some s \<Longrightarrow> fields32 s"
  unfolding read_section_def fields32_def
  by (intro conjI) (auto simp only: if_split_asm option.distinct split: if_splits elim!: bind_SomeE,
      auto simp: unat_u32 [simplified])

lemma section_loop_fields: "list_all fields32 (section_loop data n off)"
  by (induction data n off rule: section_loop.induct) (auto dest: read_section_fields split: option.splits)

lemma length_section_loop: "length (section_loop data n off) \<le> n"
  by (induction data n off rule: section_loop.induct) (auto split: option.splits)

lemma unat_plus_small:
  assumes "unat (a :: u64) < 2 ^ 32" "unat b < 2 ^ 32"
  shows "unat (a + b) = unat a + unat b"
  by (rule unat_add_lem [THEN iffD1]) (use assms in simp)

lemma memcpy_nth:
  assumes "memcpy dst d src s n = Some r"
  shows "length r = length dst"
    "i < length dst \<Longrightarrow> r ! i = (if d \<le> i \<and> i < d + n then src ! (s + (i - d)) else dst ! i)"
  using assms unfolding memcpy_def
  by (auto simp: nth_append split: if_splits)

text \<open>What a section contributes, without overflow.\<close>

definition loads :: "u8 list \<Rightarrow> PEInfo \<Rightarrow> PESection \<Rightarrow> bool" where
  "loads raw pe s \<longleftrightarrow> unat (raw_offset s) + unat (raw_size s) \<le> length raw
     \<and> unat (virtual_address s) + unat (raw_size s) \<le> unat (size_of_image pe)"

definition covers :: "PESection \<Rightarrow> nat \<Rightarrow> bool" where
  "covers s i \<longleftrightarrow> unat (virtual_address s) \<le> i
     \<and> i < unat (virtual_address s) + min (unat (raw_size s)) (unat (virtual_size s))"

definition section_byte :: "u8 list \<Rightarrow> PEInfo \<Rightarrow> PESection list \<Rightarrow> nat \<Rightarrow> u8 \<Rightarrow> u8" where
  "section_byte raw pe ss i b =
     (case find (\<lambda>s. loads raw pe s \<and> covers s i) (rev ss) of
        Some s \<Rightarrow> raw ! (unat (raw_offset s) + (i - unat (virtual_address s)))
      | None \<Rightarrow> b)"

definition image_byte :: "u8 list \<Rightarrow> PEInfo \<Rightarrow> nat \<Rightarrow> u8" where
  "image_byte raw pe i =
     section_byte raw pe (sections pe) i (if i < header_size raw pe then raw ! i else 0)"

lemma map_section_correct:
  assumes "fields32 s" "length raw < 2 ^ 64" "length img = unat (size_of_image pe)"
  shows "\<exists>r. map_section raw pe s img = Some r \<and> length r = length img
    \<and> (\<forall>i < length img. r ! i = section_byte raw pe [s] i (img ! i))"
proof -
  have sums: "unat (raw_offset s + raw_size s) = unat (raw_offset s) + unat (raw_size s)"
    "unat (virtual_address s + raw_size s) = unat (virtual_address s) + unat (raw_size s)"
    using assms(1) by (simp_all add: fields32_def unat_plus_small)
  have "unat (of_nat (length raw) :: u64) = length raw"
    using assms(2) by (simp add: unat_of_nat)
  moreover have "unat (ucast (size_of_image pe) :: u64) = unat (size_of_image pe)"
    by simp
  ultimately have guards:
    "of_nat (length raw) < raw_offset s + raw_size s \<longleftrightarrow> length raw < unat (raw_offset s) + unat (raw_size s)"
    "ucast (size_of_image pe) < virtual_address s + raw_size s
      \<longleftrightarrow> unat (size_of_image pe) < unat (virtual_address s) + unat (raw_size s)"
    by (simp_all add: word_less_nat_alt sums)
  show ?thesis
  proof (cases "loads raw pe s")
    case False
    then have "map_section raw pe s img = Some img"
      unfolding map_section_def guards by (auto simp: loads_def)
    with False show ?thesis by (simp add: section_byte_def)
  next
    case True
    let ?n = "min (unat (raw_size s)) (unat (virtual_size s))"
    have "unat (virtual_address s) + ?n \<le> length img" "unat (raw_offset s) + ?n \<le> length raw"
      using True assms(3) by (auto simp: loads_def)
    then obtain r where r: "memcpy img (unat (virtual_address s)) raw (unat (raw_offset s)) ?n = Some r"
      by (simp add: memcpy_def)
    have "map_section raw pe s img = Some r"
      using True r unfolding map_section_def guards by (simp add: loads_def)
    with True show ?thesis
      by (auto simp: memcpy_nth [OF r] section_byte_def covers_def)
  qed
qed

lemma find_app: "find P (xs @ ys) = (case find P xs of None \<Rightarrow> find P ys | Some x \<Rightarrow> Some x)"
  by (induction xs) simp_all

lemma section_byte_Cons:
  "section_byte raw pe (s # ss) i b = section_byte raw pe ss i (section_byte raw pe [s] i b)"
  by (auto simp: section_byte_def find_app split: option.splits)

lemma map_sections_correct:
  assumes "list_all fields32 ss" "length raw < 2 ^ 64" "length img = unat (size_of_image pe)"
  shows "\<exists>r. map_sections raw pe ss img = Some r \<and> length r = length img
    \<and> (\<forall>i < length img. r ! i = section_byte raw pe ss i (img ! i))"
  using assms(1,3)
proof (induction ss arbitrary: img)
  case (Cons s ss)
  from map_section_correct [of s raw img pe] Cons.prems assms(2) obtain im where
    im: "map_section raw pe s img = Some im" "length im = length img"
      "\<forall>i < length img. im ! i = section_byte raw pe [s] i (img ! i)" by auto
  from Cons.IH [of im] Cons.prems im show ?case
    by (auto simp: section_byte_Cons [of raw pe s ss])
qed (simp add: section_byte_def)

lemma parse_Some:
  assumes "parse data = Some (Some pe)"
  shows "list_all fields32 (sections pe)"
  using assms
  by (auto simp: parse_def parse_optional_def section_loop_fields Let_def split: if_splits elim!: bind_SomeE)

subsection \<open>Properties\<close>

text \<open>
  Property C25. The flat image of a parsed file: building it never leaves a buffer, whatever the
  section table says; it has the size the header gives; and each of its bytes comes from the
  last section that fits into file and image and covers it, from the headers (up to the first
  section's raw data) when none does, and is zero otherwise.
\<close>

theorem load_image_correct:
  assumes "parse raw = Some (Some pe)" "length raw < 2 ^ 64"
  shows "load_image raw pe = Some (map (image_byte raw pe) [0..<unat (size_of_image pe)])"
proof -
  let ?n = "unat (size_of_image pe)"
  have h: "header_size raw pe \<le> ?n" "header_size raw pe \<le> length raw"
    by (auto simp: header_size_def Let_def split: list.splits)
  then obtain im where im: "memcpy (replicate ?n 0) 0 raw 0 (min (header_size raw pe) (length raw)) = Some im"
    by (simp add: memcpy_def)
  have len: "length im = ?n" and nth: "\<And>i. i < ?n \<Longrightarrow> im ! i = (if i < header_size raw pe then raw ! i else 0)"
    using memcpy_nth [OF im] h by auto
  from map_sections_correct [OF parse_Some [OF assms(1)] assms(2) len] obtain r where
    r: "map_sections raw pe (sections pe) im = Some r" "length r = ?n"
      "\<And>i. i < ?n \<Longrightarrow> r ! i = section_byte raw pe (sections pe) i (im ! i)"
    using len by auto
  have "r = map (image_byte raw pe) [0..<?n]"
    using r(2) by (intro nth_equalityI) (simp_all add: r(3) nth image_byte_def)
  with im r(1) show ?thesis by (simp add: load_image_def)
qed

text \<open>A file with one section of four bytes, mapped at 16 of an image of 32 bytes.\<close>

definition tiny_pe :: "u8 list" where
  "tiny_pe = [0x4D, 0x5A] @ replicate 58 0 @ [64, 0, 0, 0]
     @ [0x50, 0x45, 0, 0] @ [0x64, 0x86, 1, 0] @ replicate 12 0 @ [112, 0, 0, 0]
     @ replicate 24 0 @ [0, 0, 0, 0x40, 1, 0, 0, 0] @ replicate 24 0 @ [32, 0, 0, 0] @ replicate 48 0 @ [0, 0, 0, 0]
     @ [0x2E, 0x74, 0, 0, 0, 0, 0, 0] @ [4, 0, 0, 0] @ [16, 0, 0, 0] @ [4, 0, 0, 0] @ [240, 0, 0, 0]
     @ replicate 12 0 @ [0, 0, 0, 0x60] @ [1, 2, 3, 4]"

lemma tiny_pe_parsed:
  "parse tiny_pe = Some (Some \<lparr>image_base = 0x140000000, entry_point_rva = 0, size_of_image = 32, is_64bit = True,
     sections = [\<lparr>sec_name = ''.t'', virtual_address = 16, virtual_size = 4, raw_offset = 240, raw_size = 4,
       characteristics = 0x60000000\<rparr>], pe_imports = [], pe_exports = []\<rparr>)"
  by code_simp

theorem load_image_correct_witness:
  "\<exists>pe. parse tiny_pe = Some (Some pe)
     \<and> map_option (drop 16) (load_image tiny_pe pe) = Some ([1, 2, 3, 4] @ replicate 12 0)"
proof -
  obtain pe where pe: "parse tiny_pe = Some (Some pe)" "unat (size_of_image pe) = 32"
    "map (image_byte tiny_pe pe) [16..<32] = [1, 2, 3, 4] @ replicate 12 0"
  proof
    show "parse tiny_pe = Some (Some (the (the (parse tiny_pe))))" by (simp add: tiny_pe_parsed)
    show "unat (size_of_image (the (the (parse tiny_pe)))) = 32" by (simp add: tiny_pe_parsed)
    show "map (image_byte tiny_pe (the (the (parse tiny_pe)))) [16..<32] = [1, 2, 3, 4] @ replicate 12 0"
      unfolding tiny_pe_parsed by code_simp
  qed
  have "length tiny_pe < 2 ^ 64" by (simp add: tiny_pe_def)
  from load_image_correct [OF pe(1) this] pe show ?thesis by (auto simp: drop_map)
qed



text \<open>
  Property C27. The three ways out of the file that the checks leave open: \<^verbatim>\<open>pe_offset + 4\<close>
  wraps in 32 bits, so an \<^verbatim>\<open>e_lfanew\<close> of \<open>2 ^ 32 - 2\<close> passes the bounds check; the
  machine field is read before the size of the file header is checked; and the data directories
  are read without a check. In each case \<^verbatim>\<open>parse\<close> reads beyond the end of the file.
\<close>

theorem parse_leaves_file:
  "parse ([0x4D, 0x5A] @ replicate 58 0 @ [0xFE, 0xFF, 0xFF, 0xFF]) = None
   \<and> parse (take 68 tiny_pe) = None
   \<and> parse (take 196 tiny_pe @ [16, 0, 0, 0]) = None"
proof (intro conjI)
  let ?d = "[0x4D, 0x5A] @ replicate 58 0 @ [0xFE, 0xFF, 0xFF, 0xFF] :: u8 list"
  have "e_magic ?d = Some 0x5A4D" "e_lfanew ?d = Some 0xFFFFFFFE"
    by code_simp+
  then show "parse ?d = None"
    by (simp add: parse_def sizeof_DOS_HEADER_def rd_def)
  show "parse (take 68 tiny_pe) = None" by code_simp
  show "parse (take 196 tiny_pe @ [16, 0, 0, 0]) = None" by code_simp
qed

end
