(* ===== verification/IAT_Cracker.thy ===== *)
theory IAT_Cracker
  imports Byte_Memory
begin

section \<open>IATCracker (include/deobf/iat_cracker.h, src/passes/iat_cracker.cpp)\<close>

text \<open>
  The cracker of hashed import tables: a list of API names, a table from 64-bit hashes to
  (API name, algorithm label) built from it, and the scan of a data region for aligned
  64-bit values that are in the table. The hash functions are the seven of the source, on
  the machine words it computes with; a \<^verbatim>\<open>char\<close> is signed on the platforms the library
  is built for, which only \<^verbatim>\<open>ror13_add_unicode\<close> observes. The
  \<^verbatim>\<open>unordered_map\<close> is an association list, its \<^verbatim>\<open>operator[]\<close> assignment is
  \<open>AList.update\<close>.
\<close>

record HashMatch =
  file_offset :: u64
  hash_value :: u64
  api_name :: string
  algorithm :: string

record IATCracker =
  api_names :: "string list"
  hash_to_api :: "(u64 \<times> string \<times> string) list"

definition new_cracker :: IATCracker where
  "new_cracker = \<lparr>api_names = [], hash_to_api = []\<rparr>"

definition add_api :: "IATCracker \<Rightarrow> string \<Rightarrow> IATCracker" where
  "add_api ck name = ck\<lparr>api_names := api_names ck @ [name]\<rparr>"

definition api_count :: "IATCracker \<Rightarrow> nat" where
  "api_count ck = length (api_names ck)"

definition hash_count :: "IATCracker \<Rightarrow> nat" where
  "hash_count ck = length (hash_to_api ck)"

definition default_apis :: "string list" where
  "default_apis = [
        ''ExAllocatePool'', ''ExAllocatePoolWithTag'', ''ExFreePool'', ''ExFreePoolWithTag'',
        ''ExAllocatePool2'', ''ExAllocatePool3'',
        ''MmGetSystemRoutineAddress'', ''MmCopyVirtualMemory'', ''MmCopyMemory'',
        ''MmIsAddressValid'', ''MmMapIoSpace'', ''MmUnmapIoSpace'',
        ''MmGetPhysicalAddress'', ''MmAllocateContiguousMemory'',
        ''IoCreateDevice'', ''IoDeleteDevice'', ''IoCreateSymbolicLink'', ''IoDeleteSymbolicLink'',
        ''IoCompleteRequest'', ''IoAllocateMdl'', ''IoFreeMdl'', ''IoGetCurrentProcess'',
        ''PsCreateSystemThread'', ''PsTerminateSystemThread'',
        ''PsSetCreateProcessNotifyRoutine'', ''PsSetCreateProcessNotifyRoutineEx'',
        ''PsSetCreateThreadNotifyRoutine'', ''PsSetLoadImageNotifyRoutine'',
        ''PsGetCurrentProcess'', ''PsGetCurrentThread'', ''PsGetProcessId'',
        ''PsLookupProcessByProcessId'', ''PsLookupThreadByThreadId'',
        ''ObReferenceObjectByHandle'', ''ObDereferenceObject'', ''ObOpenObjectByPointer'',
        ''ObRegisterCallbacks'', ''ObUnRegisterCallbacks'',
        ''KeWaitForSingleObject'', ''KeSetEvent'', ''KeInitializeEvent'',
        ''KeAcquireSpinLockRaiseToDpc'', ''KeReleaseSpinLock'',
        ''KeEnterCriticalRegion'', ''KeLeaveCriticalRegion'',
        ''KeStackAttachProcess'', ''KeUnstackDetachProcess'',
        ''KeQueryActiveProcessorCount'', ''KeGetCurrentIrql'',
        ''ZwQuerySystemInformation'', ''ZwQueryInformationProcess'',
        ''ZwOpenProcess'', ''ZwClose'', ''ZwCreateFile'', ''ZwReadFile'', ''ZwWriteFile'',
        ''ZwQueryVirtualMemory'', ''ZwAllocateVirtualMemory'', ''ZwFreeVirtualMemory'',
        ''RtlInitUnicodeString'', ''RtlCopyUnicodeString'', ''RtlGetVersion'',
        ''RtlRandomEx'', ''RtlInitAnsiString'',
        ''FltRegisterFilter'', ''FltUnregisterFilter'', ''FltStartFiltering'',
        ''FltGetFileNameInformation'', ''FltReleaseFileNameInformation'',
        ''KeIpiGenericCall'', ''KeSetAffinityThread'',
        ''KdDisableDebugger'', ''KdEnableDebugger'',
        ''ProbeForRead'', ''ProbeForWrite'',
        ''IoCreateDeviceSecure'', ''IoValidateDeviceIoControlAccess'',
        ''MmMapMemoryDumpMdl'', ''PsGetProcessSessionId'',
        ''NtQueryInformationProcess'', ''NtReadVirtualMemory'', ''NtWriteVirtualMemory'',
        ''KeAcquireGuardedMutex'', ''KeReleaseGuardedMutex'',
        ''IofCompleteRequest'', ''IofCallDriver'']"

definition load_default_kernel_apis :: "IATCracker \<Rightarrow> IATCracker" where
  "load_default_kernel_apis ck = foldl add_api ck default_apis"

subsection \<open>The hash functions\<close>

text \<open>\<open>byte_of\<close> is \<^verbatim>\<open>static_cast<uint8_t>(c)\<close>; \<open>wide_of\<close> is
  \<^verbatim>\<open>static_cast<uint16_t>(c)\<close>, which sign-extends.\<close>

definition byte_of :: "char \<Rightarrow> u8" where
  "byte_of c = of_char c"

definition wide_of :: "char \<Rightarrow> u16" where
  "wide_of c = scast (byte_of c)"

definition lower_byte :: "char \<Rightarrow> u8" where
  "lower_byte c = (if CHR ''A'' \<le> c \<and> c \<le> CHR ''Z'' then byte_of c + 32 else byte_of c)"

definition fnv1a_64 :: "string \<Rightarrow> u64" where
  "fnv1a_64 s = foldl (\<lambda>h c. (h XOR ucast (byte_of c)) * 0x100000001b3) 0xcbf29ce484222325 s"

definition fnv1a_64_lower :: "string \<Rightarrow> u64" where
  "fnv1a_64_lower s = foldl (\<lambda>h c. (h XOR ucast (lower_byte c)) * 0x100000001b3) 0xcbf29ce484222325 s"

definition djb2_64 :: "string \<Rightarrow> u64" where
  "djb2_64 s = foldl (\<lambda>h c. h * 33 + ucast (byte_of c)) 5381 s"

definition sdbm_64 :: "string \<Rightarrow> u64" where
  "sdbm_64 s = foldl (\<lambda>h c. ucast (byte_of c) + push_bit 6 h + push_bit 16 h - h) 0 s"

definition ror13 :: "u32 \<Rightarrow> u32" where
  "ror13 h = drop_bit 13 h OR push_bit 19 h"

definition ror13_add :: "string \<Rightarrow> u64" where
  "ror13_add s = ucast (foldl (\<lambda>h c. ror13 h + ucast (byte_of c)) 0 s)"

definition ror13_add_unicode :: "string \<Rightarrow> u64" where
  "ror13_add_unicode s = ucast (foldl (\<lambda>h c. ror13 h + ucast (wide_of c)) 0 s)"

definition crc_bit :: "u32 \<Rightarrow> u32" where
  "crc_bit crc = (if crc AND 1 \<noteq> 0 then drop_bit 1 crc XOR 0xEDB88320 else drop_bit 1 crc)"

definition crc_byte :: "u32 \<Rightarrow> u8 \<Rightarrow> u32" where
  "crc_byte crc b = (crc_bit ^^ 8) (crc XOR ucast b)"

definition crc32_custom :: "string \<Rightarrow> u64 \<Rightarrow> u64" where
  "crc32_custom s seed = ucast (foldl (\<lambda>crc c. crc_byte crc (byte_of c)) (ucast seed) s)"

subsection \<open>The table and the scan\<close>

definition precompute_name ::
  "(u64 \<times> string \<times> string) list \<Rightarrow> string \<Rightarrow> (u64 \<times> string \<times> string) list" where
  "precompute_name t name =
     (let t = AList.update (fnv1a_64 name) (name, ''fnv1a'') t;
          t = AList.update (fnv1a_64_lower name) (name, ''fnv1a_lower'') t;
          t = AList.update (djb2_64 name) (name, ''djb2'') t;
          t = AList.update (sdbm_64 name) (name, ''sdbm'') t;
          t = AList.update (ror13_add name) (name, ''ror13'') t;
          t = AList.update (ror13_add_unicode name) (name, ''ror13_unicode'') t;
          t = AList.update (crc32_custom name 0) (name, ''crc32_0'') t
      in AList.update (crc32_custom name 0xFFFFFFFF) (name, ''crc32_ff'') t)"

definition precompute :: "IATCracker \<Rightarrow> IATCracker" where
  "precompute ck = ck\<lparr>hash_to_api := foldl precompute_name [] (api_names ck)\<rparr>"

text \<open>The loop \<^verbatim>\<open>for (size_t i = 0; i <= len - 8; i += 8)\<close>, entered when the region
  has at least eight bytes; a region is a C++ object, so \<^verbatim>\<open>i + 8\<close> does not wrap.\<close>

function scan_loop ::
  "(u64 \<times> string \<times> string) list \<Rightarrow> u8 list \<Rightarrow> u64 \<Rightarrow> nat \<Rightarrow> HashMatch list" where
  "scan_loop t data base i =
     (if i \<le> length data - 8 then
        let val = of_le_bytes (take 8 (drop i data)) :: u64 in
        if val = 0 then scan_loop t data base (i + 8)
        else (case map_of t val of
            None \<Rightarrow> scan_loop t data base (i + 8)
          | Some (name, alg) \<Rightarrow>
              \<lparr>file_offset = base + of_nat i, hash_value = val, api_name = name, algorithm = alg\<rparr>
              # scan_loop t data base (i + 8))
      else [])"
  by pat_completeness auto
termination
  by (relation "measure (\<lambda>(t, data, base, i). Suc (length data) - i)") auto

declare scan_loop.simps [simp del]

definition scan :: "IATCracker \<Rightarrow> u8 list \<Rightarrow> u64 \<Rightarrow> HashMatch list" where
  "scan ck data base =
     (if length data < 8 then [] else scan_loop (hash_to_api ck) data base 0)"


subsection \<open>Specification\<close>

text \<open>
  The table as the list of the assignments that build it, in their order; the label of an
  algorithm with the hash it stands for; and the aligned 64-bit words of a region. The
  table's map is one more instance of the store interface: keys are hashes, and two
  different keys never disturb each other.
\<close>

definition hash_entries :: "string \<Rightarrow> (u64 \<times> string \<times> string) list" where
  "hash_entries name =
     [(fnv1a_64 name, name, ''fnv1a''), (fnv1a_64_lower name, name, ''fnv1a_lower''),
      (djb2_64 name, name, ''djb2''), (sdbm_64 name, name, ''sdbm''),
      (ror13_add name, name, ''ror13''), (ror13_add_unicode name, name, ''ror13_unicode''),
      (crc32_custom name 0, name, ''crc32_0''),
      (crc32_custom name 0xFFFFFFFF, name, ''crc32_ff'')]"

definition all_entries :: "string list \<Rightarrow> (u64 \<times> string \<times> string) list" where
  "all_entries names = concat (map hash_entries names)"

definition algorithm_hash :: "string \<Rightarrow> string \<Rightarrow> u64 option" where
  "algorithm_hash alg name = map_of (map (\<lambda>(h, _, a). (a, h)) (hash_entries name)) alg"

definition word_at :: "u8 list \<Rightarrow> nat \<Rightarrow> u64" where
  "word_at data k = of_le_bytes (take 8 (drop (8 * k) data))"

definition matches_at :: "(u64 \<rightharpoonup> string \<times> string) \<Rightarrow> u8 list \<Rightarrow> u64 \<Rightarrow> nat \<Rightarrow> HashMatch list" where
  "matches_at f data base k =
     (if word_at data k = 0 then []
      else (case f (word_at data k) of None \<Rightarrow> []
        | Some (name, alg) \<Rightarrow> [\<lparr>file_offset = base + of_nat (8 * k),
            hash_value = word_at data k, api_name = name, algorithm = alg\<rparr>]))"

interpretation hash_table: word_store map_of "\<lambda>t h v. AList.update h v t" "(\<noteq>)"
  by unfold_locales (simp_all add: map_of_update)

lemma precompute_name_entries:
  "precompute_name t name = store_all (\<lambda>t h v. AList.update h v t) t (hash_entries name)"
  by (simp add: precompute_name_def hash_entries_def Let_def)

lemma precompute_entries:
  "foldl precompute_name t names = store_all (\<lambda>t h v. AList.update h v t) t (all_entries names)"
  by (induction names arbitrary: t) (simp_all add: all_entries_def precompute_name_entries)

lemma precompute_map:
  "map_of (hash_to_api (precompute ck)) h = map_of (rev (all_entries (api_names ck))) h"
  using hash_table.ld_store_all [of "all_entries (api_names ck)" h "[]"]
  by (auto simp: precompute_def precompute_entries split: option.splits)

lemma div8_le: "(m :: nat) < i + 8 \<Longrightarrow> i mod 8 = 0 \<Longrightarrow> m div 8 \<le> i div 8"
  by (metis add.commute div_mult_self1_is_m dvd_imp_mod_0 less_Suc_eq_le less_mult_imp_div_less
      mod_0_imp_dvd mult_Suc_right mult.commute dvd_mult_div_cancel zero_less_numeral)

lemma scan_loop_matches:
  assumes "8 \<le> length data" "i mod 8 = 0"
  shows "scan_loop t data base i =
    concat (map (matches_at (map_of t) data base) [i div 8..<length data div 8])"
  using assms
proof (induction t data base i rule: scan_loop.induct)
  case (1 t data base i)
  show ?case
  proof (cases "i \<le> length data - 8")
    case False
    then have "length data < i + 8" by linarith
    then have "length data div 8 \<le> i div 8"
      using 1(5) by (simp add: div8_le)
    with False show ?thesis by (subst scan_loop.simps) simp
  next
    case True
    with 1 have lt: "i div 8 < length data div 8" and eq: "8 * (i div 8) = i"
      using 1(4,5) by (auto simp: less_eq_div_iff_mult_less_eq Suc_le_eq [symmetric])
    define v where "v = (of_le_bytes (take 8 (drop i data)) :: u64)"
    have v: "word_at data (i div 8) = v" by (simp add: word_at_def v_def eq)
    have next_word: "(i + 8) div 8 = Suc (i div 8)" by (simp add: div_add_self2)
    have ih: "scan_loop t data base (i + 8) =
      concat (map (matches_at (map_of t) data base) [Suc (i div 8)..<length data div 8])"
    proof (cases "v = 0")
      case True
      with 1(1) [OF \<open>i \<le> length data - 8\<close> v_def] 1(4,5) show ?thesis by (simp only: next_word) simp
    next
      case False
      with 1(2) [OF True v_def] 1(3) [OF True v_def] 1(4,5)
      show ?thesis by (cases "map_of t v") (auto simp only: next_word, auto)
    qed
    have "scan_loop t data base i =
        matches_at (map_of t) data base (i div 8) @ scan_loop t data base (i + 8)"
      using True by (subst scan_loop.simps)
        (simp add: Let_def v_def [symmetric] matches_at_def v eq split: option.split prod.split)
    with ih lt show ?thesis by (simp add: upt_conv_Cons)
  qed
qed

lemma scan_matches:
  "scan ck data base =
     concat (map (matches_at (map_of (hash_to_api ck)) data base) [0..<length data div 8])"
  by (simp add: scan_def scan_loop_matches)

lemma matches_at_cong: "(\<And>h. f h = g h) \<Longrightarrow> matches_at f = matches_at g"
  by (metis ext)

lemma in_scan_iff:
  "m \<in> set (scan (precompute ck) data base) \<longleftrightarrow>
     (\<exists>k<length data div 8. word_at data k \<noteq> 0 \<and> hash_value m = word_at data k
        \<and> file_offset m = base + of_nat (8 * k)
        \<and> map_of (rev (all_entries (api_names ck))) (word_at data k) = Some (api_name m, algorithm m))"
proof -
  have "m \<in> set (matches_at f data base k) \<longleftrightarrow> word_at data k \<noteq> 0 \<and> hash_value m = word_at data k
      \<and> file_offset m = base + of_nat (8 * k) \<and> f (word_at data k) = Some (api_name m, algorithm m)" for f k
    by (cases m) (auto simp: matches_at_def split: option.splits)
  then show ?thesis by (auto simp: scan_matches precompute_map Bex_def)
qed

lemma entry_split:
  "\<forall>e \<in> set xs. fst (snd e) = nm \<Longrightarrow>
   (h, n, a) \<in> set xs \<longleftrightarrow> n = nm \<and> (a, h) \<in> set (map (\<lambda>(h, _, a). (a, h)) xs)"
  by force

lemma hash_entries_hash:
  "(h, n, a) \<in> set (hash_entries name) \<longleftrightarrow> n = name \<and> algorithm_hash a name = Some h"
proof -
  have "distinct (map fst (map (\<lambda>(h, _, a). (a, h)) (hash_entries name)))"
    by (simp add: hash_entries_def)
  then have "algorithm_hash a name = Some h
      \<longleftrightarrow> (a, h) \<in> set (map (\<lambda>(h, _, a). (a, h)) (hash_entries name))"
    by (simp only: algorithm_hash_def map_of_eq_Some_iff)
  moreover have "\<forall>e \<in> set (hash_entries name). fst (snd e) = name"
    by (simp add: hash_entries_def)
  ultimately show ?thesis by (simp only: entry_split)
qed

lemma all_entries_hash:
  "(h, n, a) \<in> set (all_entries names) \<longleftrightarrow> n \<in> set names \<and> algorithm_hash a n = Some h"
  by (auto simp: all_entries_def hash_entries_hash)

subsection \<open>Facts on the hash functions\<close>

definition ascii :: "string \<Rightarrow> bool" where
  "ascii s \<longleftrightarrow> list_all (\<lambda>c. byte_of c < 128) s"

lemma scast_low_byte: "(b :: u8) < 128 \<Longrightarrow> (scast b :: u16) = ucast b"
proof (rule bit_word_eqI)
  fix k assume b: "b < 128" and k: "k < LENGTH(16)"
  have "\<not> bit b i" if "7 \<le> i" for i
  proof -
    have "unat b < 2 ^ 7" using b by (simp add: word_less_nat_alt)
    also have "\<dots> \<le> 2 ^ i" using that by (intro power_increasing) auto
    finally have "\<not> bit (unat b) i" by (simp add: bit_iff_odd)
    then show ?thesis by (auto simp: bit_unsigned_iff dest: bit_imp_le_length)
  qed
  with k show "bit (scast b :: u16) k \<longleftrightarrow> bit (ucast b :: u16) k"
    by (auto simp: bit_simps min_def not_less)
qed

lemma ucast_wide: "(ucast (ucast (b :: u8) :: u16) :: u32) = ucast b"
  by (rule bit_word_eqI) (auto simp: bit_simps dest: bit_imp_le_length)

lemma ror13_ascii:
  assumes "ascii s"
  shows "ror13_add_unicode s = ror13_add s"
proof -
  have "ascii s \<Longrightarrow> foldl (\<lambda>h c. ror13 h + ucast (wide_of c)) x s
      = foldl (\<lambda>h c. ror13 h + ucast (byte_of c)) x s" for x
  proof (induction s arbitrary: x)
    case (Cons c s)
    have "(ucast (wide_of c) :: u32) = ucast (byte_of c)"
      using Cons.prems by (simp add: ascii_def wide_of_def scast_low_byte ucast_wide)
    with Cons show ?case by (simp add: ascii_def)
  qed simp
  with assms show ?thesis by (simp add: ror13_add_unicode_def ror13_add_def)
qed

lemma ucast_inject_32: "(ucast (x :: u32) :: u64) = ucast y \<longleftrightarrow> x = y"
proof
  assume eq: "(ucast x :: u64) = ucast y"
  show "x = y"
  proof (rule bit_word_eqI)
    fix k assume "k < LENGTH(32)"
    then show "bit x k \<longleftrightarrow> bit y k"
      using arg_cong [OF eq, of "\<lambda>w. bit w k"] by (simp add: bit_simps)
  qed
qed simp

lemma xor_cancel: "x XOR z = y XOR z \<longleftrightarrow> x = (y :: 'a::len word)"
  by (metis xor.assoc xor_self_eq xor.right_neutral)

lemma crc_bit_inject: "crc_bit x = crc_bit y \<longleftrightarrow> x = y"
proof
  assume eq: "crc_bit x = crc_bit y"
  have top: "bit (crc_bit z) 31 \<longleftrightarrow> bit z 0" for z
    by (auto simp: crc_bit_def bit_simps and_one_eq odd_iff_mod_2_eq_one bit_0 dest: bit_imp_le_length)
  have low: "x AND 1 \<noteq> 0 \<longleftrightarrow> y AND 1 \<noteq> 0"
    using top [of x] top [of y] eq by (simp add: and_one_eq bit_0 odd_iff_mod_2_eq_one)
  then have "drop_bit 1 x = drop_bit 1 y"
    using eq by (cases "x AND 1 = 0") (auto simp: crc_bit_def xor_cancel)
  then have "bit (drop_bit 1 x) i \<longleftrightarrow> bit (drop_bit 1 y) i" for i by simp
  then have "bit x k \<longleftrightarrow> bit y k" if "0 < k" for k
    using that by (cases k) (simp_all add: bit_drop_bit_eq)
  moreover have "bit x 0 \<longleftrightarrow> bit y 0" using top eq by metis
  ultimately show "x = y" by (metis bit_word_eqI gr0I)
qed simp

lemma crc_byte_inject: "crc_byte x b = crc_byte y b \<longleftrightarrow> x = y"
proof -
  have "(crc_bit ^^ n) u = (crc_bit ^^ n) v \<longleftrightarrow> u = v" for n u v
    by (induction n) (simp_all add: crc_bit_inject)
  then show ?thesis by (simp only: crc_byte_def xor_cancel)
qed

lemma crc_fold_inject:
  "foldl (\<lambda>crc c. crc_byte crc (byte_of c)) x s = foldl (\<lambda>crc c. crc_byte crc (byte_of c)) y s \<longleftrightarrow> x = y"
  by (induction s arbitrary: x y) (simp_all add: crc_byte_inject)

subsection \<open>Properties\<close>

text \<open>
  The table and the scan, together: after \<open>precompute\<close>, a scan reports, in
  ascending order of offset, one match for each aligned 64-bit word of the region that is
  not zero and is a hash of a registered name, and nothing else; the match carries the
  offset (modulo \<open>2 ^ 64\<close>), the word, and the name and label that were assigned last
  for this hash, in the order of registration and, within a name, of the eight algorithms.
\<close>

theorem iat_scan_correct:
  "scan (precompute ck) data base =
     concat (map (matches_at (map_of (rev (all_entries (api_names ck)))) data base)
       [0..<length data div 8])"
  by (simp add: scan_matches matches_at_cong [OF precompute_map])

text \<open>
  Property C22. What a match means: the name is registered and the reported hash is the hash
  of that name under the reported algorithm; and no hash goes unnoticed: wherever the region
  holds, at an aligned offset, a hash of a registered name that is not zero, there is a match
  at that offset.
\<close>

theorem iat_scan_sound_complete:
  "(m \<in> set (scan (precompute ck) data base) \<longrightarrow>
      api_name m \<in> set (api_names ck) \<and> algorithm_hash (algorithm m) (api_name m) = Some (hash_value m))
   \<and> (name \<in> set (api_names ck) \<and> algorithm_hash alg name = Some (word_at data k)
        \<and> word_at data k \<noteq> 0 \<and> k < length data div 8 \<longrightarrow>
      (\<exists>m \<in> set (scan (precompute ck) data base).
         file_offset m = base + of_nat (8 * k) \<and> hash_value m = word_at data k))"
proof (intro conjI impI)
  assume "m \<in> set (scan (precompute ck) data base)"
  then have "map_of (rev (all_entries (api_names ck))) (hash_value m) = Some (api_name m, algorithm m)"
    by (auto simp: in_scan_iff)
  then have "(hash_value m, api_name m, algorithm m) \<in> set (all_entries (api_names ck))"
    by (auto dest: map_of_SomeD)
  then show "api_name m \<in> set (api_names ck)"
    "algorithm_hash (algorithm m) (api_name m) = Some (hash_value m)"
    by (simp_all add: all_entries_hash)
next
  assume hyps: "name \<in> set (api_names ck) \<and> algorithm_hash alg name = Some (word_at data k)
        \<and> word_at data k \<noteq> 0 \<and> k < length data div 8"
  then have "(word_at data k, name, alg) \<in> set (rev (all_entries (api_names ck)))"
    by (simp add: all_entries_hash)
  then obtain n a where "map_of (rev (all_entries (api_names ck))) (word_at data k) = Some (n, a)"
    by (cases "map_of (rev (all_entries (api_names ck))) (word_at data k)")
      (auto simp: map_of_eq_None_iff image_iff)
  then show "\<exists>m \<in> set (scan (precompute ck) data base).
         file_offset m = base + of_nat (8 * k) \<and> hash_value m = word_at data k"
    using hyps
    by (intro bexI [of _ "\<lparr>file_offset = base + of_nat (8 * k), hash_value = word_at data k,
         api_name = n, algorithm = a\<rparr>"]) (auto simp: in_scan_iff)
qed

theorem iat_scan_sound_complete_witness:
  "\<exists>m \<in> set (scan (precompute (add_api new_cracker ''ZwClose'')) (replicate 8 0 @ le_bytes 8 (djb2_64 ''ZwClose'')) 0x1000).
     file_offset m = 0x1008"
proof -
  let ?ck = "add_api new_cracker ''ZwClose''"
  let ?data = "replicate 8 0 @ le_bytes 8 (djb2_64 ''ZwClose'')"
  have w: "word_at ?data 1 = djb2_64 ''ZwClose''"
    by (simp add: word_at_def of_le_bytes_le_bytes)
  note w' = w [unfolded One_nat_def]
  have "''ZwClose'' \<in> set (api_names ?ck)" by (simp add: add_api_def new_cracker_def)
  moreover have "algorithm_hash ''djb2'' ''ZwClose'' = Some (word_at ?data 1)"
    by (simp add: w' algorithm_hash_def hash_entries_def)
  moreover have "djb2_64 ''ZwClose'' \<noteq> 0" by code_simp
  ultimately have "\<exists>m \<in> set (scan (precompute ?ck) ?data 0x1000).
      file_offset m = 0x1000 + of_nat (8 * 1) \<and> hash_value m = word_at ?data 1"
    using iat_scan_sound_complete [of _ ?ck ?data "0x1000" "''ZwClose''" "''djb2''" 1]
    by (simp add: w')
  then show ?thesis by auto
qed

text \<open>
  The label \<^verbatim>\<open>ror13\<close> never survives for names of ASCII characters: both
  ROR-13 variants then compute the same hash and \<^verbatim>\<open>ror13_unicode\<close> is assigned later, so
  every match with such a hash is labelled \<^verbatim>\<open>ror13_unicode\<close> (or with the label of a
  later colliding assignment). All default names are ASCII.
\<close>

theorem iat_ror13_label_lost:
  assumes "list_all ascii (api_names ck)"
  shows "map_of (hash_to_api (precompute ck)) h \<noteq> Some (name, ''ror13'')"
proof -
  have "map_of (rev (hash_entries n)) h \<noteq> Some (name, ''ror13'')" if "ascii n" for n
    using ror13_ascii [OF that] by (auto simp: hash_entries_def)
  then have "list_all ascii ns \<Longrightarrow> map_of (rev (all_entries ns)) h \<noteq> Some (name, ''ror13'')" for ns
    by (induction ns) (auto simp: all_entries_def map_add_def split: option.splits)
  with assms show ?thesis by (simp add: precompute_map)
qed

theorem iat_ror13_label_lost_witness:
  "\<forall>h name. map_of (hash_to_api (precompute (load_default_kernel_apis new_cracker))) h \<noteq> Some (name, ''ror13'')"
proof -
  have "foldl add_api ck ns = ck\<lparr>api_names := api_names ck @ ns\<rparr>" for ck ns
    by (induction ns arbitrary: ck) (simp_all add: add_api_def)
  then have "api_names (load_default_kernel_apis new_cracker) = default_apis"
    by (simp add: load_default_kernel_apis_def new_cracker_def)
  moreover have "list_all ascii default_apis" by code_simp
  ultimately show ?thesis using iat_ror13_label_lost by metis
qed

text \<open>
  The custom CRC-32 separates seeds: for every name, two seeds give the same
  value exactly when they agree in their low 32 bits, so the two CRC variants of the table
  never coincide for one name.
\<close>

theorem crc32_custom_seed_injective:
  "(crc32_custom s a = crc32_custom s b \<longleftrightarrow> (ucast a :: u32) = ucast b)
   \<and> crc32_custom s 0 \<noteq> crc32_custom s 0xFFFFFFFF"
proof -
  have inj: "crc32_custom s a = crc32_custom s b \<longleftrightarrow> (ucast a :: u32) = ucast b" for a b
    by (simp add: crc32_custom_def crc_fold_inject ucast_inject_32)
  show ?thesis by (simp only: inj) simp
qed

end
