(* ===== verification/LLVM_Emit.thy ===== *)
theory LLVM_Emit
  imports CFG Pass_Core Text_Stream
begin

section \<open>The LLVM emitter (include/deobf/llvm_emitter.h, src/lower/llvm_emitter.cpp)\<close>

text \<open>
  The text of an LLVM module for a linear function or a control-flow graph. Everything is written
  in decimal through \<^verbatim>\<open>std::to_string\<close>, so the stream of the context is its text. The counter of
  temporaries is an \<^verbatim>\<open>int\<close> that starts at 0; the pointer to the instruction map is a map with the
  instructions it points into. \<open>None\<close> is a resolution that does not end.
\<close>

record EmitCtx =
  ec_os :: string
  ec_val_names :: "u32 \<rightharpoonup> string"
  ec_instr_map :: "(Instruction list \<times> (u32 \<Rightarrow> nat option)) option"
  ec_tmp_counter :: nat

definition new_emit_ctx :: EmitCtx where
  "new_emit_ctx = \<lparr>ec_os = '''', ec_val_names = Map.empty, ec_instr_map = None, ec_tmp_counter = 0\<rparr>"

definition out :: "string \<Rightarrow> EmitCtx \<Rightarrow> EmitCtx" where
  "out s ctx = ctx\<lparr>ec_os := ec_os ctx @ s\<rparr>"

definition set_name :: "u32 \<Rightarrow> string \<Rightarrow> EmitCtx \<Rightarrow> EmitCtx" where
  "set_name i n ctx = ctx\<lparr>ec_val_names := (ec_val_names ctx)(i \<mapsto> n)\<rparr>"

definition is_digit :: "char \<Rightarrow> bool" where
  "is_digit c \<longleftrightarrow> CHR ''0'' \<le> c \<and> c \<le> CHR ''9''"

subsection \<open>Values\<close>

text \<open>A name that looks like a number is the number itself.\<close>

definition name_ref :: "string \<Rightarrow> string" where
  "name_ref n = (if is_digit (hd n) \<or> hd n = CHR ''-'' then n else ''%'' @ n)"

definition resolved_ref :: "EmitCtx \<Rightarrow> u32 \<Rightarrow> string option" where
  "resolved_ref ctx i =
     (case ec_instr_map ctx of
        None \<Rightarrow> Some ''0''
      | Some (vec, im) \<Rightarrow>
          do { resolved \<leftarrow> resolve vec im (InstrRef i);
               Some (case get_const resolved of
                       Some (c, _) \<Rightarrow> to_string (unat c)
                     | None \<Rightarrow>
                         (case get_symreg resolved of
                            Some n \<Rightarrow> if n \<noteq> [] then ''%'' @ n else ''0''
                          | None \<Rightarrow> ''0'')) })"

definition val_ref :: "EmitCtx \<Rightarrow> Value \<Rightarrow> string option" where
  "val_ref ctx v =
     (case v of
        Const c _ \<Rightarrow> Some (to_string (unat c))
      | SymReg n \<Rightarrow> Some (if n = [] then ''0'' else ''%'' @ n)
      | SymMem r _ \<Rightarrow> Some (''%mem_'' @ to_string (unat r))
      | InstrRef i \<Rightarrow>
          (case ec_val_names ctx i of
             Some n \<Rightarrow> if n \<noteq> [] then Some (name_ref n) else resolved_ref ctx i
           | None \<Rightarrow> resolved_ref ctx i))"

definition new_tmp :: "EmitCtx \<Rightarrow> string \<times> EmitCtx" where
  "new_tmp ctx = (''t'' @ to_string (ec_tmp_counter ctx), ctx\<lparr>ec_tmp_counter := ec_tmp_counter ctx + 1\<rparr>)"

definition llvm_binop :: "Op \<Rightarrow> string" where
  "llvm_binop x = (case x of
     Op_ADD \<Rightarrow> ''add''
   | Op_SUB \<Rightarrow> ''sub''
   | Op_MUL \<Rightarrow> ''mul''
   | Op_XOR \<Rightarrow> ''xor''
   | Op_AND \<Rightarrow> ''and''
   | Op_OR \<Rightarrow> ''or''
   | Op_SHL \<Rightarrow> ''shl''
   | Op_SHR \<Rightarrow> ''lshr''
   | Op_SAR \<Rightarrow> ''ashr''
   | _ \<Rightarrow> ''add'')"

subsection \<open>Instructions\<close>

definition instr_name :: "u32 \<Rightarrow> string" where
  "instr_name i = ''v'' @ to_string (unat i)"

definition binary_op :: "Op \<Rightarrow> bool" where
  "binary_op x \<longleftrightarrow> x \<in> {Op_ADD, Op_SUB, Op_MUL, Op_XOR, Op_AND, Op_OR, Op_SHL, Op_SHR, Op_SAR}"

definition emit_const :: "Instruction \<Rightarrow> EmitCtx \<Rightarrow> EmitCtx" where
  "emit_const i ctx =
     (let name = instr_name (result_id i);
          zero = out (''  %'' @ name @ '' = add i64 0, 0'' @ nl) ctx
      in if operands i \<noteq> [] then
           (case get_const (operands i ! 0) of
              Some (c, _) \<Rightarrow> out (''  %'' @ name @ '' = add i64 '' @ to_string (unat c) @ '', 0'' @ nl) ctx
            | None \<Rightarrow> zero)
         else zero)"

definition emit_binary :: "Instruction \<Rightarrow> EmitCtx \<Rightarrow> EmitCtx option" where
  "emit_binary i ctx =
     (if length (operands i) = 2 then
        do { a \<leftarrow> val_ref ctx (operands i ! 0);
             b \<leftarrow> val_ref ctx (operands i ! 1);
             Some (out (''  %'' @ instr_name (result_id i) @ '' = '' @ llvm_binop (op i) @ '' i64 '' @ a @ '', '' @ b @ nl) ctx) }
      else Some ctx)"

definition emit_unary :: "Instruction \<Rightarrow> EmitCtx \<Rightarrow> EmitCtx option" where
  "emit_unary i ctx =
     (if length (operands i) = 1 then
        do { a \<leftarrow> val_ref ctx (operands i ! 0);
             Some (out (if op i = Op_NOT then ''  %'' @ instr_name (result_id i) @ '' = xor i64 '' @ a @ '', -1'' @ nl
                        else ''  %'' @ instr_name (result_id i) @ '' = sub i64 0, '' @ a @ nl) ctx) }
      else Some ctx)"

definition emit_load :: "Instruction \<Rightarrow> EmitCtx \<Rightarrow> EmitCtx option" where
  "emit_load i ctx =
     (if length (operands i) = 1 then
        do { a \<leftarrow> val_ref ctx (operands i ! 0);
             let name = instr_name (result_id i);
             let ctx = out (''  ; LOAD from '' @ a @ nl) ctx;
             let ctx = out (''  %'' @ name @ '' = inttoptr i64 '' @ a @ '' to ptr'' @ nl) ctx;
             let (tmp, ctx) = new_tmp ctx;
             let ctx = out (''  %'' @ tmp @ '' = load i64, ptr %'' @ name @ nl) ctx;
             Some (set_name (result_id i) tmp ctx) }
      else Some ctx)"

definition emit_store :: "Instruction \<Rightarrow> EmitCtx \<Rightarrow> EmitCtx option" where
  "emit_store i ctx =
     (if length (operands i) = 2 then
        do { let (addr_tmp, ctx) = new_tmp ctx;
             a \<leftarrow> val_ref ctx (operands i ! 0);
             v \<leftarrow> val_ref ctx (operands i ! 1);
             let ctx = out (''  %'' @ addr_tmp @ '' = inttoptr i64 '' @ a @ '' to ptr'' @ nl) ctx;
             Some (out (''  store volatile i64 '' @ v @ '', ptr %'' @ addr_tmp @ nl) ctx) }
      else Some ctx)"

definition emit_ret :: "Instruction \<Rightarrow> EmitCtx \<Rightarrow> EmitCtx option" where
  "emit_ret i ctx =
     (if length (operands i) = 1 then
        do { a \<leftarrow> val_ref ctx (operands i ! 0); Some (out (''  ret i64 '' @ a @ nl) ctx) }
      else Some (out (''  ret i64 0'' @ nl) ctx))"

definition emit_call :: "Instruction \<Rightarrow> EmitCtx \<Rightarrow> EmitCtx option" where
  "emit_call i ctx =
     (if 1 \<le> length (operands i) then
        do { a \<leftarrow> val_ref ctx (operands i ! 0);
             let ctx = out (''  ; CALL '' @ a @ nl) ctx;
             Some (out (''  %'' @ instr_name (result_id i) @ '' = call i64 @external_call(i64 '' @ a @ '')'' @ nl) ctx) }
      else Some ctx)"

text \<open>A passed-through value takes over the name of its operand.\<close>

definition passthrough_name :: "EmitCtx \<Rightarrow> Instruction \<Rightarrow> string" where
  "passthrough_name ctx i =
     (if length (operands i) = 1 then
        (case operands i ! 0 of
           Const c _ \<Rightarrow> to_string (unat c)
         | InstrRef j \<Rightarrow>
             (case ec_val_names ctx j of Some n \<Rightarrow> if n \<noteq> [] then n else instr_name j | None \<Rightarrow> instr_name j)
         | SymReg n \<Rightarrow> if n = [] then ''unk'' else n
         | SymMem _ _ \<Rightarrow> instr_name (result_id i))
      else instr_name (result_id i))"

definition emit_select :: "Instruction \<Rightarrow> EmitCtx \<Rightarrow> EmitCtx option" where
  "emit_select i ctx =
     (if length (operands i) = 3 then
        do { let (cmp, ctx) = new_tmp ctx;
             c \<leftarrow> val_ref ctx (operands i ! 0);
             let ctx = out (''  %'' @ cmp @ '' = icmp ne i64 '' @ c @ '', 0'' @ nl) ctx;
             a \<leftarrow> val_ref ctx (operands i ! 1);
             b \<leftarrow> val_ref ctx (operands i ! 2);
             Some (out (''  %'' @ instr_name (result_id i) @ '' = select i1 %'' @ cmp
                        @ '', i64 '' @ a @ '', i64 '' @ b @ nl) ctx) }
      else Some ctx)"

definition emit_zero :: "Instruction \<Rightarrow> string \<Rightarrow> EmitCtx \<Rightarrow> EmitCtx" where
  "emit_zero i comment = out (''  %'' @ instr_name (result_id i) @ '' = add i64 0, 0 ; '' @ comment @ nl)"

definition emit_instr :: "Instruction \<Rightarrow> EmitCtx \<Rightarrow> EmitCtx option" where
  "emit_instr i ctx0 =
     (let ctx = set_name (result_id i) (instr_name (result_id i)) ctx0; x = op i
      in if x = Op_CONST \<or> x = Op_CONST_PTR then Some (emit_const i ctx)
         else if binary_op x then emit_binary i ctx
         else if x = Op_NOT \<or> x = Op_NEG then emit_unary i ctx
         else if x = Op_LOAD then emit_load i ctx
         else if x = Op_STORE then emit_store i ctx
         else if x = Op_RET then emit_ret i ctx
         else if x = Op_CALL then emit_call i ctx
         else if x = Op_PASSTHROUGH then Some (set_name (result_id i) (passthrough_name ctx i) ctx)
         else if x = Op_SELECT then emit_select i ctx
         else if x = Op_NOP then Some (emit_zero i ''nop'' ctx)
         else if x = Op_JMP \<or> x = Op_CJMP then Some (emit_zero i (op_name x) ctx)
         else Some (emit_zero i (''unsupported: '' @ op_name x) ctx))"

fun emit_instrs :: "Instruction list \<Rightarrow> EmitCtx \<Rightarrow> EmitCtx option" where
  "emit_instrs [] ctx = Some ctx"
| "emit_instrs (i # is) ctx = do { ctx \<leftarrow> emit_instr i ctx; emit_instrs is ctx }"

subsection \<open>A linear function\<close>

definition add_once :: "string list \<Rightarrow> string \<Rightarrow> string list" where
  "add_once names n = (if n \<in> set names then names else names @ [n])"

definition value_regs :: "Value list \<Rightarrow> string list" where
  "value_regs vs = List.map_filter get_symreg vs"

definition function_regs :: "Function \<Rightarrow> string list" where
  "function_regs f = foldl add_once [] (concat (map (\<lambda>i. value_regs (operands i)) (instrs f)))"

definition module_header :: "string \<Rightarrow> string" where
  "module_header module_id =
     ''; ModuleID = '' @ [CHR 0x27] @ module_id @ [CHR 0x27] @ nl
     @ ''source_filename = '' @ [CHR 0x22] @ ''dehex_devirt'' @ [CHR 0x22] @ nl @ nl
     @ ''declare i64 @external_call(i64)'' @ nl @ nl"

definition signature_text :: "string \<Rightarrow> string list \<Rightarrow> string" where
  "signature_text func_name params =
     ''define i64 @'' @ func_name @ ''('' @ intersperse '', '' (map (\<lambda>r. ''i64 %'' @ r) params) @ '') {'' @ nl"

text \<open>The names that are known before the instructions are written.\<close>

definition register_name :: "Instruction list \<Rightarrow> (u32 \<Rightarrow> nat option) \<Rightarrow> Instruction \<Rightarrow> EmitCtx \<Rightarrow> EmitCtx option" where
  "register_name vec im i ctx =
     (if op i = Op_NOP then Some ctx
      else if op i = Op_PASSTHROUGH \<and> length (operands i) = 1 then
        do { resolved \<leftarrow> resolve vec im (operands i ! 0);
             Some (case get_const resolved of
                     Some (c, _) \<Rightarrow> set_name (result_id i) (to_string (unat c)) ctx
                   | None \<Rightarrow>
                       (case get_symreg resolved of
                          Some n \<Rightarrow> if n \<noteq> [] then set_name (result_id i) n ctx else ctx
                        | None \<Rightarrow> ctx)) }
      else if (op i = Op_CONST \<or> op i = Op_CONST_PTR) \<and> operands i \<noteq> [] \<and> is_const (operands i ! 0) then
        Some (case get_const (operands i ! 0) of
                Some (c, _) \<Rightarrow> set_name (result_id i) (to_string (unat c)) ctx | None \<Rightarrow> ctx)
      else if op i = Op_CONST \<and> operands i = [] then Some (set_name (result_id i) ''0'' ctx)
      else Some ctx)"

fun register_names :: "Instruction list \<Rightarrow> (u32 \<Rightarrow> nat option) \<Rightarrow> Instruction list \<Rightarrow> EmitCtx \<Rightarrow> EmitCtx option" where
  "register_names vec im [] ctx = Some ctx"
| "register_names vec im (i # is) ctx =
     do { ctx \<leftarrow> register_name vec im i ctx; register_names vec im is ctx }"

definition register_nops :: "Instruction list \<Rightarrow> EmitCtx \<Rightarrow> EmitCtx" where
  "register_nops is ctx =
     foldl (\<lambda>ctx i. if op i = Op_NOP \<and> ec_val_names ctx (result_id i) = None then set_name (result_id i) ''0'' ctx else ctx) ctx is"

definition emit_function :: "Function \<Rightarrow> string \<Rightarrow> string option" where
  "emit_function f func_name =
     (let vec = instrs f; im = build_instr_map vec;
          ctx = out (module_header ''dehex_devirt_v2'') new_emit_ctx;
          ctx = out (signature_text func_name (function_regs f) @ ''entry:'' @ nl) ctx;
          ctx = ctx\<lparr>ec_instr_map := Some (vec, im)\<rparr>
      in do { ctx \<leftarrow> register_names vec im vec ctx;
              ctx \<leftarrow> emit_instrs vec (register_nops vec ctx);
              let ctx = (if list_ex (\<lambda>i. op i = Op_RET) vec then ctx else out (''  ret i64 0'' @ nl) ctx);
              Some (ec_os ctx @ ''}'' @ nl) })"

subsection \<open>A control-flow graph\<close>

definition opt_regs :: "Value option \<Rightarrow> string list" where
  "opt_regs v = value_regs (case v of Some c \<Rightarrow> [c] | None \<Rightarrow> [])"

definition block_regs :: "BasicBlock \<Rightarrow> string list" where
  "block_regs b = value_regs (concat (map (\<lambda>p. map snd (phi_incoming p)) (bb_phis b)))
     @ value_regs (concat (map operands (bb_instrs b))) @ opt_regs (term_condition (bb_term b))"

definition cfg_regs :: "CFGFunction \<Rightarrow> string list" where
  "cfg_regs f = foldl add_once [] (filter (\<lambda>n. n \<noteq> []) (concat (map block_regs (cfg_blocks f))))"

definition label_or :: "string \<Rightarrow> CFGFunction \<Rightarrow> u32 \<Rightarrow> string" where
  "label_or other f b = (case block_by_id f b of Some bb \<Rightarrow> bb_label bb | None \<Rightarrow> other)"

fun phi_arms :: "CFGFunction \<Rightarrow> EmitCtx \<Rightarrow> (u32 \<times> Value) list \<Rightarrow> string list option" where
  "phi_arms f ctx [] = Some []"
| "phi_arms f ctx ((b, v) # ps) =
     do { s \<leftarrow> val_ref ctx v;
          arms \<leftarrow> phi_arms f ctx ps;
          Some ((''[ '' @ s @ '', %'' @ label_or (''bb'' @ to_string (unat b)) f b @ '' ]'') # arms) }"

definition emit_phi :: "CFGFunction \<Rightarrow> PhiNode \<Rightarrow> EmitCtx \<Rightarrow> EmitCtx option" where
  "emit_phi f p ctx0 =
     (let name = instr_name (phi_id p); ctx = set_name (phi_id p) name ctx0
      in do { arms \<leftarrow> phi_arms f ctx (phi_incoming p);
              Some (out (''  %'' @ name @ '' = phi i64 '' @ intersperse '', '' arms @ nl) ctx) })"

fun emit_phis :: "CFGFunction \<Rightarrow> PhiNode list \<Rightarrow> EmitCtx \<Rightarrow> EmitCtx option" where
  "emit_phis f [] ctx = Some ctx"
| "emit_phis f (p # ps) ctx = do { ctx \<leftarrow> emit_phi f p ctx; emit_phis f ps ctx }"

definition emit_br :: "CFGFunction \<Rightarrow> u32 option \<Rightarrow> EmitCtx \<Rightarrow> EmitCtx" where
  "emit_br f target ctx =
     (case target of
        Some t \<Rightarrow> out (''  br label %'' @ label_or ''???'' f t @ nl) ctx
      | None \<Rightarrow> ctx)"

definition emit_term :: "CFGFunction \<Rightarrow> Terminator \<Rightarrow> bool \<Rightarrow> EmitCtx \<Rightarrow> EmitCtx option" where
  "emit_term f t body_has_ret ctx =
     (case term_kind t of
        Term_JMP \<Rightarrow> Some (emit_br f (term_target t) ctx)
      | Term_CJMP \<Rightarrow>
          (case (term_target t, term_fallthrough t, term_condition t) of
             (Some x, Some y, Some c) \<Rightarrow>
               do { let (cond_tmp, ctx) = new_tmp ctx;
                    s \<leftarrow> val_ref ctx c;
                    let ctx = out (''  %'' @ cond_tmp @ '' = icmp ne i64 '' @ s @ '', 0'' @ nl) ctx;
                    Some (out (''  br i1 %'' @ cond_tmp @ '', label %'' @ label_or ''???'' f x
                               @ '', label %'' @ label_or ''???'' f y @ nl) ctx) }
           | _ \<Rightarrow> Some ctx)
      | Term_RET \<Rightarrow> Some (if body_has_ret then ctx else out (''  ret i64 0'' @ nl) ctx)
      | Term_FALLTHROUGH \<Rightarrow> Some (emit_br f (term_fallthrough t) ctx)
      | Term_UNREACHABLE \<Rightarrow> Some (out (''  unreachable'' @ nl) ctx))"

definition body_code :: "BasicBlock \<Rightarrow> Instruction list" where
  "body_code b = filter (\<lambda>i. op i \<noteq> Op_JMP \<and> op i \<noteq> Op_CJMP) (bb_instrs b)"

definition emit_block :: "CFGFunction \<Rightarrow> BasicBlock \<Rightarrow> EmitCtx \<Rightarrow> EmitCtx option" where
  "emit_block f b ctx =
     do { ctx \<leftarrow> emit_phis f (bb_phis b) (out (bb_label b @ '':'' @ nl) ctx);
          ctx \<leftarrow> emit_instrs (body_code b) ctx;
          emit_term f (bb_term b) (list_ex (\<lambda>i. op i = Op_RET) (body_code b)) ctx }"

fun emit_blocks :: "CFGFunction \<Rightarrow> BasicBlock list \<Rightarrow> EmitCtx \<Rightarrow> EmitCtx option" where
  "emit_blocks f [] ctx = Some ctx"
| "emit_blocks f (b # bs) ctx = do { ctx \<leftarrow> emit_block f b ctx; emit_blocks f bs ctx }"

definition emit_cfg_function :: "CFGFunction \<Rightarrow> string \<Rightarrow> string option" where
  "emit_cfg_function f func_name =
     (let ctx = out (module_header ''dehex_devirt'' @ signature_text func_name (cfg_regs f)) new_emit_ctx
      in do { ctx \<leftarrow> emit_blocks f (cfg_blocks f) ctx; Some (ec_os ctx @ ''}'' @ nl) })"

end
