(* ===== verification/LLVM_Correct.thy ===== *)
theory LLVM_Correct
  imports LLVM_Emit
begin

section \<open>What the emitted LLVM code computes\<close>

text \<open>
  The lines the emitter writes, as data: \<open>ll_text\<close> is their concrete syntax and \<open>ll_step\<close> the part of
  LLVM's semantics they use - locals that are defined once and before they are used, shifts that are
  poison from 64 on (here: no result), loads and stores of eight bytes, and one external function.
\<close>

subsection \<open>A fragment of LLVM\<close>

datatype ll_val = LL_Int int | LL_Var string

datatype ll_line =
    LL_Arith Op string ll_val ll_val string
  | LL_Note string
  | LL_Ptr string ll_val
  | LL_Load string string
  | LL_Store ll_val string
  | LL_Ret ll_val
  | LL_Call string ll_val
  | LL_Ne string ll_val
  | LL_Select string string ll_val ll_val

fun ll_val_text :: "ll_val \<Rightarrow> string" where
  "ll_val_text (LL_Int k) = int_to_string k"
| "ll_val_text (LL_Var n) = ''%'' @ n"

fun ll_text :: "ll_line \<Rightarrow> string" where
  "ll_text (LL_Arith x d a b comment) =
     ''  %'' @ d @ '' = '' @ llvm_binop x @ '' i64 '' @ ll_val_text a @ '', '' @ ll_val_text b @ comment @ nl"
| "ll_text (LL_Note s) = ''  ; '' @ s @ nl"
| "ll_text (LL_Ptr d a) = ''  %'' @ d @ '' = inttoptr i64 '' @ ll_val_text a @ '' to ptr'' @ nl"
| "ll_text (LL_Load d p) = ''  %'' @ d @ '' = load i64, ptr %'' @ p @ nl"
| "ll_text (LL_Store v p) = ''  store volatile i64 '' @ ll_val_text v @ '', ptr %'' @ p @ nl"
| "ll_text (LL_Ret v) = ''  ret i64 '' @ ll_val_text v @ nl"
| "ll_text (LL_Call d a) = ''  %'' @ d @ '' = call i64 @external_call(i64 '' @ ll_val_text a @ '')'' @ nl"
| "ll_text (LL_Ne d a) = ''  %'' @ d @ '' = icmp ne i64 '' @ ll_val_text a @ '', 0'' @ nl"
| "ll_text (LL_Select d c a b) =
     ''  %'' @ d @ '' = select i1 %'' @ c @ '', i64 '' @ ll_val_text a @ '', i64 '' @ ll_val_text b @ nl"

definition ll_program :: "ll_line list \<Rightarrow> string" where
  "ll_program ls = concat (map ll_text ls)"

record ll_state =
  ll_vars :: "string \<rightharpoonup> u64"
  ll_mem :: memory
  ll_trace :: "event list"
  ll_done :: bool

fun ll_eval :: "ll_state \<Rightarrow> ll_val \<Rightarrow> u64 option" where
  "ll_eval st (LL_Int k) = Some (word_of_int k)"
| "ll_eval st (LL_Var n) = ll_vars st n"

definition ll_arith :: "Op \<Rightarrow> u64 \<Rightarrow> u64 \<Rightarrow> u64 option" where
  "ll_arith x a b =
     (if x \<in> {Op_SHL, Op_SHR, Op_SAR} then
        (if b < 64 then
           Some (if x = Op_SHL then push_bit (unat b) a
                 else if x = Op_SHR then drop_bit (unat b) a else signed_drop_bit (unat b) a)
         else None)
      else if x = Op_SUB then Some (a - b)
      else if x = Op_MUL then Some (a * b)
      else if x = Op_XOR then Some (a XOR b)
      else if x = Op_AND then Some (a AND b)
      else if x = Op_OR then Some (a OR b)
      else Some (a + b))"

definition ll_define :: "string \<Rightarrow> u64 \<Rightarrow> ll_state \<Rightarrow> ll_state option" where
  "ll_define d v st = (if ll_vars st d = None then Some (st\<lparr>ll_vars := (ll_vars st)(d \<mapsto> v)\<rparr>) else None)"

fun ll_step :: "env \<Rightarrow> ll_line \<Rightarrow> ll_state \<Rightarrow> ll_state option" where
  "ll_step E (LL_Arith x d a b c) st =
     do { va \<leftarrow> ll_eval st a; vb \<leftarrow> ll_eval st b; v \<leftarrow> ll_arith x va vb; ll_define d v st }"
| "ll_step E (LL_Note s) st = Some st"
| "ll_step E (LL_Ptr d a) st = do { v \<leftarrow> ll_eval st a; ll_define d v st }"
| "ll_step E (LL_Load d p) st = do { a \<leftarrow> ll_vars st p; ll_define d (rd64 (ll_mem st) a) st }"
| "ll_step E (LL_Store v p) st =
     do { a \<leftarrow> ll_vars st p; w \<leftarrow> ll_eval st v; Some (st\<lparr>ll_mem := wr64 (ll_mem st) a w\<rparr>) }"
| "ll_step E (LL_Ret a) st =
     do { v \<leftarrow> ll_eval st a; Some (st\<lparr>ll_trace := ll_trace st @ [E_Ret [v]], ll_done := True\<rparr>) }"
| "ll_step E (LL_Call d a) st =
     do { v \<leftarrow> ll_eval st a;
          ll_define d (fst (ext_call E [v] (ll_mem st)))
            (st\<lparr>ll_mem := snd (ext_call E [v] (ll_mem st)), ll_trace := ll_trace st @ [E_Call [v]]\<rparr>) }"
| "ll_step E (LL_Ne d a) st = do { v \<leftarrow> ll_eval st a; ll_define d (if v \<noteq> 0 then 1 else 0) st }"
| "ll_step E (LL_Select d c a b) st =
     do { vc \<leftarrow> ll_vars st c; va \<leftarrow> ll_eval st a; vb \<leftarrow> ll_eval st b; ll_define d (if vc \<noteq> 0 then va else vb) st }"

text \<open>Nothing runs after a return.\<close>

fun ll_run :: "env \<Rightarrow> ll_line list \<Rightarrow> ll_state \<Rightarrow> ll_state option" where
  "ll_run E [] st = Some st"
| "ll_run E (l # ls) st = (if ll_done st then Some st else do { st' \<leftarrow> ll_step E l st; ll_run E ls st' })"

lemma ll_run_append: "ll_run E (xs @ ys) st = do { st' \<leftarrow> ll_run E xs st; ll_run E ys st' }"
proof (induction xs arbitrary: st)
  case Nil
  then show ?case by simp
next
  case (Cons x xs)
  show ?case
  proof (cases "ll_done st")
    case True
    then show ?thesis by (cases ys) simp_all
  next
    case False
    with Cons show ?thesis by (cases "ll_step E x st") simp_all
  qed
qed

lemma ll_program_append [simp]: "ll_program (xs @ ys) = ll_program xs @ ll_program ys"
  by (simp add: ll_program_def)

lemma ll_program_simps [simp]: "ll_program [] = ''''" "ll_program (l # ls) = ll_text l @ ll_program ls"
  by (simp_all add: ll_program_def)

subsection \<open>Names\<close>

text \<open>A name in the context stands for a value: a number, or a local whose name does not look like one.\<close>

definition name_like :: "string \<Rightarrow> bool" where
  "name_like n \<longleftrightarrow> n \<noteq> [] \<and> \<not> is_digit (hd n) \<and> hd n \<noteq> CHR ''-''"

fun name_text :: "ll_val \<Rightarrow> string" where
  "name_text (LL_Int k) = to_string (nat k)"
| "name_text (LL_Var n) = n"

fun val_named :: "ll_val \<Rightarrow> bool" where
  "val_named (LL_Int k) \<longleftrightarrow> 0 \<le> k"
| "val_named (LL_Var n) \<longleftrightarrow> name_like n"

definition tmp_name :: "nat \<Rightarrow> string" where
  "tmp_name k = ''t'' @ to_string k"

lemma digit_char_digit: "d < 10 \<Longrightarrow> is_digit (digit_char d)"
proof -
  assume "d < 10"
  then have "d \<in> {0, 1, 2, 3, 4, 5, 6, 7, 8, 9}" by auto
  then show ?thesis by (auto simp: digit_char_def is_digit_def less_eq_char_def numeral_eq_Suc)
qed

lemma to_string_digit: "is_digit (hd (to_string n))"
proof (induction n rule: less_induct)
  case (less n)
  show ?case
  proof (cases "n < 10")
    case True
    then show ?thesis by (subst show_base.simps) (simp add: digit_char_digit)
  next
    case False
    then have "to_string n = to_string (n div 10) @ [digit_char (n mod 10)]" by (subst show_base.simps) simp
    moreover have "is_digit (hd (to_string (n div 10)))" using False by (intro less) simp
    ultimately show ?thesis by simp
  qed
qed

lemma name_ref_text: "val_named v \<Longrightarrow> name_text v \<noteq> [] \<and> name_ref (name_text v) = ll_val_text v"
  by (cases v) (auto simp: name_ref_def to_string_digit int_to_string_def name_like_def)

lemma instr_name_like: "name_like (instr_name i)" "name_like (tmp_name k)"
  by (simp_all add: name_like_def instr_name_def tmp_name_def is_digit_def less_eq_char_def)

lemma instr_name_inject [simp]: "instr_name i = instr_name j \<longleftrightarrow> i = j"
  by (simp add: instr_name_def to_string_inject word_unat_eq_iff)

lemma tmp_name_inject [simp]: "tmp_name i = tmp_name j \<longleftrightarrow> i = j"
  by (simp add: tmp_name_def to_string_inject)

lemma name_kinds [simp]: "instr_name i \<noteq> tmp_name k" "tmp_name k \<noteq> instr_name i"
  by (simp_all add: instr_name_def tmp_name_def)


subsection \<open>The simulation\<close>

text \<open>The parameters \<open>P\<close> are registers whose names the emitter does not use itself; \<open>D\<close> are the ids
  whose values are known, \<open>N\<close> the ids whose names are taken.\<close>

definition param_names :: "string set \<Rightarrow> bool" where
  "param_names P \<longleftrightarrow> (\<forall>n \<in> P. name_like n \<and> n \<notin> range instr_name \<and> n \<notin> range tmp_name)"

definition represents :: "env \<Rightarrow> string set \<Rightarrow> u32 set \<Rightarrow> u32 set \<Rightarrow> EmitCtx \<Rightarrow> ll_state \<Rightarrow> state \<Rightarrow> bool" where
  "represents E P D N ctx st t \<longleftrightarrow>
     (\<forall>j \<in> D. \<exists>v. ec_val_names ctx j = Some (name_text v) \<and> val_named v \<and> ll_eval st v = Some (vals t j))
     \<and> (\<forall>n \<in> P. ll_vars st n = Some (sym E n))
     \<and> ll_mem st = mem t \<and> ll_trace st = trace t \<and> \<not> ll_done st
     \<and> dom (ll_vars st) \<subseteq> P \<union> instr_name ` N \<union> tmp_name ` {..<ec_tmp_counter ctx}"

definition operand_ok :: "string set \<Rightarrow> u32 set \<Rightarrow> Value \<Rightarrow> bool" where
  "operand_ok P D v \<longleftrightarrow>
     (case v of Const c b \<Rightarrow> True | SymReg n \<Rightarrow> n \<in> P | InstrRef j \<Rightarrow> j \<in> D | SymMem r b \<Rightarrow> False)"

lemma val_ref_correct:
  assumes "represents E P D N ctx st t" "operand_ok P D x" "param_names P"
  shows "\<exists>v. val_ref ctx x = Some (ll_val_text v) \<and> ll_eval st v = Some (eval_val E t x)"
proof (cases x)
  case (Const c b)
  have "val_ref ctx x = Some (ll_val_text (LL_Int (uint c)))" "ll_eval st (LL_Int (uint c)) = Some (eval_val E t x)"
    by (simp_all add: Const val_ref_def int_to_string_def)
  then show ?thesis by blast
next
  case (SymReg n)
  with assms have "n \<in> P" by (simp add: operand_ok_def)
  with assms SymReg have "val_ref ctx x = Some (ll_val_text (LL_Var n))" "ll_eval st (LL_Var n) = Some (eval_val E t x)"
    by (auto simp: val_ref_def represents_def param_names_def name_like_def)
  then show ?thesis by blast
next
  case (InstrRef j)
  with assms obtain v where "ec_val_names ctx j = Some (name_text v)" "val_named v" "ll_eval st v = Some (vals t j)"
    by (auto simp: operand_ok_def represents_def)
  with InstrRef name_ref_text [of v] show ?thesis by (auto simp: val_ref_def)
qed (use assms in \<open>simp add: operand_ok_def\<close>)

lemma ll_eval_define: "ll_vars st d = None \<Longrightarrow> ll_eval st v = Some x \<Longrightarrow> ll_eval (st\<lparr>ll_vars := (ll_vars st)(d \<mapsto> y)\<rparr>) v = Some x"
  by (cases v) auto

lemma define_local:
  assumes rep: "represents E P D N ctx st t" and free: "ll_vars st d = None"
    and N': "dom (ll_vars st) \<union> {d} \<subseteq> P \<union> instr_name ` N' \<union> tmp_name ` {..<ec_tmp_counter ctx'}"
    and names: "ec_val_names ctx' = ec_val_names ctx"
  shows "ll_define d x st = Some (st\<lparr>ll_vars := (ll_vars st)(d \<mapsto> x)\<rparr>)"
    "represents E P D N' ctx' (st\<lparr>ll_vars := (ll_vars st)(d \<mapsto> x)\<rparr>) t"
proof -
  let ?st = "st\<lparr>ll_vars := (ll_vars st)(d \<mapsto> x)\<rparr>"
  show "ll_define d x st = Some ?st" by (simp add: ll_define_def free)
  have "\<exists>v. ec_val_names ctx' j = Some (name_text v) \<and> val_named v \<and> ll_eval ?st v = Some (vals t j)" if "j \<in> D" for j
    using rep that ll_eval_define [OF free] by (fastforce simp: represents_def names)
  moreover have "ll_vars ?st n = Some (sym E n)" if "n \<in> P" for n
    using rep that free by (auto simp: represents_def)
  ultimately show "represents E P D N' ctx' ?st t"
    using rep N' by (simp add: represents_def)
qed

lemma define_result:
  assumes "represents E P D N ctx st t" "r \<notin> N" "param_names P"
  shows "ll_define (instr_name r) x st = Some (st\<lparr>ll_vars := (ll_vars st)(instr_name r \<mapsto> x)\<rparr>)"
    "represents E P D (insert r N) ctx (st\<lparr>ll_vars := (ll_vars st)(instr_name r \<mapsto> x)\<rparr>) t"
proof -
  have dom: "dom (ll_vars st) \<subseteq> P \<union> instr_name ` N \<union> tmp_name ` {..<ec_tmp_counter ctx}"
    using assms(1) by (simp add: represents_def)
  have "instr_name r \<notin> P \<union> instr_name ` N \<union> tmp_name ` {..<ec_tmp_counter ctx}"
    using assms(2,3) by (auto simp: param_names_def)
  with dom have free: "ll_vars st (instr_name r) = None" by blast
  have "dom (ll_vars st) \<union> {instr_name r} \<subseteq> P \<union> instr_name ` insert r N \<union> tmp_name ` {..<ec_tmp_counter ctx}"
    using dom by auto
  from define_local [OF assms(1) free this refl] show
    "ll_define (instr_name r) x st = Some (st\<lparr>ll_vars := (ll_vars st)(instr_name r \<mapsto> x)\<rparr>)"
    "represents E P D (insert r N) ctx (st\<lparr>ll_vars := (ll_vars st)(instr_name r \<mapsto> x)\<rparr>) t" .
qed

lemma define_tmp:
  assumes "represents E P D N ctx st t" "param_names P" "d = tmp_name (ec_tmp_counter ctx)"
    "ec_tmp_counter ctx' = ec_tmp_counter ctx + 1" "ec_val_names ctx' = ec_val_names ctx"
  shows "ll_define d x st = Some (st\<lparr>ll_vars := (ll_vars st)(d \<mapsto> x)\<rparr>)"
    "represents E P D N ctx' (st\<lparr>ll_vars := (ll_vars st)(d \<mapsto> x)\<rparr>) t"
proof -
  have dom: "dom (ll_vars st) \<subseteq> P \<union> instr_name ` N \<union> tmp_name ` {..<ec_tmp_counter ctx}"
    using assms(1) by (simp add: represents_def)
  have "d \<notin> P \<union> instr_name ` N \<union> tmp_name ` {..<ec_tmp_counter ctx}"
    using assms(2,3) by (auto simp: param_names_def)
  with dom have free: "ll_vars st d = None" by blast
  have "dom (ll_vars st) \<union> {d} \<subseteq> P \<union> instr_name ` N \<union> tmp_name ` {..<ec_tmp_counter ctx'}"
    using dom assms(3,4) by (auto simp: less_Suc_eq)
  from define_local [OF assms(1) free this assms(5)] show
    "ll_define d x st = Some (st\<lparr>ll_vars := (ll_vars st)(d \<mapsto> x)\<rparr>)"
    "represents E P D N ctx' (st\<lparr>ll_vars := (ll_vars st)(d \<mapsto> x)\<rparr>) t" .
qed

text \<open>Once its value is in place, an instruction has been executed.\<close>

lemma add_value:
  assumes "represents E P D N ctx st t" "r \<notin> D"
    and "ec_val_names ctx' = (ec_val_names ctx)(r \<mapsto> name_text v)" "ec_tmp_counter ctx' = ec_tmp_counter ctx"
    and "val_named v" "ll_eval st v = Some x" "vals t' = (vals t)(r := x)" "mem t' = mem t" "trace t' = trace t"
  shows "represents E P (insert r D) N ctx' st t'"
  using assms by (auto simp: represents_def)


subsection \<open>One instruction\<close>

definition emit_form :: "Instruction \<Rightarrow> bool" where
  "emit_form i \<longleftrightarrow>
     (let n = length (operands i); x = op i
      in (x = Op_CONST \<or> x = Op_CONST_PTR) \<and> 1 \<le> n \<and> is_const (operands i ! 0)
         \<or> (binary_op x \<or> x = Op_STORE) \<and> n = 2
         \<or> x \<in> {Op_NOT, Op_NEG, Op_LOAD, Op_CALL, Op_PASSTHROUGH, Op_RET} \<and> n = 1
         \<or> x = Op_SELECT \<and> n = 3 \<or> x = Op_NOP)"

definition shift_small :: "env \<Rightarrow> state \<Rightarrow> Instruction \<Rightarrow> bool" where
  "shift_small E t i \<longleftrightarrow> (op i \<in> {Op_SHL, Op_SHR, Op_SAR} \<longrightarrow> eval_val E t (operands i ! 1) < 64)"

definition known_after :: "u32 set \<Rightarrow> Instruction \<Rightarrow> u32 set" where
  "known_after D i = (if op i = Op_STORE then D else insert (result_id i) D)"

lemma out_frame [simp]:
  "ec_os (out s ctx) = ec_os ctx @ s" "ec_val_names (out s ctx) = ec_val_names ctx"
  "ec_tmp_counter (out s ctx) = ec_tmp_counter ctx" "ec_instr_map (out s ctx) = ec_instr_map ctx"
  by (simp_all add: out_def)

lemma set_name_frame [simp]:
  "ec_os (set_name i n ctx) = ec_os ctx" "ec_val_names (set_name i n ctx) = (ec_val_names ctx)(i \<mapsto> n)"
  "ec_tmp_counter (set_name i n ctx) = ec_tmp_counter ctx" "ec_instr_map (set_name i n ctx) = ec_instr_map ctx"
  by (simp_all add: set_name_def)

lemma resolved_ref_out [simp]: "resolved_ref (out s ctx) j = resolved_ref ctx j"
  by (simp add: resolved_ref_def)

lemma val_ref_out [simp]: "val_ref (out s ctx) v = val_ref ctx v"
  by (cases v) (simp_all add: val_ref_def split: option.split)

lemma represents_out [simp]: "represents E P D N (out s ctx) st t = represents E P D N ctx st t"
  by (simp add: represents_def)

lemma represents_set_name: "represents E P D N ctx st t \<Longrightarrow> r \<notin> D \<Longrightarrow> represents E P D N (set_name r n ctx) st t"
  by (auto simp: represents_def)

lemma one_line:
  assumes rep: "represents E P D N ctx st t" and r: "r \<notin> N" "D \<subseteq> N" and P: "param_names P"
    and name: "ec_val_names ctx r = Some (instr_name r)"
    and step: "ll_step E l st = ll_define (instr_name r) x st"
    and t': "vals t' = (vals t)(r := x)" "mem t' = mem t" "trace t' = trace t"
  shows "\<exists>st'. ll_run E [l] st = Some st' \<and> represents E P (insert r D) (insert r N) (out (ll_text l) ctx) st' t'"
proof -
  note d = define_result [OF rep r(1) P, of x]
  let ?st = "st\<lparr>ll_vars := (ll_vars st)(instr_name r \<mapsto> x)\<rparr>"
  have "\<not> ll_done st" using rep by (simp add: represents_def)
  then have run: "ll_run E [l] st = Some ?st" by (simp add: step d(1))
  have "represents E P (insert r D) (insert r N) ctx ?st t'"
    by (rule add_value [OF d(2), where v = "LL_Var (instr_name r)" and x = x])
      (use r name t' instr_name_like in \<open>auto simp: fun_upd_idem\<close>)
  with run show ?thesis by simp
qed

lemma arith_correct:
  assumes "binary_op x" "x \<in> {Op_SHL, Op_SHR, Op_SAR} \<longrightarrow> b < 64"
  shows "ll_arith x a b = Some (result_of E m x [a, b])"
proof -
  have "b AND 63 = b" if "b < 64"
  proof -
    have "unat b mod 64 = unat b" using that by (simp add: word_less_nat_alt)
    then have "take_bit 6 b = b" by (simp add: word_unat_eq_iff unsigned_take_bit_eq take_bit_eq_mod unat_mod)
    then show ?thesis by (simp add: take_bit_eq_mask mask_numeral)
  qed
  with assms show ?thesis
    by (auto simp: binary_op_def ll_arith_def result_of_def pure_result_def binop_sem_def)
qed

text \<open>The hypotheses of a step, named once.\<close>

definition ready :: "env \<Rightarrow> string set \<Rightarrow> u32 set \<Rightarrow> u32 set \<Rightarrow> EmitCtx \<Rightarrow> ll_state \<Rightarrow> state \<Rightarrow> Instruction \<Rightarrow> bool" where
  "ready E P D N ctx st t i \<longleftrightarrow> represents E P D N ctx st t \<and> D \<subseteq> N \<and> param_names P \<and> result_id i \<notin> N
     \<and> emit_form i \<and> list_all (operand_ok P D) (operands i) \<and> shift_small E t i
     \<and> ec_val_names ctx (result_id i) = Some (instr_name (result_id i))"

definition emitted_as :: "env \<Rightarrow> string set \<Rightarrow> u32 set \<Rightarrow> u32 set \<Rightarrow> EmitCtx \<Rightarrow> ll_state \<Rightarrow> state \<Rightarrow> Instruction \<Rightarrow> EmitCtx option \<Rightarrow> bool" where
  "emitted_as E P D N ctx st t i r \<longleftrightarrow>
     (\<exists>ls ctx' st'. r = Some ctx' \<and> ec_os ctx' = ec_os ctx @ ll_program ls \<and> ll_run E ls st = Some st'
        \<and> represents E P (known_after D i) (insert (result_id i) N) ctx' st' (exec_instr E t i))"

lemma ready_operand:
  assumes "ready E P D N ctx st t i" "x \<in> set (operands i)"
  obtains v where "val_ref ctx x = Some (ll_val_text v)" "ll_eval st v = Some (eval_val E t x)"
proof -
  have "operand_ok P D x" using assms by (simp add: ready_def list_all_iff)
  with assms(1) have "\<exists>v. val_ref ctx x = Some (ll_val_text v) \<and> ll_eval st v = Some (eval_val E t x)"
    by (intro val_ref_correct [of E P D N ctx st t]) (simp_all add: ready_def)
  with that show thesis by blast
qed

lemma emitted_one_line:
  assumes "ready E P D N ctx st t i" "op i \<notin> {Op_STORE, Op_CALL, Op_RET, Op_JMP, Op_CJMP}"
    and "ll_step E l st = ll_define (instr_name (result_id i)) (result_of E (mem t) (op i) (map (eval_val E t) (operands i))) st"
  shows "emitted_as E P D N ctx st t i (Some (out (ll_text l) ctx))"
proof -
  have "memory_after E (mem t) (op i) vs = mem t" "events_of (op i) vs = []" for vs
    using assms(2) by (auto simp: memory_after_def events_of_def)
  then obtain st' where "ll_run E [l] st = Some st'"
    "represents E P (insert (result_id i) D) (insert (result_id i) N) (out (ll_text l) ctx) st' (exec_instr E t i)"
    using one_line [OF _ _ _ _ _ assms(3), of P D N ctx t "exec_instr E t i"] assms(1) by (auto simp: ready_def)
  then show ?thesis
    using assms(2) unfolding emitted_as_def known_after_def by (intro exI [of _ "[l]"]) auto
qed

lemma int_to_string_0: "int_to_string 0 = ''0''"
  by (simp add: int_to_string_def) (subst show_base.simps, simp add: digit_char_def)

lemma emit_const_correct:
  assumes "ready E P D N ctx st t i" "op i = Op_CONST \<or> op i = Op_CONST_PTR"
  shows "emitted_as E P D N ctx st t i (Some (emit_const i ctx))"
proof -
  from assms obtain c b vs where ops: "operands i = Const c b # vs"
    by (cases "operands i") (auto simp: ready_def emit_form_def Let_def binary_op_def is_const_iff)
  let ?l = "LL_Arith Op_ADD (instr_name (result_id i)) (LL_Int (uint c)) (LL_Int 0) ''''"
  have "emit_const i ctx = out (ll_text ?l) ctx"
    by (simp add: emit_const_def Let_def ops int_to_string_0 llvm_binop_def) (simp add: int_to_string_def)
  moreover have "ll_step E ?l st = ll_define (instr_name (result_id i)) (result_of E (mem t) (op i) (map (eval_val E t) (operands i))) st"
    using assms(2) by (auto simp: ll_arith_def result_of_def pure_result_def ops)
  ultimately show ?thesis using emitted_one_line [OF assms(1), of ?l] assms(2) by auto
qed

lemma emit_binary_correct:
  assumes "ready E P D N ctx st t i" "binary_op (op i)"
  shows "emitted_as E P D N ctx st t i (emit_binary i ctx)"
proof -
  from assms have n: "length (operands i) = 2" by (auto simp: ready_def emit_form_def Let_def binary_op_def)
  then obtain a b where ops: "operands i = [a, b]" by (auto simp: length_Suc_conv numeral_2_eq_2)
  have a: "a \<in> set (operands i)" and b: "b \<in> set (operands i)" by (simp_all add: ops)
  obtain va where va: "val_ref ctx a = Some (ll_val_text va)" "ll_eval st va = Some (eval_val E t a)"
    by (rule ready_operand [OF assms(1) a])
  obtain vb where vb: "val_ref ctx b = Some (ll_val_text vb)" "ll_eval st vb = Some (eval_val E t b)"
    by (rule ready_operand [OF assms(1) b])
  note v = va vb
  let ?l = "LL_Arith (op i) (instr_name (result_id i)) va vb ''''"
  have "emit_binary i ctx = Some (out (ll_text ?l) ctx)" using v by (simp add: emit_binary_def ops)
  moreover have "ll_arith (op i) (eval_val E t a) (eval_val E t b) = Some (result_of E (mem t) (op i) [eval_val E t a, eval_val E t b])"
    using assms by (intro arith_correct) (auto simp: ready_def shift_small_def ops)
  then have "ll_step E ?l st = ll_define (instr_name (result_id i)) (result_of E (mem t) (op i) (map (eval_val E t) (operands i))) st"
    using v by (simp add: ops)
  ultimately show ?thesis using emitted_one_line [OF assms(1), of ?l] assms(2) by (auto simp: binary_op_def)
qed


lemma int_to_string_minus_1: "int_to_string (- 1) = ''-1''"
  by (simp add: int_to_string_def) (subst show_base.simps, simp add: digit_char_def)

lemma emit_unary_correct:
  assumes "ready E P D N ctx st t i" "op i = Op_NOT \<or> op i = Op_NEG"
  shows "emitted_as E P D N ctx st t i (emit_unary i ctx)"
proof -
  from assms have n: "length (operands i) = 1" by (auto simp: ready_def emit_form_def Let_def binary_op_def)
  then obtain a where ops: "operands i = [a]" by (auto simp: length_Suc_conv)
  then have a: "a \<in> set (operands i)" by simp
  obtain va where va: "val_ref ctx a = Some (ll_val_text va)" "ll_eval st va = Some (eval_val E t a)"
    by (rule ready_operand [OF assms(1) a])
  let ?l = "if op i = Op_NOT then LL_Arith Op_XOR (instr_name (result_id i)) va (LL_Int (- 1)) ''''
    else LL_Arith Op_SUB (instr_name (result_id i)) (LL_Int 0) va ''''"
  have "emit_unary i ctx = Some (out (ll_text ?l) ctx)"
    using va by (simp add: emit_unary_def ops int_to_string_0 int_to_string_minus_1 llvm_binop_def)
  moreover have "ll_step E ?l st = ll_define (instr_name (result_id i)) (result_of E (mem t) (op i) (map (eval_val E t) (operands i))) st"
    using assms(2) va by (auto simp: ll_arith_def result_of_def pure_result_def unop_sem_def ops)
  ultimately show ?thesis using emitted_one_line [OF assms(1), of ?l] assms(2) by auto
qed

lemma emit_nop_correct:
  assumes "ready E P D N ctx st t i" "op i = Op_NOP"
  shows "emitted_as E P D N ctx st t i (Some (emit_zero i ''nop'' ctx))"
proof -
  let ?l = "LL_Arith Op_ADD (instr_name (result_id i)) (LL_Int 0) (LL_Int 0) '' ; nop''"
  have "emit_zero i ''nop'' ctx = out (ll_text ?l) ctx"
    by (simp add: emit_zero_def int_to_string_0 llvm_binop_def)
  moreover have "ll_step E ?l st = ll_define (instr_name (result_id i)) (result_of E (mem t) (op i) (map (eval_val E t) (operands i))) st"
    using assms(2) by (simp add: ll_arith_def result_of_def pure_result_def)
  ultimately show ?thesis using emitted_one_line [OF assms(1), of ?l] assms(2) by auto
qed

text \<open>A value that is passed through has the name of its operand, and no line of its own.\<close>

lemma passthrough_value:
  assumes "ready E P D N ctx st t i" "operands i = [a]"
  shows "\<exists>v. passthrough_name ctx i = name_text v \<and> val_named v \<and> ll_eval st v = Some (eval_val E t a)"
proof -
  have ok: "operand_ok P D a" and rep: "represents E P D N ctx st t" and P: "param_names P"
    using assms by (simp_all add: ready_def)
  show ?thesis
  proof (cases a)
    case (Const c b)
    then have "passthrough_name ctx i = name_text (LL_Int (uint c))" by (simp add: passthrough_name_def assms(2))
    then show ?thesis using Const by (intro exI [of _ "LL_Int (uint c)"]) simp
  next
    case (SymReg n)
    then have n: "n \<in> P" "name_like n" using ok P by (auto simp: operand_ok_def param_names_def)
    then have "passthrough_name ctx i = name_text (LL_Var n)"
      by (simp add: passthrough_name_def assms(2) SymReg name_like_def)
    then show ?thesis using SymReg n rep by (intro exI [of _ "LL_Var n"]) (simp add: represents_def)
  next
    case (InstrRef j)
    with ok rep obtain v where v: "ec_val_names ctx j = Some (name_text v)" "val_named v" "ll_eval st v = Some (vals t j)"
      by (auto simp: operand_ok_def represents_def)
    then have "passthrough_name ctx i = name_text v"
      using name_ref_text [of v] by (simp add: passthrough_name_def assms(2) InstrRef)
    then show ?thesis using v InstrRef by auto
  qed (use ok in \<open>simp add: operand_ok_def\<close>)
qed

lemma represents_widen: "represents E P D N ctx st t \<Longrightarrow> N \<subseteq> N' \<Longrightarrow> represents E P D N' ctx st t"
  using image_mono [of N N' instr_name] unfolding represents_def by blast

lemma emit_passthrough_correct:
  assumes "ready E P D N ctx st t i" "op i = Op_PASSTHROUGH"
  shows "emitted_as E P D N ctx st t i (Some (set_name (result_id i) (passthrough_name ctx i) ctx))"
proof -
  from assms have n: "length (operands i) = 1" by (auto simp: ready_def emit_form_def Let_def binary_op_def)
  then obtain a where ops: "operands i = [a]" by (auto simp: length_Suc_conv)
  from passthrough_value [OF assms(1) ops] obtain v where
    v: "passthrough_name ctx i = name_text v" "val_named v" "ll_eval st v = Some (eval_val E t a)" by blast
  have rep: "represents E P D (insert (result_id i) N) ctx st t"
    using assms(1) by (auto simp: ready_def intro: represents_widen)
  have "represents E P (insert (result_id i) D) (insert (result_id i) N)
      (set_name (result_id i) (passthrough_name ctx i) ctx) st (exec_instr E t i)"
    by (rule add_value [OF rep _ _ _ v(2,3)])
      (use assms v(1) ops in \<open>auto simp: ready_def result_of_def pure_result_def memory_after_def events_of_def\<close>)
  then show ?thesis
    using assms(2) unfolding emitted_as_def known_after_def by (intro exI [of _ "[]"]) simp
qed


subsection \<open>Instructions of several lines\<close>

lemma new_tmp_eq: "new_tmp ctx = (tmp_name (ec_tmp_counter ctx), ctx\<lparr>ec_tmp_counter := ec_tmp_counter ctx + 1\<rparr>)"
  by (simp add: new_tmp_def tmp_name_def)

abbreviation next_tmp :: "EmitCtx \<Rightarrow> EmitCtx" where
  "next_tmp ctx \<equiv> ctx\<lparr>ec_tmp_counter := ec_tmp_counter ctx + 1\<rparr>"

lemma val_ref_next_tmp [simp]: "val_ref (ctx\<lparr>ec_tmp_counter := k\<rparr>) v = val_ref ctx v"
  "val_ref (ctx\<lparr>ec_os := s\<rparr>) v = val_ref ctx v"
  by (cases v; simp add: val_ref_def resolved_ref_def split: option.split)+

lemma emit_load_correct:
  assumes "ready E P D N ctx st t i" "op i = Op_LOAD"
  shows "emitted_as E P D N ctx st t i (emit_load i ctx)"
proof -
  let ?r = "result_id i" and ?tmp = "tmp_name (ec_tmp_counter ctx)"
  from assms have n: "length (operands i) = 1" by (auto simp: ready_def emit_form_def Let_def binary_op_def)
  then obtain a where ops: "operands i = [a]" by (auto simp: length_Suc_conv)
  then have a: "a \<in> set (operands i)" by simp
  obtain va where va: "val_ref ctx a = Some (ll_val_text va)" "ll_eval st va = Some (eval_val E t a)"
    by (rule ready_operand [OF assms(1) a])
  have pre: "represents E P D N ctx st t" "?r \<notin> N" "param_names P" "D \<subseteq> N"
    using assms(1) by (simp_all add: ready_def)
  let ?ls = "[LL_Note (''LOAD from '' @ ll_val_text va), LL_Ptr (instr_name ?r) va, LL_Load ?tmp (instr_name ?r)]"
  let ?ctx = "set_name ?r ?tmp (out (ll_program ?ls) (next_tmp ctx))"
  have emit: "emit_load i ctx = Some ?ctx"
    using va by (simp add: emit_load_def ops new_tmp_eq out_def set_name_def Let_def)
  note d1 = define_result [OF pre(1-3), of "eval_val E t a"]
  let ?st1 = "st\<lparr>ll_vars := (ll_vars st)(instr_name ?r \<mapsto> eval_val E t a)\<rparr>"
  note d2 = define_tmp [OF d1(2) pre(3) refl, where ctx' = "next_tmp ctx" and x = "rd64 (mem t) (eval_val E t a)"]
  let ?st2 = "?st1\<lparr>ll_vars := (ll_vars ?st1)(?tmp \<mapsto> rd64 (mem t) (eval_val E t a))\<rparr>"
  have "\<not> ll_done st" "ll_mem st = mem t" using pre(1) by (simp_all add: represents_def)
  then have run: "ll_run E ?ls st = Some ?st2" using va d1(1) d2(1) by simp
  have "represents E P (insert ?r D) (insert ?r N) ?ctx ?st2 (exec_instr E t i)"
    by (rule add_value [OF d2(2), where v = "LL_Var ?tmp" and x = "rd64 (mem t) (eval_val E t a)"])
      (use pre assms(2) ops instr_name_like in \<open>auto simp: result_of_def memory_after_def events_of_def\<close>)
  with emit run assms(2) show ?thesis
    unfolding emitted_as_def known_after_def by (intro exI [of _ ?ls] exI [of _ ?ctx] exI [of _ ?st2]) simp
qed

lemma emit_store_correct:
  assumes "ready E P D N ctx st t i" "op i = Op_STORE"
  shows "emitted_as E P D N ctx st t i (emit_store i ctx)"
proof -
  let ?r = "result_id i" and ?tmp = "tmp_name (ec_tmp_counter ctx)"
  from assms have n: "length (operands i) = 2" by (auto simp: ready_def emit_form_def Let_def binary_op_def)
  then obtain a b where ops: "operands i = [a, b]" by (auto simp: length_Suc_conv numeral_2_eq_2)
  have a: "a \<in> set (operands i)" and b: "b \<in> set (operands i)" by (simp_all add: ops)
  obtain va where va: "val_ref ctx a = Some (ll_val_text va)" "ll_eval st va = Some (eval_val E t a)"
    by (rule ready_operand [OF assms(1) a])
  obtain vb where vb: "val_ref ctx b = Some (ll_val_text vb)" "ll_eval st vb = Some (eval_val E t b)"
    by (rule ready_operand [OF assms(1) b])
  have pre: "represents E P D N ctx st t" "?r \<notin> N" "param_names P" "D \<subseteq> N"
    using assms(1) by (simp_all add: ready_def)
  let ?ls = "[LL_Ptr ?tmp va, LL_Store vb ?tmp]"
  let ?ctx = "out (ll_program ?ls) (next_tmp ctx)"
  have emit: "emit_store i ctx = Some ?ctx"
    using va vb by (simp add: emit_store_def ops new_tmp_eq out_def Let_def)
  note d = define_tmp [OF pre(1,3) refl, where ctx' = "next_tmp ctx" and x = "eval_val E t a"]
  let ?st1 = "st\<lparr>ll_vars := (ll_vars st)(?tmp \<mapsto> eval_val E t a)\<rparr>"
  let ?st2 = "?st1\<lparr>ll_mem := wr64 (mem t) (eval_val E t a) (eval_val E t b)\<rparr>"
  have st: "\<not> ll_done st" "ll_mem st = mem t" using pre(1) by (simp_all add: represents_def)
  have free: "ll_vars st ?tmp = None" using d(1) by (simp add: ll_define_def split: if_splits)
  have run: "ll_run E ?ls st = Some ?st2"
    using va d(1) st ll_eval_define [OF free vb(2)] by simp
  have "represents E P D N ?ctx ?st1 t" using d(2) by simp
  then have "represents E P D (insert ?r N) ?ctx ?st1 t" by (rule represents_widen) blast
  moreover have "ll_eval ?st2 v = ll_eval ?st1 v" for v by (cases v) simp_all
  moreover have "?r \<notin> D" using pre by blast
  ultimately have "represents E P D (insert ?r N) ?ctx ?st2 (exec_instr E t i)"
    using assms(2) by (auto simp: represents_def ops memory_after_def events_of_def)
  with emit run assms(2) show ?thesis
    unfolding emitted_as_def known_after_def by (intro exI [of _ ?ls] exI [of _ ?ctx] exI [of _ ?st2]) simp
qed

lemma emit_call_correct:
  assumes "ready E P D N ctx st t i" "op i = Op_CALL"
  shows "emitted_as E P D N ctx st t i (emit_call i ctx)"
proof -
  let ?r = "result_id i"
  from assms have n: "length (operands i) = 1" by (auto simp: ready_def emit_form_def Let_def binary_op_def)
  then obtain a where ops: "operands i = [a]" by (auto simp: length_Suc_conv)
  then have a: "a \<in> set (operands i)" by simp
  obtain va where va: "val_ref ctx a = Some (ll_val_text va)" "ll_eval st va = Some (eval_val E t a)"
    by (rule ready_operand [OF assms(1) a])
  have pre: "represents E P D N ctx st t" "?r \<notin> N" "param_names P" "D \<subseteq> N"
    and name: "ec_val_names ctx ?r = Some (instr_name ?r)"
    using assms(1) by (simp_all add: ready_def)
  let ?ls = "[LL_Note (''CALL '' @ ll_val_text va), LL_Call (instr_name ?r) va]"
  let ?ctx = "out (ll_program ?ls) ctx"
  have emit: "emit_call i ctx = Some ?ctx"
    using va by (simp add: emit_call_def ops out_def Let_def)
  let ?res = "ext_call E [eval_val E t a] (mem t)"
  let ?t' = "t\<lparr>mem := snd ?res, trace := trace t @ [E_Call [eval_val E t a]]\<rparr>"
  let ?st1 = "st\<lparr>ll_mem := snd ?res, ll_trace := ll_trace st @ [E_Call [eval_val E t a]]\<rparr>"
  have st: "\<not> ll_done st" "ll_mem st = mem t" using pre(1) by (simp_all add: represents_def)
  have "ll_eval ?st1 v = ll_eval st v" for v by (cases v) simp_all
  then have rep1: "represents E P D N ctx ?st1 ?t'" using pre(1) by (simp add: represents_def)
  note d = define_result [OF rep1 pre(2,3), of "fst ?res"]
  let ?st2 = "?st1\<lparr>ll_vars := (ll_vars ?st1)(instr_name ?r \<mapsto> fst ?res)\<rparr>"
  have run: "ll_run E ?ls st = Some ?st2" using va st d(1) by simp
  have rep2: "represents E P D (insert ?r N) ?ctx ?st2 ?t'" using d(2) by simp
  have "represents E P (insert ?r D) (insert ?r N) ?ctx ?st2 (exec_instr E t i)"
    by (rule add_value [OF rep2, where v = "LL_Var (instr_name ?r)" and x = "fst ?res"])
      (use pre name assms(2) ops instr_name_like in \<open>auto simp: result_of_def memory_after_def events_of_def fun_upd_idem\<close>)
  with emit run assms(2) show ?thesis
    unfolding emitted_as_def known_after_def by (intro exI [of _ ?ls] exI [of _ ?ctx] exI [of _ ?st2]) simp
qed


lemma emit_select_correct:
  assumes "ready E P D N ctx st t i" "op i = Op_SELECT"
  shows "emitted_as E P D N ctx st t i (emit_select i ctx)"
proof -
  let ?r = "result_id i" and ?tmp = "tmp_name (ec_tmp_counter ctx)"
  from assms have n: "length (operands i) = 3" by (auto simp: ready_def emit_form_def Let_def binary_op_def)
  then obtain c a b where ops: "operands i = [c, a, b]" by (auto simp: length_Suc_conv numeral_3_eq_3)
  have c: "c \<in> set (operands i)" and a: "a \<in> set (operands i)" and b: "b \<in> set (operands i)" by (simp_all add: ops)
  obtain vc where vc: "val_ref ctx c = Some (ll_val_text vc)" "ll_eval st vc = Some (eval_val E t c)"
    by (rule ready_operand [OF assms(1) c])
  obtain va where va: "val_ref ctx a = Some (ll_val_text va)" "ll_eval st va = Some (eval_val E t a)"
    by (rule ready_operand [OF assms(1) a])
  obtain vb where vb: "val_ref ctx b = Some (ll_val_text vb)" "ll_eval st vb = Some (eval_val E t b)"
    by (rule ready_operand [OF assms(1) b])
  have pre: "represents E P D N ctx st t" "?r \<notin> N" "param_names P" "D \<subseteq> N"
    and name: "ec_val_names ctx ?r = Some (instr_name ?r)"
    using assms(1) by (simp_all add: ready_def)
  let ?ls = "[LL_Ne ?tmp vc, LL_Select (instr_name ?r) ?tmp va vb]"
  let ?ctx = "out (ll_program ?ls) (next_tmp ctx)"
  have emit: "emit_select i ctx = Some ?ctx"
    using va vb vc by (simp add: emit_select_def ops new_tmp_eq out_def Let_def)
  let ?cv = "if eval_val E t c \<noteq> 0 then 1 else 0 :: u64"
  let ?x = "if eval_val E t c \<noteq> 0 then eval_val E t a else eval_val E t b"
  note d1 = define_tmp [OF pre(1,3) refl, where ctx' = "next_tmp ctx" and x = ?cv]
  let ?st1 = "st\<lparr>ll_vars := (ll_vars st)(?tmp \<mapsto> ?cv)\<rparr>"
  have free: "ll_vars st ?tmp = None" using d1(1) by (simp add: ll_define_def split: if_splits)
  have rep1: "represents E P D N (next_tmp ctx) ?st1 t" using d1(2) by simp
  note d2 = define_result [OF rep1 pre(2,3), of ?x]
  let ?st2 = "?st1\<lparr>ll_vars := (ll_vars ?st1)(instr_name ?r \<mapsto> ?x)\<rparr>"
  have st: "\<not> ll_done st" using pre(1) by (simp add: represents_def)
  have step1: "ll_step E (LL_Ne ?tmp vc) st = Some ?st1" using vc d1(1) by simp
  have step2: "ll_step E (LL_Select (instr_name ?r) ?tmp va vb) ?st1 = Some ?st2"
    using ll_eval_define [OF free va(2)] ll_eval_define [OF free vb(2)] d2(1)
    by (cases "eval_val E t c = 0") simp_all
  have run: "ll_run E ?ls st = Some ?st2" using st step1 step2 by (simp del: ll_step.simps)
  have rep2: "represents E P D (insert ?r N) ?ctx ?st2 t" using d2(2) by simp
  have "represents E P (insert ?r D) (insert ?r N) ?ctx ?st2 (exec_instr E t i)"
    by (rule add_value [OF rep2, where v = "LL_Var (instr_name ?r)" and x = ?x])
      (use pre name assms(2) ops instr_name_like in
        \<open>auto simp: result_of_def pure_result_def memory_after_def events_of_def fun_upd_idem\<close>)
  with emit run assms(2) show ?thesis
    unfolding emitted_as_def known_after_def by (intro exI [of _ ?ls] exI [of _ ?ctx] exI [of _ ?st2]) simp
qed


subsection \<open>A list of instructions\<close>

lemma emit_instr_correct:
  assumes "represents E P D N ctx st t" "D \<subseteq> N" "param_names P" "result_id i \<notin> N" "emit_form i"
    "list_all (operand_ok P D) (operands i)" "shift_small E t i" "op i \<noteq> Op_RET"
  shows "emitted_as E P D N ctx st t i (emit_instr i ctx)"
proof -
  let ?ctx = "set_name (result_id i) (instr_name (result_id i)) ctx"
  have "result_id i \<notin> D" using assms by blast
  then have r: "ready E P D N ?ctx st t i"
    using assms represents_set_name by (simp add: ready_def)
  have lift: "emitted_as E P D N ctx st t i x" if "emitted_as E P D N ?ctx st t i x" for x
    using that unfolding emitted_as_def by simp
  have kinds: "op i = Op_CONST \<or> op i = Op_CONST_PTR \<or> binary_op (op i) \<or> op i = Op_NOT \<or> op i = Op_NEG
    \<or> op i = Op_LOAD \<or> op i = Op_STORE \<or> op i = Op_CALL \<or> op i = Op_PASSTHROUGH \<or> op i = Op_SELECT \<or> op i = Op_NOP"
    using assms(5,8) by (auto simp: emit_form_def Let_def)
  have const: "emitted_as E P D N ctx st t i (emit_instr i ctx)" if "op i = Op_CONST \<or> op i = Op_CONST_PTR"
    using lift [OF emit_const_correct [OF r that]] that by (auto simp: emit_instr_def Let_def)
  have bin: "emitted_as E P D N ctx st t i (emit_instr i ctx)" if "binary_op (op i)"
    using lift [OF emit_binary_correct [OF r that]] that by (auto simp: emit_instr_def Let_def binary_op_def)
  have un: "emitted_as E P D N ctx st t i (emit_instr i ctx)" if "op i = Op_NOT \<or> op i = Op_NEG"
    using lift [OF emit_unary_correct [OF r that]] that by (auto simp: emit_instr_def Let_def binary_op_def)
  have rest: "emitted_as E P D N ctx st t i (emit_instr i ctx)"
    if "op i \<in> {Op_LOAD, Op_STORE, Op_CALL, Op_PASSTHROUGH, Op_SELECT, Op_NOP}"
    using that lift emit_load_correct [OF r] emit_store_correct [OF r] emit_call_correct [OF r]
      emit_passthrough_correct [OF r] emit_select_correct [OF r] emit_nop_correct [OF r]
    by (auto simp: emit_instr_def Let_def binary_op_def)
  show ?thesis using kinds const bin un rest by blast
qed

text \<open>
  Code the theorem below covers: every id is defined once, every operand is a constant, a parameter
  or a value that is already known, every opcode has a line of its own, and a return is last.
\<close>

fun emittable :: "string set \<Rightarrow> u32 set \<Rightarrow> u32 set \<Rightarrow> Instruction list \<Rightarrow> bool" where
  "emittable P D N [] = True"
| "emittable P D N (i # is) =
     (result_id i \<notin> N \<and> emit_form i \<and> list_all (operand_ok P D) (operands i) \<and> (op i = Op_RET \<longrightarrow> is = [])
      \<and> emittable P (known_after D i) (insert (result_id i) N) is)"

fun shifts_small :: "env \<Rightarrow> state \<Rightarrow> Instruction list \<Rightarrow> bool" where
  "shifts_small E t [] = True"
| "shifts_small E t (i # is) = (shift_small E t i \<and> shifts_small E (exec_instr E t i) is)"

text \<open>What a run leaves behind for the outside.\<close>

definition same_effect :: "ll_state \<Rightarrow> state \<Rightarrow> bool" where
  "same_effect st t \<longleftrightarrow> ll_mem st = mem t \<and> ll_trace st = trace t"

definition returns :: "Instruction list \<Rightarrow> bool" where
  "returns is \<longleftrightarrow> list_ex (\<lambda>i. op i = Op_RET) is"

lemma emit_ret_correct:
  assumes rep: "represents E P D N ctx st t" and P: "param_names P" "result_id i \<notin> D"
    and i: "emit_form i" "list_all (operand_ok P D) (operands i)" "op i = Op_RET"
  shows "\<exists>ls ctx' st'. emit_instr i ctx = Some ctx' \<and> ec_os ctx' = ec_os ctx @ ll_program ls
     \<and> ll_run E ls st = Some st' \<and> same_effect st' (exec_instr E t i) \<and> ll_done st'"
proof -
  let ?ctx = "set_name (result_id i) (instr_name (result_id i)) ctx"
  from i obtain a where ops: "operands i = [a]"
    by (auto simp: emit_form_def Let_def binary_op_def length_Suc_conv)
  have rep': "represents E P D N ?ctx st t" using rep P(2) by (rule represents_set_name)
  have "operand_ok P D a" using i(2) by (simp add: ops)
  from val_ref_correct [OF rep' this P(1)] obtain v where
    v: "val_ref ?ctx a = Some (ll_val_text v)" "ll_eval st v = Some (eval_val E t a)" by blast
  let ?st = "st\<lparr>ll_trace := ll_trace st @ [E_Ret [eval_val E t a]], ll_done := True\<rparr>"
  have "emit_instr i ctx = Some (out (ll_program [LL_Ret v]) ?ctx)"
    using v i(3) by (simp add: emit_instr_def binary_op_def emit_ret_def ops)
  moreover have "ll_run E [LL_Ret v] st = Some ?st" using v rep by (simp add: represents_def)
  moreover have "same_effect ?st (exec_instr E t i)"
    using rep i(3) by (simp add: same_effect_def represents_def ops memory_after_def events_of_def)
  ultimately show ?thesis
    by (intro exI [of _ "[LL_Ret v]"] exI [of _ "out (ll_program [LL_Ret v]) ?ctx"] exI [of _ ?st]) simp
qed

lemma emit_instrs_correct:
  assumes "represents E P D N ctx st t" "D \<subseteq> N" "param_names P" "emittable P D N is" "shifts_small E t is"
  shows "\<exists>ls ctx' st'. emit_instrs is ctx = Some ctx' \<and> ec_os ctx' = ec_os ctx @ ll_program ls
     \<and> ll_run E ls st = Some st' \<and> same_effect st' (exec E t is) \<and> (ll_done st' \<longleftrightarrow> returns is)"
  using assms
proof (induction "is" arbitrary: D N ctx st t)
  case Nil
  then show ?case by (intro exI [of _ "[]"]) (simp add: same_effect_def represents_def returns_def)
next
  case (Cons i "is")
  show ?case
  proof (cases "op i = Op_RET")
    case True
    with Cons.prems have "is = []" and nD: "result_id i \<notin> D" by auto
    moreover from emit_ret_correct [OF Cons.prems(1,3) nD _ _ True] Cons.prems(4) obtain ls ctx' st' where
      "emit_instr i ctx = Some ctx'" "ec_os ctx' = ec_os ctx @ ll_program ls" "ll_run E ls st = Some st'"
      "same_effect st' (exec_instr E t i)" "ll_done st'" by auto
    ultimately show ?thesis using True
      by (intro exI [of _ ls] exI [of _ ctx'] exI [of _ st']) (simp add: returns_def)
  next
    case False
    with Cons.prems emit_instr_correct [of E P D N ctx st t i] have
      "emitted_as E P D N ctx st t i (emit_instr i ctx)" by simp
    then obtain ls ctx' st' where
      1: "emit_instr i ctx = Some ctx'" "ec_os ctx' = ec_os ctx @ ll_program ls" "ll_run E ls st = Some st'"
        "represents E P (known_after D i) (insert (result_id i) N) ctx' st' (exec_instr E t i)"
      unfolding emitted_as_def by blast
    have "known_after D i \<subseteq> insert (result_id i) N" using Cons.prems(2) by (auto simp: known_after_def)
    from Cons.IH [OF 1(4) this Cons.prems(3)] Cons.prems(4,5) obtain ls2 ctx2 st2 where
      2: "emit_instrs is ctx' = Some ctx2" "ec_os ctx2 = ec_os ctx' @ ll_program ls2" "ll_run E ls2 st' = Some st2"
        "same_effect st2 (exec E (exec_instr E t i) is)" "ll_done st2 \<longleftrightarrow> returns is" by auto
    have "ll_run E (ls @ ls2) st = Some st2" by (simp add: ll_run_append 1(3) 2(3))
    with 1 2 False show ?thesis
      by (intro exI [of _ "ls @ ls2"] exI [of _ ctx2] exI [of _ st2]) (simp add: returns_def)
  qed
qed


subsection \<open>A function\<close>

lemma emittable_ids: "emittable P D N is \<Longrightarrow> ids is \<inter> N = {}"
  by (induction "is" arbitrary: D N) auto

lemma emittable_ssa: "emittable P D N is \<Longrightarrow> D \<subseteq> N \<Longrightarrow> ssa is"
proof (induction "is" arbitrary: D N)
  case (Cons i "is")
  have N: "known_after D i \<subseteq> insert (result_id i) N" using Cons.prems(2) by (auto simp: known_after_def)
  have sets: "A \<subseteq> D \<Longrightarrow> D \<subseteq> N \<Longrightarrow> r \<notin> N \<Longrightarrow> I \<inter> insert r N = {} \<Longrightarrow> A \<inter> insert r I = {} \<and> r \<notin> I"
    for A I :: "u32 set" and r by blast
  have "ssa is" using Cons.prems(1) by (intro Cons.IH [OF _ N]) simp
  have fresh: "ids is \<inter> insert (result_id i) N = {}"
    using Cons.prems(1) by (intro emittable_ids [of P "known_after D i"]) simp
  have "j \<in> D" if "InstrRef j \<in> set (operands i)" for j
  proof -
    have "operand_ok P D (InstrRef j)" using Cons.prems(1) that by (auto simp: list_all_iff)
    then show ?thesis by (simp add: operand_ok_def)
  qed
  then have refs: "set (ref_ids i) \<subseteq> D" by (auto simp: set_ref_ids)
  have r: "result_id i \<notin> N" using Cons.prems(1) by simp
  have cons: "ids (i # is) = insert (result_id i) (ids is)" by simp
  from sets [OF refs Cons.prems(2) r fresh] \<open>ssa is\<close> show ?case
    unfolding ssa_Cons_iff cons by blast
qed simp

lemma register_name_frame:
  assumes "ssa vec"
  shows "\<exists>ctx'. register_name vec (build_instr_map vec) i ctx = Some ctx' \<and> ec_os ctx' = ec_os ctx
     \<and> ec_tmp_counter ctx' = ec_tmp_counter ctx"
proof -
  obtain w where "resolve vec (build_instr_map vec) (operands i ! 0) = Some w"
    using resolve_defined [OF assms] by blast
  then show ?thesis by (auto simp: register_name_def split: option.split)
qed

lemma register_names_frame:
  assumes "ssa vec"
  shows "\<exists>ctx'. register_names vec (build_instr_map vec) is ctx = Some ctx' \<and> ec_os ctx' = ec_os ctx
     \<and> ec_tmp_counter ctx' = ec_tmp_counter ctx"
proof (induction "is" arbitrary: ctx)
  case (Cons i "is")
  from register_name_frame [OF assms, of i ctx] obtain c where
    c: "register_name vec (build_instr_map vec) i ctx = Some c" "ec_os c = ec_os ctx" "ec_tmp_counter c = ec_tmp_counter ctx"
    by blast
  from Cons [of c] c show ?case by auto
qed simp

lemma register_nops_frame:
  "ec_os (register_nops is ctx) = ec_os ctx" "ec_tmp_counter (register_nops is ctx) = ec_tmp_counter ctx"
  unfolding register_nops_def by (induction "is" arbitrary: ctx) auto

lemma set_add_once: "set (foldl add_once ns ms) = set ns \<union> set ms"
  by (induction ms arbitrary: ns) (auto simp: add_once_def)

lemma distinct_add_once: "distinct ns \<Longrightarrow> distinct (foldl add_once ns ms)"
  by (induction ms arbitrary: ns) (simp_all add: add_once_def)

lemma distinct_function_regs: "distinct (function_regs f)"
  by (simp add: function_regs_def distinct_add_once)

definition ll_entry :: "env \<Rightarrow> string list \<Rightarrow> state \<Rightarrow> ll_state" where
  "ll_entry E params t =
     \<lparr>ll_vars = (\<lambda>n. if n \<in> set params then Some (sym E n) else None), ll_mem = mem t, ll_trace = trace t, ll_done = False\<rparr>"

lemma represents_entry: "ec_tmp_counter ctx = 0 \<Longrightarrow> represents E (set params) {} {} ctx (ll_entry E params t) t"
  by (auto simp: represents_def ll_entry_def dom_def)


text \<open>A function with every kind of line, applied to the theorem.\<close>

definition emitted_sample :: Function where
  "emitted_sample = \<lparr>fn_name = ''f'', instrs =
     [instr0 Op_CONST [Const64 5] 0, instr0 Op_ADD [SymReg ''rax'', InstrRef 0] 1,
      instr0 Op_STORE [SymReg ''rbx'', InstrRef 1] 2, instr0 Op_LOAD [SymReg ''rbx''] 3,
      instr0 Op_NOT [InstrRef 3] 4, instr0 Op_PASSTHROUGH [InstrRef 4] 5, instr0 Op_SHL [InstrRef 5, Const64 3] 6,
      instr0 Op_SELECT [InstrRef 6, InstrRef 0, SymReg ''rax''] 7, instr0 Op_CALL [InstrRef 7] 8,
      instr0 Op_RET [InstrRef 8] 9], next_id = 10\<rparr>"


end
