(* ===== verification/LLVM_Graph.thy ===== *)
theory LLVM_Graph
  imports LLVM_Correct
begin

section \<open>The LLVM text of a control-flow graph\<close>

text \<open>
  What \<^verbatim>\<open>emit_cfg_function\<close> writes for every graph: that it returns, and what it does with the
  values of blocks further down.
\<close>

subsection \<open>The text of a graph\<close>

text \<open>What writing a piece of a graph does to the context: it always succeeds, and names its ids.\<close>

definition resolvable :: "EmitCtx \<Rightarrow> bool" where
  "resolvable ctx \<longleftrightarrow> (case ec_instr_map ctx of None \<Rightarrow> True | Some (vec, im) \<Rightarrow> ssa vec \<and> im = build_instr_map vec)"

definition writes :: "EmitCtx \<Rightarrow> EmitCtx option \<Rightarrow> u32 set \<Rightarrow> bool" where
  "writes ctx r I \<longleftrightarrow> (resolvable ctx \<longrightarrow>
     (\<exists>ctx' s. r = Some ctx' \<and> ec_instr_map ctx' = ec_instr_map ctx \<and> dom (ec_val_names ctx') = dom (ec_val_names ctx) \<union> I
        \<and> ec_os ctx' = ec_os ctx @ s))"

lemma resolvable_cong: "ec_instr_map ctx' = ec_instr_map ctx \<Longrightarrow> resolvable ctx' = resolvable ctx"
  by (simp add: resolvable_def)

lemma resolvable_None [simp]: "ec_instr_map ctx = None \<Longrightarrow> resolvable ctx"
  by (simp add: resolvable_def)

lemma val_ref_total:
  assumes "resolvable ctx"
  shows "\<exists>s. val_ref ctx v = Some s"
proof -
  have "\<exists>s. resolved_ref ctx j = Some s" for j
  proof (cases "ec_instr_map ctx")
    case (Some m)
    with assms obtain vec where m: "m = (vec, build_instr_map vec)" "ssa vec"
      by (cases m) (auto simp: resolvable_def)
    from resolve_defined [OF m(2)] obtain w where "resolve vec (build_instr_map vec) (InstrRef j) = Some w" by blast
    with Some m show ?thesis by (simp add: resolved_ref_def)
  qed (simp add: resolved_ref_def)
  then show ?thesis by (cases v) (auto simp: val_ref_def split: option.split)
qed

lemma val_ref_later: "ec_instr_map ctx = None \<Longrightarrow> j \<notin> dom (ec_val_names ctx) \<Longrightarrow> val_ref ctx (InstrRef j) = Some ''0''"
  by (auto simp: val_ref_def resolved_ref_def split: option.split)

lemma writes_bind: "writes ctx r I \<Longrightarrow> (\<And>c. writes c (g c) J) \<Longrightarrow> writes ctx (do { c \<leftarrow> r; g c }) (I \<union> J)"
  unfolding writes_def
proof
  assume r: "resolvable ctx \<longrightarrow> (\<exists>ctx' s. r = Some ctx' \<and> ec_instr_map ctx' = ec_instr_map ctx
      \<and> dom (ec_val_names ctx') = dom (ec_val_names ctx) \<union> I \<and> ec_os ctx' = ec_os ctx @ s)"
    and g: "\<And>c. resolvable c \<longrightarrow> (\<exists>ctx' s. g c = Some ctx' \<and> ec_instr_map ctx' = ec_instr_map c
      \<and> dom (ec_val_names ctx') = dom (ec_val_names c) \<union> J \<and> ec_os ctx' = ec_os c @ s)"
    and none: "resolvable ctx"
  from r none obtain c s where c: "r = Some c" "ec_instr_map c = ec_instr_map ctx"
    "dom (ec_val_names c) = dom (ec_val_names ctx) \<union> I" "ec_os c = ec_os ctx @ s" by blast
  from resolvable_cong [OF c(2)] none have "resolvable c" by simp
  with g [of c] obtain c' s' where "g c = Some c'" "ec_instr_map c' = ec_instr_map c"
    "dom (ec_val_names c') = dom (ec_val_names c) \<union> J" "ec_os c' = ec_os c @ s'" by blast
  with c show "\<exists>ctx' s. r \<bind> g = Some ctx' \<and> ec_instr_map ctx' = ec_instr_map ctx
      \<and> dom (ec_val_names ctx') = dom (ec_val_names ctx) \<union> (I \<union> J) \<and> ec_os ctx' = ec_os ctx @ s"
    by (intro exI [of _ c'] exI [of _ "s @ s'"]) (simp add: Un_assoc)
qed

lemma emit_instr_writes: "writes ctx (emit_instr i ctx) {result_id i}"
  unfolding writes_def
proof
  assume none: "resolvable ctx"
  let ?ctx = "set_name (result_id i) (instr_name (result_id i)) ctx"
  have n: "resolvable ?ctx" using none by (simp add: resolvable_def)
  obtain a where a: "val_ref ?ctx (operands i ! 0) = Some a" using val_ref_total [OF n] by blast
  obtain b where b: "val_ref ?ctx (operands i ! 1) = Some b" using val_ref_total [OF n] by blast
  obtain c where c: "val_ref ?ctx (operands i ! 2) = Some c" using val_ref_total [OF n] by blast
  show "\<exists>ctx' s. emit_instr i ctx = Some ctx' \<and> ec_instr_map ctx' = ec_instr_map ctx
      \<and> dom (ec_val_names ctx') = dom (ec_val_names ctx) \<union> {result_id i} \<and> ec_os ctx' = ec_os ctx @ s"
    using none a b c
    by (auto simp: emit_instr_def emit_const_def emit_binary_def emit_unary_def emit_load_def emit_store_def
      emit_ret_def emit_call_def emit_select_def emit_zero_def new_tmp_eq Let_def split: option.split)
qed

lemma emit_instrs_writes: "writes ctx (emit_instrs is ctx) (ids is)"
proof (induction "is" arbitrary: ctx)
  case (Cons i "is")
  have "writes ctx (do { c \<leftarrow> emit_instr i ctx; emit_instrs is c }) ({result_id i} \<union> ids is)"
    by (rule writes_bind [OF emit_instr_writes Cons])
  then show ?case by simp
qed (simp add: writes_def)

lemma phi_arms_total: "resolvable ctx \<Longrightarrow> \<exists>arms. phi_arms f ctx ps = Some arms \<and> length arms = length ps"
proof (induction ps)
  case (Cons p ps)
  obtain b v where p: "p = (b, v)" by fastforce
  obtain s where "val_ref ctx v = Some s" using val_ref_total [OF Cons.prems] by blast
  with Cons show ?case by (auto simp: p)
qed simp

lemma emit_phi_writes: "writes ctx (emit_phi f p ctx) {phi_id p}"
proof -
  let ?ctx = "set_name (phi_id p) (instr_name (phi_id p)) ctx"
  have "resolvable ctx \<Longrightarrow> \<exists>arms. phi_arms f ?ctx (phi_incoming p) = Some arms"
    using phi_arms_total [of ?ctx f "phi_incoming p"] by (auto simp: resolvable_def)
  then show ?thesis by (auto simp: writes_def emit_phi_def Let_def)
qed

lemma emit_phis_writes: "writes ctx (emit_phis f ps ctx) (phi_id ` set ps)"
proof (induction ps arbitrary: ctx)
  case (Cons p ps)
  have "writes ctx (do { c \<leftarrow> emit_phi f p ctx; emit_phis f ps c }) ({phi_id p} \<union> phi_id ` set ps)"
    by (rule writes_bind [OF emit_phi_writes Cons])
  then show ?case by simp
qed (simp add: writes_def)

lemma emit_term_writes: "writes ctx (emit_term f t r ctx) {}"
  unfolding writes_def
proof
  assume none: "resolvable ctx"
  have v: "\<exists>s. val_ref ctx v = Some s" for v by (rule val_ref_total [OF none])
  have "\<exists>ctx' s. emit_term f t r ctx = Some ctx' \<and> ec_instr_map ctx' = ec_instr_map ctx
      \<and> ec_val_names ctx' = ec_val_names ctx \<and> ec_os ctx' = ec_os ctx @ s"
  proof (cases "term_kind t = Term_CJMP \<and> term_condition t \<noteq> None")
    case True
    then obtain c where c: "term_condition t = Some c" by auto
    moreover obtain s where "val_ref ctx c = Some s" using v [of c] by blast
    ultimately show ?thesis using True none
      by (simp add: emit_term_def new_tmp_eq Let_def split: option.split)
  next
    case False
    then show ?thesis using none
      by (auto simp: emit_term_def emit_br_def split: TermKind.split option.split)
  qed
  then show "\<exists>ctx' s. emit_term f t r ctx = Some ctx' \<and> ec_instr_map ctx' = ec_instr_map ctx
      \<and> dom (ec_val_names ctx') = dom (ec_val_names ctx) \<union> {} \<and> ec_os ctx' = ec_os ctx @ s" by auto
qed

definition block_ids :: "BasicBlock \<Rightarrow> u32 set" where
  "block_ids b = phi_id ` set (bb_phis b) \<union> ids (body_code b)"

lemma emit_block_writes: "writes ctx (emit_block f b ctx) (block_ids b)"
proof -
  have "writes ctx (emit_phis f (bb_phis b) (out (bb_label b @ '':'' @ nl) ctx)) (phi_id ` set (bb_phis b))"
    using emit_phis_writes [of "out (bb_label b @ '':'' @ nl) ctx" f "bb_phis b"]
    by (auto simp: writes_def resolvable_def)
  then have "writes ctx (emit_block f b ctx) (phi_id ` set (bb_phis b) \<union> (ids (body_code b) \<union> {}))"
    unfolding emit_block_def by (intro writes_bind emit_instrs_writes emit_term_writes)
  then show ?thesis by (simp add: block_ids_def)
qed

lemma emit_blocks_writes: "writes ctx (emit_blocks f bs ctx) (\<Union> (block_ids ` set bs))"
proof (induction bs arbitrary: ctx)
  case (Cons b bs)
  have "writes ctx (do { c \<leftarrow> emit_block f b ctx; emit_blocks f bs c }) (block_ids b \<union> \<Union> (block_ids ` set bs))"
    by (rule writes_bind [OF emit_block_writes Cons])
  then show ?case by simp
qed (simp add: writes_def)


text \<open>A function always has a text too, because its resolutions end.\<close>

lemma emit_function_total:
  assumes "ssa (instrs f)"
  shows "\<exists>txt. emit_function f func_name = Some txt"
proof -
  let ?is = "instrs f"
  have keep: "ec_instr_map c' = ec_instr_map c" if "register_names ?is (build_instr_map ?is) is c = Some c'" for "is" c c'
    using that
  proof (induction "is" arbitrary: c)
    case (Cons i "is")
    have "ec_instr_map d = ec_instr_map c" if "register_name ?is (build_instr_map ?is) i c = Some d" for d
      using that by (auto simp: register_name_def elim!: bind_SomeE split: if_splits option.splits)
    with Cons show ?case by (auto elim!: bind_SomeE)
  qed simp
  have nops: "ec_instr_map (register_nops is c) = ec_instr_map c" for "is" c
    unfolding register_nops_def by (induction "is" arbitrary: c) auto
  let ?c = "(out (signature_text func_name (function_regs f) @ ''entry:'' @ nl)
    (out (module_header ''dehex_devirt_v2'') new_emit_ctx))\<lparr>ec_instr_map := Some (?is, build_instr_map ?is)\<rparr>"
  from register_names_frame [OF assms, of ?is ?c] obtain c1 where
    c1: "register_names ?is (build_instr_map ?is) ?is ?c = Some c1" by blast
  have "resolvable (register_nops ?is c1)"
    using keep [OF c1] assms by (simp add: resolvable_def nops)
  with emit_instrs_writes [of "register_nops ?is c1" ?is] obtain c2 where
    "emit_instrs ?is (register_nops ?is c1) = Some c2" by (auto simp: writes_def)
  with c1 show ?thesis by (simp add: emit_function_def Let_def)
qed

text \<open>
  A graph always has a text; but a phi that takes a value from an instruction further down - the usual
  case on the back edge of a loop - finds no name for it yet, and its arm is the constant 0.
\<close>

lemma phi_arms_append:
  assumes "ec_instr_map ctx = None"
  shows "\<exists>as cs. phi_arms f ctx (ps @ qs) = Some (as @ cs) \<and> length as = length ps \<and> phi_arms f ctx qs = Some cs"
proof (induction ps)
  case Nil
  then show ?case using phi_arms_total [of ctx f qs] assms by auto
next
  case (Cons p ps)
  obtain b v where p: "p = (b, v)" by fastforce
  obtain s where s: "val_ref ctx v = Some s" using val_ref_total [of ctx v] assms by auto
  from Cons obtain as cs where
    ih: "phi_arms f ctx (ps @ qs) = Some (as @ cs)" "length as = length ps" "phi_arms f ctx qs = Some cs" by blast
  let ?a = "''[ '' @ s @ '', %'' @ label_or (''bb'' @ to_string (unat b)) f b @ '' ]''"
  show ?case by (intro exI [of _ "?a # as"] exI [of _ cs]) (simp add: p s ih)
qed

lemma emit_phis_append: "emit_phis f (ps @ qs) ctx = do { c \<leftarrow> emit_phis f ps ctx; emit_phis f qs c }"
proof (induction ps arbitrary: ctx)
  case (Cons p ps)
  then show ?case by (cases "emit_phi f p ctx") simp_all
qed simp

lemma emit_blocks_append: "emit_blocks f (bs @ cs) ctx = do { c \<leftarrow> emit_blocks f bs ctx; emit_blocks f cs c }"
proof (induction bs arbitrary: ctx)
  case (Cons b bs)
  then show ?case by (cases "emit_block f b ctx") simp_all
qed simp

lemma writesE:
  assumes "writes ctx r I" "ec_instr_map ctx = None"
  obtains c s where "r = Some c" "ec_instr_map c = None" "dom (ec_val_names c) = dom (ec_val_names ctx) \<union> I"
    "ec_os c = ec_os ctx @ s"
  using assms unfolding writes_def by (auto simp: assms(2))

lemma emit_phi_later:
  assumes none: "ec_instr_map ctx = None" and p: "phi_incoming p = us @ (k, InstrRef j) # vs"
    and j: "j \<notin> insert (phi_id p) (dom (ec_val_names ctx))"
  shows "\<exists>ctx' as cs. emit_phi f p ctx = Some ctx' \<and> length as = length us \<and> length cs = length vs
    \<and> ec_os ctx' = ec_os ctx @ ''  %'' @ instr_name (phi_id p) @ '' = phi i64 ''
        @ intersperse '', '' (as @ (''[ 0, %'' @ label_or (''bb'' @ to_string (unat k)) f k @ '' ]'') # cs) @ nl"
proof -
  let ?ctx = "set_name (phi_id p) (instr_name (phi_id p)) ctx"
  have none': "ec_instr_map ?ctx = None" using none by simp
  have zero: "val_ref ?ctx (InstrRef j) = Some ''0''" using j by (intro val_ref_later) (simp_all add: none)
  from phi_arms_append [OF none', of f us "(k, InstrRef j) # vs"] obtain as bs where
    as: "phi_arms f ?ctx (phi_incoming p) = Some (as @ bs)" "length as = length us"
      "phi_arms f ?ctx ((k, InstrRef j) # vs) = Some bs" unfolding p by blast
  from phi_arms_total [OF resolvable_None [OF none'], of f vs] obtain cs where cs: "phi_arms f ?ctx vs = Some cs" "length cs = length vs"
    by blast
  have bs: "bs = (''[ 0, %'' @ label_or (''bb'' @ to_string (unat k)) f k @ '' ]'') # cs"
    using as(3) by (simp add: zero cs)
  show ?thesis using as cs(2) by (auto simp: emit_phi_def Let_def bs)
qed


lemma emit_block_later:
  assumes none: "ec_instr_map ctx = None" and b: "bb_phis b = ps @ p # qs"
    and p: "phi_incoming p = us @ (k, InstrRef j) # vs"
    and j: "j \<notin> dom (ec_val_names ctx)" "j \<notin> phi_id ` set (ps @ [p])"
  shows "\<exists>ctx' pre as cs post. emit_block f b ctx = Some ctx' \<and> ec_instr_map ctx' = None
    \<and> length as = length us \<and> length cs = length vs
    \<and> ec_os ctx' = pre @ ''  %'' @ instr_name (phi_id p) @ '' = phi i64 ''
        @ intersperse '', '' (as @ (''[ 0, %'' @ label_or (''bb'' @ to_string (unat k)) f k @ '' ]'') # cs) @ nl @ post"
proof -
  let ?c0 = "out (bb_label b @ '':'' @ nl) ctx"
  have n0: "ec_instr_map ?c0 = None" using none by simp
  obtain c1 s1 where c1: "emit_phis f ps ?c0 = Some c1" "ec_instr_map c1 = None"
    "dom (ec_val_names c1) = dom (ec_val_names ?c0) \<union> phi_id ` set ps"
    by (rule writesE [OF emit_phis_writes n0])
  have "j \<notin> insert (phi_id p) (dom (ec_val_names c1))" using j by (auto simp: c1(3))
  from emit_phi_later [OF c1(2) p this] obtain c2 as cs where
    c2: "emit_phi f p c1 = Some c2" "length as = length us" "length cs = length vs"
      "ec_os c2 = ec_os c1 @ ''  %'' @ instr_name (phi_id p) @ '' = phi i64 ''
        @ intersperse '', '' (as @ (''[ 0, %'' @ label_or (''bb'' @ to_string (unat k)) f k @ '' ]'') # cs) @ nl"
    by blast
  obtain c2' s where "emit_phi f p c1 = Some c2'" "ec_instr_map c2' = None"
    by (rule writesE [OF emit_phi_writes c1(2)])
  with c2(1) have n2: "ec_instr_map c2 = None" by simp
  let ?rest = "\<lambda>c. do { c \<leftarrow> emit_phis f qs c; c \<leftarrow> emit_instrs (body_code b) c;
    emit_term f (bb_term b) (list_ex (\<lambda>i. op i = Op_RET) (body_code b)) c }"
  have "writes c2 (?rest c2) (phi_id ` set qs \<union> (ids (body_code b) \<union> {}))"
    by (intro writes_bind emit_phis_writes emit_instrs_writes emit_term_writes)
  then obtain c3 s3 where c3: "?rest c2 = Some c3" "ec_instr_map c3 = None" "ec_os c3 = ec_os c2 @ s3"
    by (rule writesE [OF _ n2])
  have "emit_block f b ctx = Some c3"
    using c1(1) c2(1) c3(1) by (simp add: emit_block_def b emit_phis_append)
  with c2 c3 show ?thesis
    by (intro exI [of _ c3] exI [of _ "ec_os c1"] exI [of _ as] exI [of _ cs] exI [of _ s3]) simp
qed

text \<open>
  Property C35. A phi loses the values of code further down. Writing the LLVM text of a graph always
  succeeds; but where a phi takes its value from an instruction or phi that is written after it - as
  the phi of a loop counter does on the back edge - that arm of the phi is the constant 0, because the
  emitter knows only the names of what it has already written and has no instruction map to resolve
  the rest.
\<close>

theorem emit_cfg_later_values:
  assumes f: "cfg_blocks f = bs @ b # ds" and b: "bb_phis b = ps @ p # qs"
    and p: "phi_incoming p = us @ (k, InstrRef j) # vs"
    and j: "j \<notin> \<Union> (block_ids ` set bs)" "j \<notin> phi_id ` set (ps @ [p])"
  shows "\<exists>pre as cs post. emit_cfg_function f func_name =
      Some (pre @ ''  %'' @ instr_name (phi_id p) @ '' = phi i64 ''
        @ intersperse '', '' (as @ (''[ 0, %'' @ label_or (''bb'' @ to_string (unat k)) f k @ '' ]'') # cs) @ nl @ post)
    \<and> length as = length us \<and> length cs = length vs"
proof -
  let ?c0 = "out (module_header ''dehex_devirt'' @ signature_text func_name (cfg_regs f)) new_emit_ctx"
  have n0: "ec_instr_map ?c0 = None" "dom (ec_val_names ?c0) = {}" by (simp_all add: new_emit_ctx_def)
  obtain c1 s1 where c1: "emit_blocks f bs ?c0 = Some c1" "ec_instr_map c1 = None"
    "dom (ec_val_names c1) = dom (ec_val_names ?c0) \<union> \<Union> (block_ids ` set bs)"
    by (rule writesE [OF emit_blocks_writes n0(1)])
  have "j \<notin> dom (ec_val_names c1)" unfolding c1(3) n0(2) using j(1) by simp
  from emit_block_later [OF c1(2) b p this j(2), of f] obtain c2 pre as cs post where
    c2: "emit_block f b c1 = Some c2" "ec_instr_map c2 = None" "length as = length us" "length cs = length vs"
      "ec_os c2 = pre @ ''  %'' @ instr_name (phi_id p) @ '' = phi i64 ''
        @ intersperse '', '' (as @ (''[ 0, %'' @ label_or (''bb'' @ to_string (unat k)) f k @ '' ]'') # cs) @ nl @ post"
    by blast
  obtain c3 s3 where c3: "emit_blocks f ds c2 = Some c3" "ec_os c3 = ec_os c2 @ s3"
    by (rule writesE [OF emit_blocks_writes c2(2)])
  have "emit_cfg_function f func_name = Some (ec_os c3 @ ''}'' @ nl)"
    using c1(1) c2(1) c3(1) by (simp add: emit_cfg_function_def Let_def f emit_blocks_append)
  with c2 c3 show ?thesis
    by (intro exI [of _ pre] exI [of _ as] exI [of _ cs] exI [of _ "post @ s3 @ ''}'' @ nl"]) simp
qed

text \<open>A loop that counts to ten: the phi of the counter has the arms 0 and 0.\<close>

definition counting_phi :: PhiNode where
  "counting_phi = \<lparr>phi_id = 0, phi_reg = ''rax'', phi_incoming = [(0, Const64 0), (1, InstrRef 1)]\<rparr>"

definition counting_loop :: CFGFunction where
  "counting_loop = \<lparr>cfg_name = ''f'', cfg_blocks =
     [\<lparr>bb_id = 0, bb_label = ''entry'', bb_phis = [], bb_instrs = [],
        bb_term = \<lparr>term_kind = Term_JMP, term_target = Some 1, term_fallthrough = None, term_condition = None\<rparr>\<rparr>,
      \<lparr>bb_id = 1, bb_label = ''loop'', bb_phis = [counting_phi],
        bb_instrs = [instr0 Op_ADD [InstrRef 0, Const64 1] 1, instr0 Op_SUB [InstrRef 1, Const64 10] 2],
        bb_term = \<lparr>term_kind = Term_CJMP, term_target = Some 1, term_fallthrough = Some 2, term_condition = Some (InstrRef 2)\<rparr>\<rparr>,
      \<lparr>bb_id = 2, bb_label = ''done'', bb_phis = [], bb_instrs = [instr0 Op_RET [InstrRef 1] 3],
        bb_term = \<lparr>term_kind = Term_RET, term_target = None, term_fallthrough = None, term_condition = None\<rparr>\<rparr>],
     cfg_edges = [], entry_block = 0, next_block_id = 3, next_instr_id = 4\<rparr>"

theorem emit_cfg_later_values_witness:
  "\<exists>pre first post. emit_cfg_function counting_loop ''g'' =
     Some (pre @ ''  %v0 = phi i64 '' @ first @ '', [ 0, %loop ]'' @ nl @ post)"
proof -
  let ?e = "cfg_blocks counting_loop ! 0" and ?b = "cfg_blocks counting_loop ! 1"
  have name: "instr_name 0 = ''v0''"
    by (simp add: instr_name_def) (subst show_base.simps, simp add: digit_char_def)
  have label: "label_or s counting_loop 1 = ''loop''" for s
    by (simp add: label_or_def block_by_id_def counting_loop_def)
  from emit_cfg_later_values [of counting_loop "[?e]" ?b "[cfg_blocks counting_loop ! 2]" "[]" counting_phi "[]"
      "[(0, Const64 0)]" 1 1 "[]" "''g''"]
  obtain pre as cs post where r: "emit_cfg_function counting_loop ''g'' =
      Some (pre @ ''  %'' @ instr_name (phi_id counting_phi) @ '' = phi i64 ''
        @ intersperse '', '' (as @ (''[ 0, %'' @ label_or (''bb'' @ to_string (unat (1 :: u32))) counting_loop 1 @ '' ]'') # cs)
        @ nl @ post)" "length as = 1" "cs = []"
    by (auto simp: counting_loop_def counting_phi_def block_ids_def body_code_def)
  then obtain a where "as = [a]" by (auto simp: length_Suc_conv)
  with r show ?thesis
    by (intro exI [of _ pre] exI [of _ a] exI [of _ post]) (simp add: name label counting_phi_def)
qed

end
