(* ===== verification/Pipeline.thy ===== *)
theory Pipeline
  imports VM_Correct PE_Loader IAT_Cracker LLVM_Graph
begin

section \<open>The pipeline (include/deobf/pipeline.h, src/eval/pipeline.cpp)\<close>

text \<open>
  From a file to a report: load the image, pick a target, run the guided evaluator, scan for hashes,
  write LLVM text. The file system is a parameter: a map from paths to contents. \<open>None\<close> as the result is
  undefined behaviour in a part that has some; the report of a run that never started has
  indeterminate members, and is an inner \<open>None\<close>. Time is measured but not used.
\<close>

type_synonym disk = "string \<Rightarrow> u8 list option"

subsection \<open>Data\<close>

record PipelineConfig =
  pc_image_path :: string
  pc_entry_va :: u64
  pc_target_name :: string
  pc_max_steps :: int
  pc_max_vm_insns :: int
  pc_scan_iat_hashes :: bool
  pc_emit_llvm :: bool
  pc_output_dir :: string
  pc_extra_safe_ranges :: "(u64 \<times> u64) list"

definition default_config :: PipelineConfig where
  "default_config =
     \<lparr>pc_image_path = '''', pc_entry_va = 0, pc_target_name = ''generic'', pc_max_steps = 50000,
      pc_max_vm_insns = 500, pc_scan_iat_hashes = True, pc_emit_llvm = False, pc_output_dir = ''.'',
      pc_extra_safe_ranges = []\<rparr>"

record PipelineResult =
  pr_success :: bool
  pr_error :: string
  pr_eval_report :: "EvalReport option"
  pr_handlers :: "HandlerRecord list"
  pr_vpc_trace :: "u64 option list"
  pr_iat_matches :: "HashMatch list"
  pr_markdown_report :: string
  pr_llvm_ir :: string

definition default_result :: PipelineResult where
  "default_result =
     \<lparr>pr_success = False, pr_error = '''', pr_eval_report = None, pr_handlers = [], pr_vpc_trace = [],
      pr_iat_matches = [], pr_markdown_report = '''', pr_llvm_ir = ''''\<rparr>"

subsection \<open>The image and the safe ranges\<close>

text \<open>A PE file is mapped; anything else is taken for a raw dump at the base that is given. The result is the
  image, its base and the headers.\<close>

definition load_file :: "u64 \<Rightarrow> u8 list \<Rightarrow> (u8 list \<times> u64 \<times> PEInfo option) option" where
  "load_file raw_base raw =
     do { pe_opt \<leftarrow> parse raw;
          case pe_opt of
            Some pe \<Rightarrow> do { img \<leftarrow> load_image raw pe; Some (img, image_base pe, pe_opt) }
          | None \<Rightarrow> Some (raw, raw_base, None) }"

text \<open>\<^verbatim>\<open>name.find(sub) != npos\<close>\<close>

definition name_has :: "string \<Rightarrow> string \<Rightarrow> bool" where
  "name_has part name = list_ex (\<lambda>k. take (length part) (drop k name) = part) [0..<Suc (length name)]"

definition vm_section :: "PESection \<Rightarrow> bool" where
  "vm_section s \<longleftrightarrow> name_has ''tvm'' (sec_name s) \<or> name_has ''ytr'' (sec_name s) \<or> name_has ''vmp'' (sec_name s)"

definition section_range :: "u64 \<Rightarrow> PESection \<Rightarrow> u64 \<times> u64" where
  "section_range base s = (let start = base + virtual_address s in (start, start + virtual_size s))"

definition bytecode_ranges :: "u64 \<Rightarrow> PEInfo option \<Rightarrow> (u64 \<times> u64) list" where
  "bytecode_ranges base pe_opt =
     (case pe_opt of
        Some pe \<Rightarrow> map (section_range base)
                     (filter (\<lambda>s. (is_executable s \<or> is_writable s) \<and> vm_section s) (sections pe))
      | None \<Rightarrow> [])"

definition pipeline_ranges :: "PipelineConfig \<Rightarrow> VMTarget \<Rightarrow> u64 \<Rightarrow> PEInfo option \<Rightarrow> (u64 \<times> u64) list" where
  "pipeline_ranges config target base pe_opt =
     target_safe_ranges target @ pc_extra_safe_ranges config @ bytecode_ranges base pe_opt"

definition add_ranges :: "(u64 \<times> u64) list \<Rightarrow> GuidedEvaluator \<Rightarrow> GuidedEvaluator" where
  "add_ranges ranges ev = foldl (\<lambda>ev (s, e). guided_safe_range s e ev) ev ranges"

subsection \<open>Hash scanning\<close>

definition default_cracker :: IATCracker where
  "default_cracker = precompute (load_default_kernel_apis new_cracker)"

definition scan_section :: "IATCracker \<Rightarrow> u8 list \<Rightarrow> u64 \<Rightarrow> PESection \<Rightarrow> HashMatch list" where
  "scan_section ck img base s =
     (if (sec_name s = ''.data'' \<or> sec_name s = ''.rdata'')
         \<and> unat (virtual_address s + virtual_size s) \<le> length img
      then scan ck (take (unat (virtual_size s)) (drop (unat (virtual_address s)) img)) (base + virtual_address s)
      else [])"

definition scan_image :: "PipelineConfig \<Rightarrow> u8 list \<Rightarrow> u64 \<Rightarrow> PEInfo option \<Rightarrow> HashMatch list" where
  "scan_image config img base pe_opt =
     (case pe_opt of
        Some pe \<Rightarrow> if pc_scan_iat_hashes config
                     then concat (map (scan_section default_cracker img base) (sections pe)) else []
      | None \<Rightarrow> [])"

subsection \<open>The report\<close>

definition config_items :: "PipelineConfig \<Rightarrow> os_item list" where
  "config_items c =
     [Str (''# DeHendrix Devirtualization Report'' @ nl @ nl), Str (''## Configuration'' @ nl @ nl),
      Str (''| Parameter | Value |'' @ nl @ ''|---|---|'' @ nl),
      Str (''| Image | `'' @ pc_image_path c @ ''` |'' @ nl),
      Str ''| Entry VA | `0x'', Hex, Num (unat (pc_entry_va c)), Str (''` |'' @ nl),
      Str (''| Target | '' @ pc_target_name c @ '' |'' @ nl),
      Str ''| Max steps | '', Dec, SNum (pc_max_steps c), Str ('' |'' @ nl),
      Str ''| Max VM insns | '', SNum (pc_max_vm_insns c), Str ('' |'' @ nl @ nl)]"

definition section_items :: "PESection \<Rightarrow> os_item list" where
  "section_items s =
     [Str (''| `'' @ sec_name s @ ''` | `0x''), Hex, Num (unat (virtual_address s)), Str ''` | `0x'', Num (unat (virtual_size s)),
      Str ''` | `0x'', Num (unat (characteristics s)), Str (''` |'' @ nl)]"

definition pe_items :: "PEInfo option \<Rightarrow> os_item list" where
  "pe_items pe_opt =
     (case pe_opt of
        None \<Rightarrow> []
      | Some pe \<Rightarrow>
          [Str (''## PE Info'' @ nl @ nl), Str (''| Field | Value |'' @ nl @ ''|---|---|'' @ nl),
           Str ''| ImageBase | `0x'', Hex, Num (unat (image_base pe)), Str (''` |'' @ nl),
           Str ''| EntryPoint RVA | `0x'', Num (unat (entry_point_rva pe)), Str (''` |'' @ nl),
           Str ''| Sections | '', Dec, Num (length (sections pe)), Str ('' |'' @ nl @ nl),
           Str (''### Sections'' @ nl @ nl),
           Str (''| Name | VirtAddr | VirtSize | Characteristics |'' @ nl @ ''|---|---|---|---|'' @ nl)]
          @ concat (map section_items (sections pe)) @ [Str nl])"

definition eval_items :: "EvalReport \<Rightarrow> os_item list" where
  "eval_items r =
     [Str (''## Evaluation Result'' @ nl @ nl), Str (''| Metric | Value |'' @ nl @ ''|---|---|'' @ nl),
      Str (''| Result | **'' @ eval_result_name (er_result r) @ ''** |'' @ nl),
      Str ''| Stop VA | `0x'', Hex, Num (unat (er_stop_va r)), Str (''` |'' @ nl),
      Str ''| Steps | '', Dec, SNum (er_steps r), Str ('' |'' @ nl),
      Str ''| VM instructions | '', SNum (er_vm_insn_count r), Str ('' |'' @ nl),
      Str ''| IR instructions | '', Num (er_ir_count r), Str ('' |'' @ nl @ nl)]"

text \<open>The report counts the handlers again, in a hash map of its own.\<close>

definition count_handlers :: "HandlerRecord list \<Rightarrow> (u64 \<times> int) list" where
  "count_handlers hs = foldl (\<lambda>freq h. AList.update (hr_handler_va h) (freq_of freq (hr_handler_va h) + 1) freq) [] hs"

definition handler_items :: "((u64 \<times> int) list \<Rightarrow> (u64 \<times> int) list) \<Rightarrow> HandlerRecord list \<Rightarrow> os_item list" where
  "handler_items hash_order hs =
     (if hs = [] then []
      else [Str ''## Handler Catalog ('', Num (length hs), Str ('' dispatches)'' @ nl @ nl),
            Str (''| Handler VA | Count |'' @ nl @ ''|---|---|'' @ nl)]
           @ concat (map (\<lambda>(va, cnt). [Str ''| `0x'', Hex, Num (unat va), Str ''` | '', Dec, SNum cnt, Str ('' |'' @ nl)])
               (by_count hash_order (count_handlers hs)))
           @ [Str nl])"

definition trace_items :: "u64 option list \<Rightarrow> os_item list" where
  "trace_items trc =
     (if trc = [] then []
      else [Str ''## VPC Trace ('', Num (length trc), Str ('' entries)'' @ nl @ nl), Str (''```'' @ nl)]
           @ vpc_trace_lines 50 trc ''''
           @ (if length trc > 50 then [Str ''... '', Num (length trc - 50), Str ('' more'' @ nl)] else [])
           @ [Str (''```'' @ nl @ nl)])"

definition match_items :: "HashMatch list \<Rightarrow> os_item list" where
  "match_items ms =
     (if ms = [] then []
      else [Str ''## IAT Hash Matches ('', Num (length ms), Str ('')'' @ nl @ nl),
            Str (''| Offset | Hash | API | Algorithm |'' @ nl @ ''|---|---|---|---|'' @ nl)]
           @ concat (map (\<lambda>m. [Str ''| `0x'', Hex, Num (unat (file_offset m)), Str ''` | `0x'', Num (unat (hash_value m)),
               Str (''` | `'' @ api_name m @ ''` | '' @ algorithm m @ '' |'' @ nl)]) ms)
           @ [Str nl])"

definition generate_report ::
  "((u64 \<times> int) list \<Rightarrow> (u64 \<times> int) list) \<Rightarrow> PipelineConfig \<Rightarrow> PipelineResult \<Rightarrow> PEInfo option \<Rightarrow> string option" where
  "generate_report hash_order config result pe_opt =
     do { rep \<leftarrow> pr_eval_report result;
          Some (os_str (config_items config @ pe_items pe_opt @ eval_items rep
                  @ handler_items hash_order (pr_handlers result) @ trace_items (pr_vpc_trace result)
                  @ match_items (pr_iat_matches result))) }"

subsection \<open>A run\<close>

definition pipeline_run ::
  "disassembler \<Rightarrow> ((u64 \<times> int) list \<Rightarrow> (u64 \<times> int) list) \<Rightarrow> disk \<Rightarrow> PipelineConfig \<Rightarrow> PipelineResult option" where
  "pipeline_run dis hash_order files config =
     (case files (pc_image_path config) of
        None \<Rightarrow> Some (default_result\<lparr>pr_error := ''Cannot open file: '' @ pc_image_path config\<rparr>)
      | Some raw \<Rightarrow>
          do { (img, base, pe_opt) \<leftarrow> load_file 0x140000000 raw;
               let target = create_target (pc_target_name config);
               let ev = add_ranges (pipeline_ranges config target base pe_opt) (new_evaluator img base (vpc_reg target));
               (rep, ev) \<leftarrow> guided_run dis (pc_entry_va config) (pc_max_steps config) (pc_max_vm_insns config) ev;
               let result = default_result\<lparr>pr_eval_report := Some rep, pr_handlers := ge_handlers ev,
                              pr_vpc_trace := ge_vpc_trace ev, pr_iat_matches := scan_image config img base pe_opt\<rparr>;
               ll \<leftarrow> (if pc_emit_llvm config then emit_function (ge_func ev) ''devirt'' else Some '''');
               let result = result\<lparr>pr_llvm_ir := ll\<rparr>;
               md \<leftarrow> generate_report hash_order config result pe_opt;
               Some (result\<lparr>pr_markdown_report := md, pr_success := True\<rparr>) })"

end
