(* ===== verification/Pipeline_Correct.thy ===== *)
theory Pipeline_Correct
  imports Pipeline
begin

section \<open>What a run of the pipeline gives\<close>

subsection \<open>Ranges and hashes\<close>

text \<open>The ranges are added as the virtual machine segments add theirs.\<close>

lemma add_ranges_fresh:
  obtains memory where "add_ranges ranges (new_evaluator img base reg) = fresh_evaluator img base reg [] memory"
    "safe_ranges memory = map (\<lambda>(s, e). \<lparr>range_start = s, range_end = e\<rparr>) ranges"
  using segment_evaluator_fresh [of img base reg "[]" ranges] by (auto simp: segment_evaluator_def add_ranges_def)

lemma default_cracker_apis: "api_names (load_default_kernel_apis new_cracker) = default_apis"
proof -
  have "foldl add_api ck ns = ck\<lparr>api_names := api_names ck @ ns\<rparr>" for ck ns
    by (induction ns arbitrary: ck) (simp_all add: add_api_def)
  then show ?thesis by (simp add: load_default_kernel_apis_def new_cracker_def)
qed

text \<open>A match that is worth reporting: the name of an API, its hash, and a place in a data section that
  holds the hash.\<close>

definition match_ok :: "u8 list \<Rightarrow> u64 \<Rightarrow> PEInfo \<Rightarrow> HashMatch \<Rightarrow> bool" where
  "match_ok img base pe m \<longleftrightarrow>
     api_name m \<in> set default_apis \<and> algorithm_hash (algorithm m) (api_name m) = Some (hash_value m)
     \<and> (\<exists>s \<in> set (sections pe). (sec_name s = ''.data'' \<or> sec_name s = ''.rdata'')
          \<and> (\<exists>k. 8 * k + 8 \<le> unat (virtual_size s) \<and> unat (virtual_address s) + 8 * k + 8 \<le> length img
               \<and> file_offset m = base + virtual_address s + of_nat (8 * k)
               \<and> of_le_bytes (take 8 (drop (unat (virtual_address s) + 8 * k) img)) = hash_value m))"

lemma scan_section_ok:
  assumes "m \<in> set (scan_section default_cracker img base s)" "s \<in> set (sections pe)" "fields32 s"
  shows "match_ok img base pe m"
proof -
  let ?va = "unat (virtual_address s)" and ?vs = "unat (virtual_size s)"
  let ?data = "take ?vs (drop ?va img)"
  from assms(1) have sec: "sec_name s = ''.data'' \<or> sec_name s = ''.rdata''" "unat (virtual_address s + virtual_size s) \<le> length img"
    and m: "m \<in> set (scan default_cracker ?data (base + virtual_address s))"
    by (auto simp: scan_section_def split: if_splits)
  have sum: "unat (virtual_address s + virtual_size s) = ?va + ?vs"
    using assms(3) unfolding fields32_def by (intro unat_plus_small) blast+
  then have fits: "?va + ?vs \<le> length img" using sec(2) by simp
  then have len: "length ?data = ?vs" by simp
  from m obtain k where k: "k < ?vs div 8" "hash_value m = word_at ?data k"
      "file_offset m = base + virtual_address s + of_nat (8 * k)"
      "map_of (rev (all_entries default_apis)) (word_at ?data k) = Some (api_name m, algorithm m)"
    unfolding default_cracker_def in_scan_iff default_cracker_apis len by blast
  from k(1) have room: "8 * k + 8 \<le> ?vs" by linarith
  have word: "of_le_bytes (take 8 (drop (?va + 8 * k) img)) = hash_value m"
    using room fits by (simp add: k(2) word_at_def drop_take min_def add.commute)
  from k(4) have "(hash_value m, api_name m, algorithm m) \<in> set (all_entries default_apis)"
    unfolding k(2) by (auto dest: map_of_SomeD)
  then have "api_name m \<in> set default_apis \<and> algorithm_hash (algorithm m) (api_name m) = Some (hash_value m)"
    using all_entries_hash by blast
  moreover have "?va + 8 * k + 8 \<le> length img" using room fits by simp
  ultimately show ?thesis
    using assms(2) sec(1) room word k(3) unfolding match_ok_def by blast
qed

text \<open>The sections of a parsed file have 32-bit fields.\<close>

lemma load_file_fields:
  assumes "load_file b raw = Some (img, base, Some pe)"
  shows "list_all fields32 (sections pe)"
proof -
  from assms have "parse raw = Some (Some pe)" by (auto simp: load_file_def elim!: bind_SomeE split: option.splits)
  from parse_Some [OF this] show ?thesis by (auto simp: section_loop_fields)
qed


subsection \<open>Numbers in the report\<close>

text \<open>Once a concrete counter has been printed, numbers are in hexadecimal.\<close>

definition seen_concrete :: "u64 option list \<Rightarrow> bool" where
  "seen_concrete vs \<longleftrightarrow> list_ex (\<lambda>v. v \<noteq> None) vs"

definition number_after :: "u64 option list \<Rightarrow> nat \<Rightarrow> string" where
  "number_after vs n = (if seen_concrete vs then to_hex n else to_string n)"

definition trace_line :: "u64 option list \<Rightarrow> nat \<Rightarrow> string" where
  "trace_line trc i = ''['' @ number_after (take i trc) i @ ''] ''
     @ (case trc ! i of Some x \<Rightarrow> ''0x'' @ to_hex (unat x) | None \<Rightarrow> ''symbolic'') @ nl"

lemma vpc_trace_lines_text:
  "n \<le> length trc \<Longrightarrow> render False (vpc_trace_lines n trc '''') = concat (map (trace_line trc) [0..<n])
     \<and> mode_after False (vpc_trace_lines n trc '''') = seen_concrete (take n trc)"
proof (induction n)
  case 0
  then show ?case by (simp add: vpc_trace_lines_def seen_concrete_def)
next
  case (Suc n)
  then have take: "take (Suc n) trc = take n trc @ [trc ! n]" and len: "length (take n trc) = n"
    by (simp_all add: take_Suc_conv_app_nth)
  have lines: "vpc_trace_lines (Suc n) trc '''' = vpc_trace_lines n trc ''''
      @ ([Str ''['', Num n, Str ''] ''] @ (case trc ! n of Some x \<Rightarrow> [Str ''0x'', Hex, Num (unat x)] | None \<Rightarrow> [Str ''symbolic''])
        @ [Str nl])"
    using Suc.prems by (simp add: vpc_trace_lines_def take enumerate_append_eq)
  from Suc have "render False (vpc_trace_lines n trc '''') = concat (map (trace_line trc) [0..<n])"
    "mode_after False (vpc_trace_lines n trc '''') = seen_concrete (take n trc)" by simp_all
  then show ?case
    by (cases "trc ! n") (simp_all add: lines take trace_line_def [of trc n] number_after_def seen_concrete_def)
qed

lemma vpc_trace_lines_min: "vpc_trace_lines limit trc indent = vpc_trace_lines (min limit (length trc)) trc indent"
  by (simp add: vpc_trace_lines_def min_def)

lemma section_mode: "mode_after h (concat (map section_items ss)) = (h \<or> ss \<noteq> [])"
  by (induction ss arbitrary: h) (auto simp: section_items_def)

lemma handler_mode: "mode_after False (handler_items ho hs) = False"
proof -
  have "mode_after False (concat (map (\<lambda>(va, cnt). [Str ''| `0x'', Hex, Num (unat va), Str ''` | '', Dec, SNum cnt, Str ('' |'' @ nl)]) xs))
      = False" for xs :: "(u64 \<times> int) list"
    by (induction xs) auto
  then show ?thesis by (simp add: handler_items_def)
qed

lemma before_trace_mode:
  "mode_after False (config_items config @ pe_items pe_opt @ eval_items rep @ handler_items ho hs) = False"
  by (simp add: eval_items_def handler_mode)


subsection \<open>Properties\<close>



text \<open>A run on a raw dump: the mini machine of the guided evaluator, at the base of raw dumps.\<close>

definition dump_config :: PipelineConfig where
  "dump_config = default_config\<lparr>pc_image_path := ''dump.bin'', pc_entry_va := 0x140000000, pc_emit_llvm := True\<rparr>"


text \<open>
  Property C37. The numbers of the report. The trace of program counters is written line by line, the
  first fifty of them; but the manipulator that prints a concrete counter in hexadecimal stays in force, so
  that every index after the first concrete counter, the number of entries left out, and the number of
  hash matches in the next heading are hexadecimal as well, without a mark that says so.
\<close>

theorem report_numbers:
  assumes "pr_eval_report r = Some rep" "pr_vpc_trace r = trc" "trc \<noteq> []"
  shows "\<exists>pre post. generate_report ho config r pe_opt = Some (pre
      @ ''## VPC Trace ('' @ to_string (length trc) @ '' entries)'' @ nl @ nl @ ''```'' @ nl
      @ concat (map (trace_line trc) [0..<min 50 (length trc)])
      @ (if length trc > 50 then ''... '' @ number_after (take 50 trc) (length trc - 50) @ '' more'' @ nl else '''')
      @ ''```'' @ nl @ nl
      @ (if pr_iat_matches r = [] then ''''
         else ''## IAT Hash Matches ('' @ number_after (take 50 trc) (length (pr_iat_matches r)) @ '')'' @ nl @ nl @ post))"
proof -
  let ?before = "config_items config @ pe_items pe_opt @ eval_items rep @ handler_items ho (pr_handlers r)"
  let ?n = "min 50 (length trc)"
  have lines: "render False (vpc_trace_lines 50 trc '''') = concat (map (trace_line trc) [0..<?n])"
    "mode_after False (vpc_trace_lines 50 trc '''') = seen_concrete (take 50 trc)"
    using vpc_trace_lines_text [of ?n trc] vpc_trace_lines_min [of 50 trc "''''"] by (simp_all add: min_def)
  obtain rest where match: "match_items (pr_iat_matches r) =
      [Str ''## IAT Hash Matches ('', Num (length (pr_iat_matches r)), Str ('')'' @ nl @ nl)] @ rest" if "pr_iat_matches r \<noteq> []"
    by (cases "pr_iat_matches r") (auto simp: match_items_def)
  let ?h = "seen_concrete (take 50 trc)"
  let ?pre = "render False ?before" and ?post = "render ?h rest"
  have "generate_report ho config r pe_opt = Some (render False ?before
      @ render False (trace_items trc) @ render (mode_after False (trace_items trc)) (match_items (pr_iat_matches r)))"
    using assms before_trace_mode [of config pe_opt rep ho "pr_handlers r"]
    by (simp add: generate_report_def) 
  then show ?thesis
    using assms(3) match
    by (intro exI [of _ ?pre] exI [of _ ?post])
      (auto simp: trace_items_def lines number_after_def match_items_def)
qed


text \<open>Seventeen equal counters and one match: the last index is printed as 10.\<close>

theorem report_numbers_witness:
  "\<forall>rep m. \<exists>pre mid post. generate_report id default_config
       (default_result\<lparr>pr_eval_report := Some rep, pr_vpc_trace := replicate 17 (Some 4096),
          pr_iat_matches := replicate 16 m\<rparr>) None
     = Some (pre @ ''## VPC Trace (17 entries)'' @ mid @ ''[10] 0x1000'' @ nl @ ''```'' @ nl @ nl
         @ ''## IAT Hash Matches (10)'' @ post)"
proof (intro allI)
  fix rep m
  let ?trc = "replicate 17 (Some 4096) :: u64 option list"
  let ?r = "default_result\<lparr>pr_eval_report := Some rep, pr_vpc_trace := ?trc, pr_iat_matches := replicate 16 m\<rparr>"
  have num: "to_string 17 = ''17''" "to_hex 16 = ''10''" "to_hex 4096 = ''1000''"
    by code_simp+
  have seen: "seen_concrete (take k ?trc)" if "0 < k" for k
    using that by (cases k) (simp_all add: seen_concrete_def numeral_eq_Suc)
  have "[0..<min 50 (length ?trc)] = [0..<16] @ [16]" by (simp add: upt_rec)
  then have lines: "concat (map (trace_line ?trc) [0..<min 50 (length ?trc)])
      = concat (map (trace_line ?trc) [0..<16]) @ ''[10] 0x1000'' @ nl"
    using seen [of 16] num by (simp add: trace_line_def number_after_def)
  have "number_after (take 50 ?trc) 16 = ''10''" using seen [of 50] num by (simp add: number_after_def)
  with report_numbers [of ?r rep ?trc id default_config None] lines num obtain pre post where
    "generate_report id default_config ?r None = Some (pre @ ''## VPC Trace ('' @ ''17'' @ '' entries)'' @ nl @ nl @ ''```'' @ nl
      @ (concat (map (trace_line ?trc) [0..<16]) @ ''[10] 0x1000'' @ nl) @ ''```'' @ nl @ nl
      @ ''## IAT Hash Matches ('' @ ''10'' @ '')'' @ nl @ nl @ post)"
    by auto
  then show "\<exists>pre mid post. generate_report id default_config ?r None
     = Some (pre @ ''## VPC Trace (17 entries)'' @ mid @ ''[10] 0x1000'' @ nl @ ''```'' @ nl @ nl
         @ ''## IAT Hash Matches (10)'' @ post)"
    by (intro exI [of _ pre] exI [of _ "nl @ nl @ ''```'' @ nl @ concat (map (trace_line ?trc) [0..<16])"]
        exI [of _ "nl @ nl @ post"]) simp
qed

end
