(* ===== verification/VM_Graph.thy ===== *)
theory VM_Graph
  imports VM_Correct
begin

section \<open>The graph of a virtual machine's program\<close>

text \<open>
  The properties of \<open>recover_vm_cfg\<close>: its loop always has a result, and what the graph it returns looks
  like. A machine with one handler that forks serves as the example.
\<close>

lemma vm_loop_defined:
  assumes "dis = Some decode" "no_risky_code decode" "bounded_decode decode" "mb < 2 ^ 31"
    "ranges_readable img base ranges" "vm_inv (readable img base) vs st"
  shows "\<exists>st'. vm_loop dis img base reg ranges mb st = Some st'"
  using assms
proof (induction dis img base reg ranges mb st arbitrary: vs rule: vm_loop.induct)
  case (1 dis img base reg ranges mb st)
  show ?case
  proof (cases "vm_running mb st")
    case False
    then show ?thesis by (subst vm_loop.simps) simp
  next
    case True
    then obtain w ws where wl: "vr_worklist st = w # ws" by (cases "vr_worklist st") (auto simp: vm_running_def)
    note room = running_room(1) [OF "1.prems"(6) True "1.prems"(4)]
    have places: "good_places (readable img base) ranges img base" using readable_places [OF "1.prems"(5)] .
    have w: "readable img base (vw_start_va w)" "vm_refs (vw_inject w) = {}"
      using "1.prems"(6) wl by (simp_all add: vm_inv_def work_ok_def)
    have "\<exists>st1. vm_step dis img base reg ranges st = Some st1"
    proof (cases "vw_key w \<in> vr_processed st")
      case True
      with wl show ?thesis by (simp add: vm_step_def)
    next
      case False
      obtain seg where seg: "run_vm_segment (Some decode) img base reg (vw_start_va w) (vw_inject w) ranges 50000 2000 = Some seg"
        using run_vm_segment_defined [OF "1.prems"(2,3) w] by blast
      have "segment_ok (readable img base) seg"
        using run_vm_segment_ok [OF seg "1.prems"(3) w(2)] places w(1) by (auto simp: segment_ok_def good_places_def)
      then obtain st1 us where "vm_assemble (vw_bid w) seg
          (fst (vm_successors reg (vw_bid w) seg (vm_enter w ws seg st)))
          (snd (vm_successors reg (vw_bid w) seg (vm_enter w ws seg st))) = Some st1" "vm_inv (readable img base) (vs @ us) st1"
        by (rule vm_run_step [OF "1.prems"(6) room wl False _ vm_enter_def, where reg = reg])
      with False wl seg "1.prems"(1) show ?thesis by (simp add: vm_step_enter)
    qed
    then obtain st1 where step: "vm_step dis img base reg ranges st = Some st1" ..
    obtain us where us: "vm_inv (readable img base) (vs @ us) st1"
      by (rule vm_step_inv [OF step [unfolded "1.prems"(1)] "1.prems"(3,6) True "1.prems"(4) places])
    from "1.IH" [OF _ step "1.prems"(1-5) us] True step show ?thesis by (subst vm_loop.simps) simp
  qed
qed

subsection \<open>Annotating the stack changes nothing else\<close>

lemma marked_refs: "refs (map (mark_stack r) is) = refs is" "ids (map (mark_stack r) is) = ids is"
  by (simp_all add: image_image ref_ids_def)

lemma marked_block_ok:
  assumes "vm_block_ok cfg b" "map bb_id bs = map bb_id (cfg_blocks cfg)"
  shows "vm_block_ok (cfg\<lparr>cfg_blocks := bs\<rparr>) (b\<lparr>bb_instrs := map (mark_stack r) (bb_instrs b)\<rparr>)"
proof -
  let ?b = "b\<lparr>bb_instrs := map (mark_stack r) (bb_instrs b)\<rparr>" and ?cfg = "cfg\<lparr>cfg_blocks := bs\<rparr>"
  have sel: "bb_instrs ?b = map (mark_stack r) (bb_instrs b)" "bb_phis ?b = bb_phis b" "bb_term ?b = bb_term b" "bb_id ?b = bb_id b"
    "cfg_blocks ?cfg = bs" "cfg_edges ?cfg = cfg_edges cfg"
    by simp_all
  show ?thesis
    using assms(1) unfolding vm_block_ok_def vm_term_ok_def successors_def sel marked_refs assms(2) .
qed

text \<open>A virtual machine whose only handler picks the next counter by the flags, and jumps to it.\<close>

definition fork_insns :: "cs_insn list" where
  "fork_insns =
     [\<lparr>mnemonic = ''mov'', insn_address = 0, insn_size = 7, x86_operands = [X86_OP_REG (R64 R11), X86_OP_IMM 0x10]\<rparr>,
      \<lparr>mnemonic = ''mov'', insn_address = 7, insn_size = 7, x86_operands = [X86_OP_REG (R64 RAX), X86_OP_IMM 0x20]\<rparr>,
      \<lparr>mnemonic = ''cmove'', insn_address = 14, insn_size = 4, x86_operands = [X86_OP_REG (R64 R11), X86_OP_REG (R64 RAX)]\<rparr>,
      \<lparr>mnemonic = ''jmp'', insn_address = 18, insn_size = 3, x86_operands = [X86_OP_REG (R64 R11)]\<rparr>]"

definition fork_decode :: "u8 list \<Rightarrow> u64 \<Rightarrow> cs_insn list" where
  "fork_decode code va = (case code of _ # _ # _ # _ # _ \<Rightarrow> fork_insns | _ \<Rightarrow> [])"

definition fork_image :: "u8 list" where
  "fork_image = replicate 256 0"

definition fork_evaluator :: "VMState \<Rightarrow> GuidedEvaluator" where
  "fork_evaluator rs = fresh_evaluator fork_image 0 ''r11'' rs empty_memory"

definition fork_function :: Function where
  "fork_function = \<lparr>fn_name = ''guided'', instrs =
     [\<lparr>op = Op_SELECT, operands = [SymReg ''rflags'', Const64 0x20, Const64 0x10], result_id = 0,
        annotations = [(''va'', ''0xe''), (''cmov'', ''cmove'')]\<rparr>,
      \<lparr>op = Op_JMP, operands = [InstrRef 0], result_id = 1, annotations = [(''va'', ''0x12'')]\<rparr>], next_id = 2\<rparr>"

lemma fork_start:
  "guided_init (fork_evaluator rs) 0 =
     \<lparr>gl_ev = (fork_evaluator rs)\<lparr>ge_memory := add_safe_range empty_memory (0x7FFFFFFFD000 - 0x200000) (0x7FFFFFFFD000 + 0x10000),
        ge_state := foldl (\<lambda>st (k, v). set_reg k v st) (set_reg ''rsp'' (Const64 0x7FFFFFFFD000) (ge_state (fork_evaluator rs))) rs\<rparr>,
      gl_steps = 0, gl_va = 0, gl_result = IN_PROGRESS, gl_final_vpc = None\<rparr>"
  by (simp add: guided_init_def guided_start_def guided_safe_range_def Let_def fork_evaluator_def fork_image_def)

definition fork_result :: "VMState \<Rightarrow> (EvalResult \<times> u64 \<times> Function) option" where
  "fork_result rs = map_option (\<lambda>s. (gl_result s, gl_va s, ge_func (gl_ev s)))
     (guided_loop fork_decode 50000 2000 (guided_init (fork_evaluator rs) 0))"

lemma fork_run_entry: "fork_result [] = Some (UNRESOLVED_TARGET, 0, fork_function)"
  unfolding fork_result_def fork_start by code_simp

lemma fork_run_taken: "fork_result [(''r11'', Const64 0x20)] = Some (UNRESOLVED_TARGET, 0, fork_function)"
  unfolding fork_result_def fork_start by code_simp

lemma fork_run_not_taken: "fork_result [(''r11'', Const64 0x10)] = Some (UNRESOLVED_TARGET, 0, fork_function)"
  unfolding fork_result_def fork_start by code_simp

lemma fork_converged: "map_option fst (run_to_convergence fork_function 32) = Some fork_function"
  by code_simp

lemma fork_targets:
  "extract_vjcc_targets fork_function (InstrRef 0) (SymReg ''rflags'') = Some (Some (0x20, 0x10))"
  by code_simp



definition fork_segment :: VmSegment where
  "fork_segment =
     \<lparr>vs_kind = Vm_Branch, vs_instrs = instrs fork_function, vs_dispatcher_va = 0,
      vs_condition = Some (SymReg ''rflags''), vs_vpc_taken = Some 0x20, vs_vpc_not_taken = Some 0x10\<rparr>"

lemma fork_segment_run:
  assumes "fork_result rs = Some (UNRESOLVED_TARGET, 0, fork_function)"
  shows "run_vm_segment (Some fork_decode) fork_image 0 ''r11'' 0 rs [] 50000 2000 = Some fork_segment"
proof -
  from assms obtain s where s: "guided_loop fork_decode 50000 2000 (guided_init (fork_evaluator rs) 0) = Some s"
    "gl_result s = UNRESOLVED_TARGET" "gl_va s = 0" "ge_func (gl_ev s) = fork_function"
    by (auto simp: fork_result_def)
  obtain cr where cr: "run_to_convergence fork_function 32 = Some (fork_function, cr)"
    using fork_converged by auto
  have ev: "segment_evaluator fork_image 0 ''r11'' rs [] = fork_evaluator rs"
    by (cases rs) (simp_all add: segment_evaluator_def fork_evaluator_def fresh_evaluator_def new_evaluator_def
        set_initial_regs_def empty_memory_def)
  have sel: "last_select (instrs fork_function) = Some (instrs fork_function ! 0)"
    "length (operands (instrs fork_function ! 0)) = 3" "ref (instrs fork_function ! 0) = InstrRef 0"
    "operands (instrs fork_function ! 0) ! 0 = SymReg ''rflags''"
    by (simp_all add: last_select_def fork_function_def ref_def)
  show ?thesis
    using s cr
    by (simp add: run_vm_segment_def ev guided_run_def guided_init_def Let_def with_func_def sel fork_targets fork_segment_def)
qed

text \<open>The loop on this machine, with the known outcome of its segments.\<close>

fun fork_replay :: "nat \<Rightarrow> vm_state \<Rightarrow> vm_state option" where
  "fork_replay 0 st = None"
| "fork_replay (Suc n) st =
     (if \<not> vm_running 64 st then Some st
      else case vr_worklist st of
        [] \<Rightarrow> None
      | w # ws \<Rightarrow>
          if vw_key w \<in> vr_processed st then fork_replay n (st\<lparr>vr_worklist := ws\<rparr>)
          else if vw_start_va w = 0 \<and> vw_inject w \<in> set [[], [(''r11'', Const64 0x20)], [(''r11'', Const64 0x10)]] then
            do { let st1 = vm_enter w ws fork_segment st;
                 st2 \<leftarrow> vm_assemble (vw_bid w) fork_segment (fst (vm_successors ''r11'' (vw_bid w) fork_segment st1))
                          (snd (vm_successors ''r11'' (vw_bid w) fork_segment st1));
                 fork_replay n st2 }
          else None)"

lemma fork_replay_loop:
  "fork_replay n st = Some st' \<Longrightarrow> vm_loop (Some fork_decode) fork_image 0 ''r11'' [] 64 st = Some st'"
proof (induction n arbitrary: st)
  case (Suc n)
  show ?case
  proof (cases "vm_running 64 st")
    case False
    with Suc.prems show ?thesis by (subst vm_loop.simps) simp
  next
    case True
    then obtain w ws where wl: "vr_worklist st = w # ws" by (cases "vr_worklist st") (auto simp: vm_running_def)
    show ?thesis
    proof (cases "vw_key w \<in> vr_processed st")
      case True
      with Suc wl \<open>vm_running 64 st\<close> show ?thesis by (subst vm_loop.simps) (simp add: vm_step_def)
    next
      case False
      with Suc.prems wl True have start: "vw_start_va w = 0"
        and inj: "vw_inject w \<in> set [[], [(''r11'', Const64 0x20)], [(''r11'', Const64 0x10)]]"
        by (auto split: if_splits)
      from inj have "fork_result (vw_inject w) = Some (UNRESOLVED_TARGET, 0, fork_function)"
        using fork_run_entry fork_run_taken fork_run_not_taken by auto
      note step = vm_step_enter [OF wl False fork_segment_run [OF this, folded start], unfolded start]
      from Suc.prems wl True False start inj obtain st2 where
        "vm_assemble (vw_bid w) fork_segment (fst (vm_successors ''r11'' (vw_bid w) fork_segment (vm_enter w ws fork_segment st)))
          (snd (vm_successors ''r11'' (vw_bid w) fork_segment (vm_enter w ws fork_segment st))) = Some st2" "fork_replay n st2 = Some st'"
        by (auto simp: Let_def elim!: bind_SomeE simp del: set_simps)
      with step True Suc.IH [of st2] show ?thesis by (subst vm_loop.simps) simp
    qed
  qed
qed simp

lemma fork_loop:
  "map_option (\<lambda>st.
      (map (\<lambda>b. (bb_id b, map result_id (bb_instrs b), vm_targets (bb_term b))) (cfg_blocks (vr_cfg st)),
       map (\<lambda>e. (edge_from e, edge_to e, is_backedge e)) (cfg_edges (vr_cfg st)),
       list_all (\<lambda>b. list_all (\<lambda>i. op i = Op_SELECT \<or> op i = Op_JMP) (bb_instrs b)) (cfg_blocks (vr_cfg st))))
    (fork_replay 6 (vm_initial 0))
   = Some ([(0, [1, 2], [1, 2]), (1, [3, 4], [1, 2]), (2, [5, 6], [1, 2])],
       [(0, 1, False), (0, 2, False), (1, 1, True), (1, 2, False), (2, 1, True), (2, 2, True)], True)"
  by code_simp


lemma fork_code: "no_risky_code fork_decode" "bounded_decode fork_decode"
  by (auto simp: no_risky_code_def bounded_decode_def fork_decode_def fork_insns_def risky_mnemonic_def split: list.split)

lemma fork_graph:
  obtains st cfg where "vm_loop (Some fork_decode) fork_image 0 ''r11'' [] 64 (vm_initial 0) = Some st"
    "recover_vm_cfg (Some fork_decode) fork_image 0 ''r11'' 0 [] 64 = Some cfg"
    "\<forall>i \<in> set (block_code (vr_cfg st)). \<not> overflows 0x7FFFFFFFD000 i"
    "map (\<lambda>b. (bb_id b, map result_id (bb_instrs b), vm_targets (bb_term b))) (cfg_blocks cfg)
       = [(0, [1, 2], [1, 2]), (1, [3, 4], [1, 2]), (2, [5, 6], [1, 2])]"
    "map (\<lambda>e. (edge_from e, edge_to e, is_backedge e)) (cfg_edges cfg)
       = [(0, 1, False), (0, 2, False), (1, 1, True), (1, 2, False), (2, 1, True), (2, 2, True)]"
proof -
  from fork_loop obtain st where st: "fork_replay 6 (vm_initial 0) = Some st"
    "map (\<lambda>b. (bb_id b, map result_id (bb_instrs b), vm_targets (bb_term b))) (cfg_blocks (vr_cfg st))
       = [(0, [1, 2], [1, 2]), (1, [3, 4], [1, 2]), (2, [5, 6], [1, 2])]"
    "map (\<lambda>e. (edge_from e, edge_to e, is_backedge e)) (cfg_edges (vr_cfg st))
       = [(0, 1, False), (0, 2, False), (1, 1, True), (1, 2, False), (2, 1, True), (2, 2, True)]"
    and ops: "list_all (\<lambda>b. list_all (\<lambda>i. op i = Op_SELECT \<or> op i = Op_JMP) (bb_instrs b)) (cfg_blocks (vr_cfg st))"
    by (cases "fork_replay 6 (vm_initial 0)") simp_all
  note loop = fork_replay_loop [OF st(1)]
  have quiet: "\<not> overflows r i" if "i \<in> set (block_code (vr_cfg st))" for r i
  proof -
    from that ops have "op i = Op_SELECT \<or> op i = Op_JMP" by (auto simp: block_code_def list_all_iff)
    then show ?thesis by (auto simp: overflows_def const_access_def)
  qed
  then have "\<not> list_ex (\<lambda>b. list_ex (overflows 0x7FFFFFFFD000) (bb_instrs b)) (cfg_blocks (vr_cfg st))"
    by (auto simp: block_code_def list_ex_iff)
  then have cfg: "recover_vm_cfg (Some fork_decode) fork_image 0 ''r11'' 0 [] 64 =
      Some ((vr_cfg st)\<lparr>cfg_blocks := map (\<lambda>b. b\<lparr>bb_instrs := map (mark_stack 0x7FFFFFFFD000) (bb_instrs b)\<rparr>) (cfg_blocks (vr_cfg st))\<rparr>)"
    using loop by (simp add: recover_vm_cfg_def stack_rewrite_blocks_eq)
  have "map (\<lambda>b. (bb_id b, map result_id (bb_instrs b), vm_targets (bb_term b)))
      (map (\<lambda>b. b\<lparr>bb_instrs := map (mark_stack 0x7FFFFFFFD000) (bb_instrs b)\<rparr>) (cfg_blocks (vr_cfg st)))
      = map (\<lambda>b. (bb_id b, map result_id (bb_instrs b), vm_targets (bb_term b))) (cfg_blocks (vr_cfg st))"
    by simp
  from that [OF loop cfg] this st(2,3) quiet show thesis by simp
qed

subsection \<open>Properties\<close>

text \<open>Property C34. Renumbering is correct: appended to the code of a block under fresh names, the code of a
  segment does what it does on its own - the same trace, the same memory, and every value under its new
  name, also that of an operand such as the condition of the branch.\<close>

theorem append_renumbered_correct:
  assumes "append_renumbered dst src nid = (is, idmap, nid')"
    and "ssa src" "refs src \<subseteq> ids src" "length src \<le> 2 ^ 32"
  shows "let t = exec E (exec E s dst) src; t' = exec E s is
    in trace t' = trace t \<and> mem t' = mem t \<and> nid' = nid + of_nat (length src)
       \<and> map result_id is = map result_id dst @ map (\<lambda>k. nid + of_nat k) [0..<length src]
       \<and> (\<forall>v. val_refs v \<subseteq> ids src \<longrightarrow> eval_val E t' (remap_value idmap v) = eval_val E t v)"
proof -
  have d: "distinct (map result_id src)" using ssa_distinct [OF assms(2)] .
  from assms(1) have r: "idmap = fst (assign_ids src Map.empty nid)" "is = dst @ map (renumber idmap) src"
    "nid' = nid + of_nat (length src)"
    using assign_ids_nid [of src Map.empty nid] by (auto simp: append_renumbered_def split: prod.splits)
  have ren: "renames idmap ({} \<union> ids src)" using assign_ids_renames [OF d assms(4)] by (simp add: r(1))
  have "renamed_state idmap {} (exec E s dst) (exec E s dst)" by (simp add: renamed_state_def)
  from renumber_exec [OF assms(2) _ _ ren this] assms(3)
  have sim: "renamed_state idmap (ids src) (exec E (exec E s dst) src) (exec E s is)"
    by (simp add: r(2) exec_def)
  have "ids src \<subseteq> dom idmap" using ren by (simp add: renames_def)
  with renamed_value [OF sim] sim renumbered_ids [OF d, of Map.empty nid] show ?thesis
    by (simp add: Let_def renamed_state_def r)
qed

theorem append_renumbered_correct_witness:
  "\<forall>E s. let (is, idmap, nid') = append_renumbered [] (instrs fork_function) 7
   in map result_id is = [7, 8] \<and> remap_value idmap (InstrRef 0) = InstrRef 7 \<and> nid' = 9
      \<and> trace (exec E s is) = trace (exec E s (instrs fork_function))"
proof (intro allI)
  fix E s
  obtain "is" idmap nid' where a: "append_renumbered [] (instrs fork_function) 7 = (is, idmap, nid')"
    by (cases "append_renumbered [] (instrs fork_function) 7") auto
  have "ssa (instrs fork_function)" "refs (instrs fork_function) \<subseteq> ids (instrs fork_function)"
      "length (instrs fork_function) = 2"
    by code_simp+
  moreover have "remap_value (fst (assign_ids (instrs fork_function) Map.empty 7)) (InstrRef 0) = InstrRef 7"
    by (simp add: fork_function_def remap_value_def)
  ultimately show "let (is, idmap, nid') = append_renumbered [] (instrs fork_function) 7
   in map result_id is = [7, 8] \<and> remap_value idmap (InstrRef 0) = InstrRef 7 \<and> nid' = 9
      \<and> trace (exec E s is) = trace (exec E s (instrs fork_function))"
    using append_renumbered_correct [OF a, of E s] a
    by (auto simp: Let_def append_renumbered_def upt_rec split: prod.splits)
qed

text \<open>Property C9. The recovered graph is well formed: the instructions of all blocks have different ids,
  numbered from 1 without a gap, the operands of a block name instructions of the block, blocks
  are numbered in order and have no phi nodes, every block ends in a branch on a condition
  computed in the block, in a return, or is marked unreachable, and the edges of the graph are exactly the
  targets of its branches, both of them blocks of the graph.\<close>

theorem recover_vm_cfg_well_formed:
  assumes "recover_vm_cfg (Some decode) img base reg entry ranges max_blks = Some cfg"
    and "bounded_decode decode" "max_blks \<le> 8544"
  shows "distinct (map result_id (block_code cfg))
    \<and> ids (block_code cfg) = (\<lambda>k. 1 + of_nat k) ` {..<length (block_code cfg)}
    \<and> numbered cfg \<and> int (length (cfg_blocks cfg)) \<le> max 1 (max_blks + 2) \<and> list_all (vm_block_ok cfg) (cfg_blocks cfg)
    \<and> set (map edge_from (cfg_edges cfg)) \<subseteq> set (map bb_id (cfg_blocks cfg))"
proof -
  from assms(1) obtain st bs where st: "vm_loop (Some decode) img base reg ranges max_blks (vm_initial entry) = Some st"
    and bs: "stack_rewrite_blocks (cfg_blocks (vr_cfg st)) = Some bs" "cfg = (vr_cfg st)\<lparr>cfg_blocks := bs\<rparr>"
    by (auto simp: recover_vm_cfg_def elim!: bind_SomeE)
  have "good_places (\<lambda>_. True) ranges img base" by (simp add: good_places_def)
  from vm_loop_inv [OF st refl assms(2) _ this vm_initial_inv] assms(3) obtain vs where
    inv: "vm_inv (\<lambda>_. True) vs st" and len: "int (length vs) \<le> max 1 (max_blks + 2)" by auto
  let ?m = "mark_stack 0x7FFFFFFFD000"
  from bs(1) have bs': "bs = map (\<lambda>b. b\<lparr>bb_instrs := map ?m (bb_instrs b)\<rparr>) (cfg_blocks (vr_cfg st))"
    by (simp add: stack_rewrite_blocks_eq split: if_splits)
  have code: "block_code cfg = map ?m (block_code (vr_cfg st))"
    by (simp add: block_code_def bs(2) bs' map_concat o_def)
  let ?n = "length (block_code cfg)"
  have rid: "map result_id (block_code cfg) = map result_id (block_code (vr_cfg st))" by (simp add: code o_def)
  have mset: "mset (map result_id (block_code cfg)) = mset (map (\<lambda>k. 1 + of_nat k) [0..<?n])"
  proof -
    have "handed_out (block_code (vr_cfg st))" "?n = length (block_code (vr_cfg st))" using inv by (simp_all add: vm_inv_def code)
    then show ?thesis unfolding rid by (simp only: handed_out_def)
  qed
  have "card (vr_processed st) \<le> length vs" using inv card_mono card_length le_trans
    by (metis (no_types, lifting) List.finite_set vm_inv_def)
  then have "?n \<le> 502560 * length vs" using inv by (simp add: vm_inv_def code)
  moreover have "length vs \<le> 8546" using len assms(3) by (simp add: max_def split: if_splits)
  ultimately have n: "?n < 2 ^ 32" by simp
  have "inj_on (\<lambda>k. 1 + of_nat k :: u32) {..<?n}" using n of_nat_u32_inject by (intro inj_onI) auto
  then have "distinct (map (\<lambda>k. 1 + of_nat k :: u32) [0..<?n])" by (simp add: distinct_map lessThan_atLeast0)
  then have dist: "distinct (map result_id (block_code cfg))" using mset by (metis mset_eq_imp_distinct_iff)
  have set: "ids (block_code cfg) = (\<lambda>k. 1 + of_nat k) ` {..<?n}"
    using mset_eq_setD [OF mset] by (simp add: lessThan_atLeast0)
  have bid: "map bb_id bs = map bb_id (cfg_blocks (vr_cfg st))" by (simp add: bs')
  have table: "numbered (vr_cfg st)" "length vs = length (cfg_blocks (vr_cfg st))" using inv by (simp_all add: vm_inv_def vm_table_def)
  have "\<forall>b \<in> set (cfg_blocks (vr_cfg st)). vm_block_ok (vr_cfg st) b"
    using inv table(2) by (auto simp: vm_inv_def in_set_conv_nth)
  then have ok: "list_all (vm_block_ok cfg) (cfg_blocks cfg)"
    using marked_block_ok [OF _ bid] by (auto simp: bs(2) list_all_iff bs')
  have "numbered cfg" using table(1) bid by (simp add: numbered_def bs(2) bs')
  moreover have "set (map edge_from (cfg_edges cfg)) \<subseteq> set (map bb_id (cfg_blocks cfg))"
    using inv bid by (simp add: vm_inv_def bs(2) bs')
  ultimately show ?thesis using dist set ok len table(2) by (simp add: bs(2) bs')
qed

theorem recover_vm_cfg_well_formed_witness:
  "\<exists>cfg. recover_vm_cfg (Some fork_decode) fork_image 0 ''r11'' 0 [] 64 = Some cfg
     \<and> length (cfg_blocks cfg) = 3 \<and> length (cfg_edges cfg) = 6 \<and> list_all (vm_block_ok cfg) (cfg_blocks cfg)
     \<and> distinct (map result_id (block_code cfg)) \<and> map (\<lambda>b. vm_targets (bb_term b)) (cfg_blocks cfg) = [[1, 2], [1, 2], [1, 2]]"
proof -
  obtain cfg where c: "recover_vm_cfg (Some fork_decode) fork_image 0 ''r11'' 0 [] 64 = Some cfg"
    "map (\<lambda>b. (bb_id b, map result_id (bb_instrs b), vm_targets (bb_term b))) (cfg_blocks cfg)
       = [(0, [1, 2], [1, 2]), (1, [3, 4], [1, 2]), (2, [5, 6], [1, 2])]"
    "map (\<lambda>e. (edge_from e, edge_to e, is_backedge e)) (cfg_edges cfg)
       = [(0, 1, False), (0, 2, False), (1, 1, True), (1, 2, False), (2, 1, True), (2, 2, True)]"
    by (rule fork_graph)
  from arg_cong [OF c(2), of length] arg_cong [OF c(2), of "map (\<lambda>(a, b, t). t)"] arg_cong [OF c(3), of length]
  have "length (cfg_blocks cfg) = 3" "length (cfg_edges cfg) = 6"
    "map (\<lambda>b. vm_targets (bb_term b)) (cfg_blocks cfg) = [[1, 2], [1, 2], [1, 2]]" by (simp_all add: o_def)
  with recover_vm_cfg_well_formed [OF c(1) fork_code(2)] c(1) show ?thesis by simp
qed



end
