(* ===== verification/Command_Line.thy ===== *)
theory Command_Line
  imports Pipeline VM_Graph
begin

section \<open>The command line tool (src/tools/cli_main.cpp)\<close>

text \<open>
  Three commands: \<^verbatim>\<open>devirt\<close> runs the guided evaluator, \<^verbatim>\<open>cfg\<close> recovers a native graph and
  \<^verbatim>\<open>vm-cfg\<close> the graph of a virtual machine. What a call does is a value: the exit code, the two output
  streams and the file it writes. Standard output is one stream, whose number format outlives the functions that
  write to it. \<open>None\<close> is undefined behaviour: of \<^verbatim>\<open>atoi\<close> outside \<^verbatim>\<open>int\<close>, or of the library.
\<close>

subsection \<open>Numbers\<close>

definition c_space :: "char \<Rightarrow> bool" where
  "c_space c \<longleftrightarrow> c \<in> {CHR '' '', CHR 0x09, CHR 0x0A, CHR 0x0B, CHR 0x0C, CHR 0x0D}"

text \<open>The value of a digit of a base up to 16; other characters are no digit.\<close>

definition c_digit :: "char \<Rightarrow> nat" where
  "c_digit c =
     (let k = of_char c :: nat
      in if 48 \<le> k \<and> k \<le> 57 then k - 48
         else if 97 \<le> k \<and> k \<le> 102 then k - 87
         else if 65 \<le> k \<and> k \<le> 70 then k - 55 else 99)"

definition c_number :: "nat \<Rightarrow> string \<Rightarrow> nat" where
  "c_number b s = foldl (\<lambda>a c. a * b + c_digit c) 0 (takeWhile (\<lambda>c. c_digit c < b) s)"

definition c_sign :: "string \<Rightarrow> bool \<times> string" where
  "c_sign s =
     (case dropWhile c_space s of
        [] \<Rightarrow> (False, [])
      | c # cs \<Rightarrow> if c = CHR ''-'' then (True, cs) else if c = CHR ''+'' then (False, cs) else (False, c # cs))"

text \<open>\<^verbatim>\<open>strtoull(s, nullptr, 0)\<close>: the prefix decides the base, and a number that is too large gives the largest.\<close>

definition c_base :: "string \<Rightarrow> nat \<times> string" where
  "c_base s =
     (case s of
        z # x # d # cs \<Rightarrow>
          if z = CHR ''0'' \<and> (x = CHR ''x'' \<or> x = CHR ''X'') \<and> c_digit d < 16 then (16, d # cs)
          else if z = CHR ''0'' then (8, s) else (10, s)
      | z # cs \<Rightarrow> if z = CHR ''0'' then (8, s) else (10, s)
      | [] \<Rightarrow> (10, s))"

definition parse_hex :: "string \<Rightarrow> u64" where
  "parse_hex s =
     (let (neg, s) = c_sign s; (b, s) = c_base s; v = c_number b s
      in if 2 ^ 64 \<le> v then - 1 else if neg then - of_nat v else of_nat v)"

definition atoi :: "string \<Rightarrow> int option" where
  "atoi s =
     (let (neg, s) = c_sign s; v = int (c_number 10 s); v = (if neg then - v else v)
      in if - (2 ^ 31) \<le> v \<and> v < 2 ^ 31 then Some v else None)"

subsection \<open>Options\<close>

record CliOptions =
  co_image_path :: string
  co_base :: u64
  co_entry :: u64
  co_vpc_reg :: string
  co_max_steps :: int
  co_max_vm_insns :: int
  co_verbose :: bool
  co_emit_llvm :: bool
  co_llvm_output :: string
  co_safe_ranges :: "(u64 \<times> u64) list"

definition default_options :: CliOptions where
  "default_options =
     \<lparr>co_image_path = '''', co_base = 0x140000000, co_entry = 0, co_vpc_reg = ''r11'', co_max_steps = 50000,
      co_max_vm_insns = 500, co_verbose = False, co_emit_llvm = False, co_llvm_output = '''', co_safe_ranges = []\<rparr>"

definition takes_value :: "string \<Rightarrow> bool" where
  "takes_value arg \<longleftrightarrow> arg \<in> {''--safe'', ''--image'', ''--base'', ''--entry'', ''--vpc-reg'', ''--max-steps'',
     ''--max-vm-insns'', ''--llvm-out''}"

definition add_safe :: "string \<Rightarrow> CliOptions \<Rightarrow> CliOptions" where
  "add_safe s opts =
     (let before = takeWhile (\<lambda>c. c \<noteq> CHR '':'') s; rest = drop (length before) s
      in if rest = [] then opts
         else (let a = parse_hex before; b = parse_hex (tl rest)
               in if a < b then opts\<lparr>co_safe_ranges := co_safe_ranges opts @ [(a, b)]\<rparr> else opts))"

definition set_option :: "string \<Rightarrow> string \<Rightarrow> CliOptions \<Rightarrow> CliOptions option" where
  "set_option arg v opts =
     (if arg = ''--safe'' then Some (add_safe v opts)
      else if arg = ''--image'' then Some (opts\<lparr>co_image_path := v\<rparr>)
      else if arg = ''--base'' then Some (opts\<lparr>co_base := parse_hex v\<rparr>)
      else if arg = ''--entry'' then Some (opts\<lparr>co_entry := parse_hex v\<rparr>)
      else if arg = ''--vpc-reg'' then Some (opts\<lparr>co_vpc_reg := v\<rparr>)
      else if arg = ''--max-steps'' then do { n \<leftarrow> atoi v; Some (opts\<lparr>co_max_steps := n\<rparr>) }
      else if arg = ''--max-vm-insns'' then do { n \<leftarrow> atoi v; Some (opts\<lparr>co_max_vm_insns := n\<rparr>) }
      else Some (opts\<lparr>co_llvm_output := v\<rparr>))"

definition set_flag :: "string \<Rightarrow> CliOptions \<Rightarrow> CliOptions" where
  "set_flag arg opts =
     (if arg = ''--verbose'' then opts\<lparr>co_verbose := True\<rparr>
      else if arg = ''--emit-llvm'' then opts\<lparr>co_emit_llvm := True\<rparr> else opts)"

fun parse_args :: "string list \<Rightarrow> CliOptions \<Rightarrow> CliOptions option" where
  "parse_args [] opts = Some opts"
| "parse_args [arg] opts = Some (set_flag arg opts)"
| "parse_args (arg # v # args) opts =
     (if takes_value arg then do { opts \<leftarrow> set_option arg v opts; parse_args args opts }
      else parse_args (v # args) (set_flag arg opts))"

subsection \<open>Output\<close>

record CliResult =
  cr_exit :: int
  cr_out :: "os_item list"
  cr_err :: string
  cr_file :: "(string \<times> string) option"

definition cli_ok :: "os_item list \<Rightarrow> (string \<times> string) option \<Rightarrow> CliResult" where
  "cli_ok items file = \<lparr>cr_exit = 0, cr_out = items, cr_err = '''', cr_file = file\<rparr>"

definition cli_fail :: "os_item list \<Rightarrow> string \<Rightarrow> CliResult" where
  "cli_fail items msg = \<lparr>cr_exit = 1, cr_out = items, cr_err = msg, cr_file = None\<rparr>"

definition usage :: "string \<Rightarrow> string" where
  "usage prog = ''Usage:'' @ nl
     @ ''  '' @ prog @ '' devirt --image <dump.bin> --base 0x140000000 --entry 0x14132C758 [--vpc-reg r11] ''
     @ ''[--max-steps 50000] [--max-vm-insns 500] [--verbose]'' @ nl
     @ ''  '' @ prog @ '' cfg --image <file> [--base 0x140000000] [--entry 0x...] [--emit-llvm] [--llvm-out out.ll]'' @ nl
     @ ''      (native multi-block CFG recovery; --entry defaults to PE entry)'' @ nl
     @ ''  '' @ prog @ '' vm-cfg --image <file> --entry 0x... [--base 0x140000000] ''
     @ ''[--vpc-reg r11] [--safe 0xSTART:0xEND ...] [--emit-llvm] [--llvm-out out.ll]'' @ nl
     @ ''      (multi-path VM devirtualization; --safe marks VM bytecode regions)'' @ nl"

definition banner :: "CliOptions \<Rightarrow> u8 list \<Rightarrow> u8 list \<Rightarrow> u64 \<Rightarrow> PEInfo option \<Rightarrow> os_item list" where
  "banner opts raw img base pe_opt =
     Str (''=== dehex Guided Symbolic Evaluation (C++) ==='' @ nl)
     # (case pe_opt of
          Some pe \<Rightarrow>
            [Str (''Image: '' @ co_image_path opts @ '' (PE, ''), Num (length raw), Str '' raw, '', Num (length img),
             Str ('' mapped)'' @ nl), Str ''ImageBase: 0x'', Hex, Num (unat base), Str ''  Sections: '', Dec,
             Num (length (sections pe)), Str nl]
        | None \<Rightarrow> [Str (''Image: '' @ co_image_path opts @ '' (raw dump, ''), Num (length raw), Str ('' bytes)'' @ nl)])"

text \<open>The LLVM text goes to the console or to a file.\<close>

definition with_llvm :: "CliOptions \<Rightarrow> string option \<Rightarrow> os_item list \<Rightarrow> CliResult option" where
  "with_llvm opts text items =
     (if co_emit_llvm opts then
        do { ll \<leftarrow> text;
             Some (if co_llvm_output opts = '''' then cli_ok (items @ [Str (nl @ ''=== LLVM IR ==='' @ nl), Str ll]) None
                   else cli_ok (items @ [Str (nl @ ''LLVM IR written to: '' @ co_llvm_output opts @ nl)])
                          (Some (co_llvm_output opts, ll))) }
      else Some (cli_ok items None))"

definition graph_items :: "CFGFunction \<Rightarrow> os_item list" where
  "graph_items cfg =
     [Str ''Recovered '', Dec, Num (length (cfg_blocks cfg)), Str '' blocks, '', Num (length (cfg_edges cfg)), Str '' edges, '',
      Num (total_instrs cfg), Str ('' IR instrs'' @ nl @ nl), Str (cfg_dump cfg @ nl)]"

subsection \<open>The three commands\<close>

definition vm_sections :: "PEInfo option \<Rightarrow> PESection list" where
  "vm_sections pe_opt = (case pe_opt of Some pe \<Rightarrow> filter vm_section (sections pe) | None \<Rightarrow> [])"

definition cfg_entry :: "CliOptions \<Rightarrow> u64 \<Rightarrow> PEInfo option \<Rightarrow> u64" where
  "cfg_entry opts base pe_opt =
     (case pe_opt of
        Some pe \<Rightarrow> if co_entry opts = 0 then base + entry_point_rva pe else co_entry opts
      | None \<Rightarrow> co_entry opts)"

definition cli_cfg ::
  "disassembler \<Rightarrow> CliOptions \<Rightarrow> u8 list \<Rightarrow> u64 \<Rightarrow> PEInfo option \<Rightarrow> os_item list \<Rightarrow> CliResult option" where
  "cli_cfg dis opts img base pe_opt items =
     (let entry = cfg_entry opts base pe_opt;
          items = items @ [Str (''Mode: native multi-block CFG recovery'' @ nl), Str ''Entry: 0x'', Hex, Num (unat entry), Str (nl @ nl)]
      in if entry = 0 then Some (cli_fail items (''Error: no entry (provide --entry or a PE with an entry point)'' @ nl))
         else
           do { cfg \<leftarrow> recover_native_cfg dis img base entry 4096;
                with_llvm opts (emit_cfg_function cfg ''devirt_cfg'') (items @ graph_items cfg) })"

definition cli_vm_cfg ::
  "disassembler \<Rightarrow> CliOptions \<Rightarrow> u8 list \<Rightarrow> u64 \<Rightarrow> PEInfo option \<Rightarrow> os_item list \<Rightarrow> CliResult option" where
  "cli_vm_cfg dis opts img base pe_opt items =
     (let ranges = co_safe_ranges opts @ map (section_range base) (vm_sections pe_opt);
          items = items @ [Str (''Mode: multi-path VM devirtualization'' @ nl), Str ''Entry: 0x'', Hex, Num (unat (co_entry opts)),
                    Str (''  VPC reg: '' @ co_vpc_reg opts @ nl), Str ''Safe ranges: '', Dec, Num (length ranges), Str (nl @ nl)]
      in do { cfg \<leftarrow> recover_vm_cfg dis img base (co_vpc_reg opts) (co_entry opts) ranges 4096;
              with_llvm opts (emit_cfg_function cfg ''devirt_vm'') (items @ graph_items cfg) })"

definition range_items :: "u64 \<Rightarrow> PESection \<Rightarrow> os_item list" where
  "range_items base s =
     (let (start, stop) = section_range base s
      in [Str ''Safe range: [0x'', Hex, Num (unat start), Str '', 0x'', Num (unat stop), Str ('') ('' @ sec_name s @ '')'' @ nl)])"

definition run_items :: "EvalReport \<Rightarrow> os_item list" where
  "run_items r =
     [Str (''Result: '' @ eval_result_name (er_result r) @ nl), Str ''Stop VA: 0x'', Hex, Num (unat (er_stop_va r)), Str nl,
      Str ''Steps: '', Dec, SNum (er_steps r), Str nl, Str ''VM insns dispatched: '', SNum (er_vm_insn_count r), Str nl,
      Str ''IR instructions: '', Num (er_ir_count r), Str nl]
     @ (case er_dispatcher_va r of Some d \<Rightarrow> [Str ''Dispatcher VA: 0x'', Hex, Num (unat d), Str nl] | None \<Rightarrow> [])
     @ (case er_final_vpc r of Some v \<Rightarrow> [Str ''Final VPC: 0x'', Hex, Num (unat v), Str nl] | None \<Rightarrow> [])"

definition jump_items :: "u64 list \<Rightarrow> os_item list" where
  "jump_items trc =
     [Str (nl @ ''JMP trace (''), Num (length trc), Str ('' blocks):'' @ nl)]
     @ concat (map (\<lambda>(i, va). [Str ''  ['', Num i, Str ''] 0x'', Hex, Num (unat va), Str nl]) (List.enumerate 0 (take 50 trc)))
     @ (if length trc > 50 then [Str ''  ... '', Num (length trc - 50), Str ('' more'' @ nl)] else [])"

definition final_items :: "Function \<Rightarrow> os_item list" where
  "final_items f =
     (let n = length (instrs f)
      in [Str (nl @ ''Final IR (''), Num n, Str ('' instructions):'' @ nl)]
         @ map (\<lambda>i. Str (''  '' @ instruction_to_string i @ nl)) (drop (if n > 30 then n - 30 else 0) (instrs f)))"

definition cli_devirt ::
  "disassembler \<Rightarrow> ((u64 \<times> int) list \<Rightarrow> (u64 \<times> int) list) \<Rightarrow> CliOptions \<Rightarrow> u8 list \<Rightarrow> u64 \<Rightarrow> PEInfo option
     \<Rightarrow> os_item list \<Rightarrow> CliResult option" where
  "cli_devirt dis hash_order opts img base pe_opt items =
     (let items = items @ [Str ''Entry: 0x'', Hex, Num (unat (co_entry opts)), Str (''  VPC reg: '' @ co_vpc_reg opts @ nl),
                    Str ''Limits: '', Dec, SNum (co_max_steps opts), Str '' steps, '', SNum (co_max_vm_insns opts),
                    Str ('' VM insns'' @ nl @ nl)]
                  @ (if co_verbose opts then concat (map (range_items base) (vm_sections pe_opt)) else []);
          ev = add_ranges (map (section_range base) (vm_sections pe_opt)) (new_evaluator img base (co_vpc_reg opts))
      in do { (rep, ev) \<leftarrow> guided_run dis (co_entry opts) (co_max_steps opts) (co_max_vm_insns opts) ev;
              let items = items @ run_items rep @ jump_items (ge_jmp_trace ev)
                    @ (if ge_handlers ev \<noteq> [] then [Str (nl @ dump_handler_catalog hash_order ev)] else [])
                    @ (if ge_vpc_trace ev \<noteq> [] then [Str (nl @ dump_vpc_trace ev)] else [])
                    @ (if co_verbose opts then final_items (ge_func ev) else []);
              with_llvm opts (emit_function (ge_func ev) ''devirt'') items })"

subsection \<open>main\<close>

definition cli_run ::
  "disassembler \<Rightarrow> ((u64 \<times> int) list \<Rightarrow> (u64 \<times> int) list) \<Rightarrow> disk \<Rightarrow> string \<Rightarrow> string \<Rightarrow> CliOptions \<Rightarrow> CliResult option" where
  "cli_run dis hash_order files prog cmd opts =
     (if co_image_path opts = '''' then Some (cli_fail [] (''Error: --image is required'' @ nl @ usage prog))
      else if (cmd = ''devirt'' \<or> cmd = ''vm-cfg'') \<and> co_entry opts = 0 then
        Some (cli_fail [] (''Error: --entry is required for '' @ cmd @ nl @ usage prog))
      else (case files (co_image_path opts) of
              None \<Rightarrow> Some (cli_fail [] (''Error: cannot open '' @ co_image_path opts @ nl))
            | Some raw \<Rightarrow>
                do { (img, base, pe_opt) \<leftarrow> load_file (co_base opts) raw;
                     let items = banner opts raw img base pe_opt;
                     if cmd = ''cfg'' then cli_cfg dis opts img base pe_opt items
                     else if cmd = ''vm-cfg'' then cli_vm_cfg dis opts img base pe_opt items
                     else cli_devirt dis hash_order opts img base pe_opt items }))"

definition cli_main ::
  "disassembler \<Rightarrow> ((u64 \<times> int) list \<Rightarrow> (u64 \<times> int) list) \<Rightarrow> disk \<Rightarrow> string list \<Rightarrow> CliResult option" where
  "cli_main dis hash_order files argv =
     (case argv of
        [] \<Rightarrow> None
      | [prog] \<Rightarrow> Some (cli_fail [] (usage prog))
      | prog # cmd # args \<Rightarrow>
          if cmd \<noteq> ''devirt'' \<and> cmd \<noteq> ''cfg'' \<and> cmd \<noteq> ''vm-cfg'' then
            Some (cli_fail [] (''Unknown command: '' @ cmd @ nl @ usage prog))
          else do { opts \<leftarrow> parse_args args default_options; cli_run dis hash_order files prog cmd opts })"

end
