(* ===== verification/Command_Line_Correct.thy ===== *)
theory Command_Line_Correct
  imports Command_Line
begin

section \<open>What a call of the command line tool does\<close>

subsection \<open>Numbers that are printed can be read\<close>

lemma c_digit_char: "d < 16 \<Longrightarrow> c_digit (digit_char d) = d"
proof -
  assume "d < 16"
  then have "d \<in> set [0..<16]" by simp
  moreover have "\<forall>d \<in> set [0..<16]. c_digit (digit_char d) = d" by code_simp
  ultimately show ?thesis by blast
qed

lemma show_base_digits:
  assumes "2 \<le> b" "b \<le> 16"
  shows "list_all (\<lambda>c. c_digit c < b) (show_base b n) \<and> foldl (\<lambda>a c. a * b + c_digit c) 0 (show_base b n) = n"
  using assms
proof (induction b n rule: show_base.induct)
  case (1 b n)
  show ?case
  proof (cases "n < b")
    case True
    with "1.prems" show ?thesis by (simp add: show_base.simps [of b n] c_digit_char)
  next
    case False
    with "1.prems" have ih: "list_all (\<lambda>c. c_digit c < b) (show_base b (n div b))"
      "foldl (\<lambda>a c. a * b + c_digit c) 0 (show_base b (n div b)) = n div b" using "1.IH" by auto
    have "n mod b < b" using "1.prems" by (intro mod_less_divisor) simp
    moreover from this "1.prems" have "n mod b < 16" by linarith
    moreover have "show_base b n = show_base b (n div b) @ [digit_char (n mod b)]"
      using False "1.prems" by (simp add: show_base.simps [of b n])
    ultimately show ?thesis using ih by (simp add: c_digit_char)
  qed
qed

lemma c_number_show: "2 \<le> b \<Longrightarrow> b \<le> 16 \<Longrightarrow> c_number b (show_base b n) = n"
  using show_base_digits [of b n] by (simp add: c_number_def list_all_iff takeWhile_eq_all_conv [THEN iffD2])

lemma digit_no_sign: "c_digit c < 16 \<Longrightarrow> \<not> c_space c \<and> c \<noteq> CHR ''-'' \<and> c \<noteq> CHR ''+'' \<and> c \<noteq> CHR '':''"
  by (auto simp: c_space_def c_digit_def Let_def)

lemma show_base_Cons:
  assumes "2 \<le> b" "b \<le> 16"
  obtains c cs where "show_base b n = c # cs" "c_digit c < b"
  using show_base_digits [OF assms, of n] show_base_nonempty [of b n] by (cases "show_base b n") auto

definition hex_arg :: "u64 \<Rightarrow> string" where
  "hex_arg w = ''0x'' @ to_hex (unat w)"

lemma parse_hex_arg: "parse_hex (hex_arg w) = w"
proof -
  obtain c cs where c: "to_hex (unat w) = c # cs" "c_digit c < 16" by (rule show_base_Cons [of 16 "unat w"]) auto
  have "c_sign (hex_arg w) = (False, hex_arg w)" by (simp add: c_sign_def hex_arg_def c_space_def)
  moreover have "c_base (hex_arg w) = (16, to_hex (unat w))" by (simp add: c_base_def hex_arg_def c)
  moreover have "c_number 16 (to_hex (unat w)) = unat w" by (rule c_number_show) simp_all
  moreover have "unat w < 2 ^ 64" by (rule order_less_le_trans [OF unsigned_less]) simp
  ultimately show ?thesis by (simp add: parse_hex_def)
qed

lemma atoi_int_to_string:
  assumes "- (2 ^ 31) \<le> k" "k < 2 ^ 31"
  shows "atoi (int_to_string k) = Some k"
proof -
  have num: "c_number 10 (to_string m) = m" for m by (rule c_number_show) simp_all
  have sign: "c_sign (to_string m) = (False, to_string m)" for m
  proof -
    obtain c cs where c: "to_string m = c # cs" "c_digit c < 10" by (rule show_base_Cons [of 10 m]) auto
    with digit_no_sign [of c] show ?thesis by (simp add: c_sign_def)
  qed
  show ?thesis
  proof (cases "k < 0")
    case True
    then have "c_sign (int_to_string k) = (True, to_string (nat (- k)))"
      by (simp add: int_to_string_def c_sign_def c_space_def)
    with True assms show ?thesis by (simp add: atoi_def num)
  next
    case False
    with assms show ?thesis by (simp add: atoi_def int_to_string_def sign num)
  qed
qed

subsection \<open>Options\<close>

definition range_args :: "u64 \<times> u64 \<Rightarrow> string list" where
  "range_args r = [''--safe'', hex_arg (fst r) @ '':'' @ hex_arg (snd r)]"

definition option_args :: "CliOptions \<Rightarrow> string list" where
  "option_args opts =
     [''--image'', co_image_path opts, ''--base'', hex_arg (co_base opts), ''--entry'', hex_arg (co_entry opts),
      ''--vpc-reg'', co_vpc_reg opts, ''--max-steps'', int_to_string (co_max_steps opts),
      ''--max-vm-insns'', int_to_string (co_max_vm_insns opts)]
     @ (if co_verbose opts then [''--verbose''] else []) @ (if co_emit_llvm opts then [''--emit-llvm''] else [])
     @ [''--llvm-out'', co_llvm_output opts] @ concat (map range_args (co_safe_ranges opts))"

definition options_ok :: "CliOptions \<Rightarrow> bool" where
  "options_ok opts \<longleftrightarrow> - (2 ^ 31) \<le> co_max_steps opts \<and> co_max_steps opts < 2 ^ 31
     \<and> - (2 ^ 31) \<le> co_max_vm_insns opts \<and> co_max_vm_insns opts < 2 ^ 31
     \<and> list_all (\<lambda>(a, b). a < b) (co_safe_ranges opts)"

lemma hex_arg_no_colon: "CHR '':'' \<notin> set (hex_arg w)"
proof
  assume "CHR '':'' \<in> set (hex_arg w)"
  then have "CHR '':'' \<in> set (to_hex (unat w))" by (simp add: hex_arg_def)
  then show False using show_base_digits [of 16 "unat w"] digit_no_sign by (fastforce simp: list_all_iff)
qed

lemma add_safe_range_args:
  assumes "a < b"
  shows "add_safe (hex_arg a @ CHR '':'' # hex_arg b) opts = opts\<lparr>co_safe_ranges := co_safe_ranges opts @ [(a, b)]\<rparr>"
proof -
  have "\<forall>x \<in> set (hex_arg a). x \<noteq> CHR '':''" using hex_arg_no_colon [of a] by metis
  then have "takeWhile (\<lambda>c. c \<noteq> CHR '':'') (hex_arg a @ CHR '':'' # hex_arg b) = hex_arg a"
    by (simp add: takeWhile_append2)
  with assms show ?thesis by (simp add: add_safe_def Let_def parse_hex_arg)
qed

lemma parse_range_args:
  "list_all (\<lambda>(a, b). a < b) rs \<Longrightarrow>
     parse_args (concat (map range_args rs)) opts = Some (opts\<lparr>co_safe_ranges := co_safe_ranges opts @ rs\<rparr>)"
proof (induction rs arbitrary: opts)
  case (Cons r rs)
  obtain a b where r: "r = (a, b)" by (cases r)
  with Cons show ?case
    by (simp add: range_args_def takes_value_def set_option_def add_safe_range_args)
qed simp


subsection \<open>Outcomes\<close>

lemma with_llvm_exit:
  "with_llvm opts text items = Some r \<Longrightarrow> cr_exit r = 0 \<and> cr_err r = '''' \<and> (\<exists>more. cr_out r = items @ more)
     \<and> (case cr_file r of None \<Rightarrow> \<not> co_emit_llvm opts \<or> co_llvm_output opts = ''''
        | Some (path, ll) \<Rightarrow> co_emit_llvm opts \<and> co_llvm_output opts \<noteq> '''' \<and> path = co_llvm_output opts \<and> text = Some ll)"
  by (auto simp: with_llvm_def cli_ok_def elim!: bind_SomeE split: if_splits)

lemma with_llvm_defined: "(co_emit_llvm opts \<Longrightarrow> \<exists>ll. text = Some ll) \<Longrightarrow> \<exists>r. with_llvm opts text items = Some r"
  by (auto simp: with_llvm_def)

text \<open>A call that is accepted: a known command, readable options, an image, and an entry.\<close>

definition accepted :: "disk \<Rightarrow> string list \<Rightarrow> bool" where
  "accepted files argv \<longleftrightarrow>
     (\<exists>prog cmd args opts raw img base pe_opt. argv = prog # cmd # args \<and> cmd \<in> {''devirt'', ''cfg'', ''vm-cfg''}
        \<and> parse_args args default_options = Some opts \<and> co_image_path opts \<noteq> '''' \<and> files (co_image_path opts) = Some raw
        \<and> load_file (co_base opts) raw = Some (img, base, pe_opt)
        \<and> (if cmd = ''cfg'' then cfg_entry opts base pe_opt \<noteq> 0 else co_entry opts \<noteq> 0))"

definition exit_ok :: "CliResult \<Rightarrow> bool \<Rightarrow> bool" where
  "exit_ok r good \<longleftrightarrow> cr_exit r = (if good then 0 else 1) \<and> (cr_err r = '''' \<longleftrightarrow> good) \<and> (cr_file r \<noteq> None \<longrightarrow> good)"

lemma cli_fail_exit: "msg \<noteq> '''' \<Longrightarrow> exit_ok (cli_fail items msg) False"
  by (simp add: exit_ok_def cli_fail_def)

lemma with_llvm_exit_ok: "with_llvm opts text items = Some r \<Longrightarrow> exit_ok r True"
  using with_llvm_exit [of opts _ items r] by (simp add: exit_ok_def)

lemma usage_nonempty [simp]: "usage prog \<noteq> ''''"
  by (simp add: usage_def)

lemma cli_commands_exit:
  "cli_cfg dis opts img base pe_opt items = Some r \<Longrightarrow> exit_ok r (cfg_entry opts base pe_opt \<noteq> 0)"
  "cli_vm_cfg dis opts img base pe_opt items = Some r \<Longrightarrow> exit_ok r True"
  "cli_devirt dis ho opts img base pe_opt items = Some r \<Longrightarrow> exit_ok r True"
  by (auto simp: cli_cfg_def cli_vm_cfg_def cli_devirt_def Let_def cli_fail_exit split: if_splits elim!: bind_SomeE
      intro: with_llvm_exit_ok)

lemma cli_run_exit:
  assumes "cli_run dis ho files prog cmd opts = Some r" "cmd \<in> {''devirt'', ''cfg'', ''vm-cfg''}"
  shows "exit_ok r (co_image_path opts \<noteq> '''' \<and> (\<exists>raw img base pe_opt. files (co_image_path opts) = Some raw
     \<and> load_file (co_base opts) raw = Some (img, base, pe_opt)
     \<and> (if cmd = ''cfg'' then cfg_entry opts base pe_opt \<noteq> 0 else co_entry opts \<noteq> 0)))"
proof -
  consider (no_image) "co_image_path opts = ''''"
    | (no_entry) "co_image_path opts \<noteq> ''''" "cmd \<noteq> ''cfg''" "co_entry opts = 0"
    | (no_file) "co_image_path opts \<noteq> ''''" "cmd = ''cfg'' \<or> co_entry opts \<noteq> 0" "files (co_image_path opts) = None"
    | (found) raw where "co_image_path opts \<noteq> ''''" "cmd = ''cfg'' \<or> co_entry opts \<noteq> 0" "files (co_image_path opts) = Some raw"
    by fastforce
  then show ?thesis
  proof cases
    case no_image
    with assms(1) show ?thesis by (simp add: cli_run_def) (use cli_fail_exit in force)
  next
    case no_entry
    with assms have "r = cli_fail [] (''Error: --entry is required for '' @ cmd @ nl @ usage prog)"
      by (auto simp: cli_run_def)
    then show ?thesis using no_entry by (simp add: cli_fail_exit)
  next
    case no_file
    with assms have "r = cli_fail [] (''Error: cannot open '' @ co_image_path opts @ nl)"
      by (auto simp: cli_run_def)
    then show ?thesis using no_file by (simp add: cli_fail_exit)
  next
    case (found raw)
    with assms obtain img base pe_opt where load: "load_file (co_base opts) raw = Some (img, base, pe_opt)"
      by (auto simp: cli_run_def elim!: bind_SomeE)
    let ?items = "banner opts raw img base pe_opt"
    have run: "(if cmd = ''cfg'' then cli_cfg dis opts img base pe_opt ?items
        else if cmd = ''vm-cfg'' then cli_vm_cfg dis opts img base pe_opt ?items
        else cli_devirt dis ho opts img base pe_opt ?items) = Some r"
      using assms found by (auto simp: cli_run_def load)
    then show ?thesis
      using found load cli_commands_exit(1) [of dis opts img base pe_opt ?items r]
        cli_commands_exit(2) [of dis opts img base pe_opt ?items r] cli_commands_exit(3) [of dis ho opts img base pe_opt ?items r]
      by (auto split: if_splits)
  qed
qed


lemma emit_cfg_total: "\<exists>txt. emit_cfg_function f func_name = Some txt"
proof -
  let ?c = "out (module_header ''dehex_devirt'' @ signature_text func_name (cfg_regs f)) new_emit_ctx"
  have "ec_instr_map ?c = None" by (simp add: new_emit_ctx_def)
  then obtain c s where "emit_blocks f (cfg_blocks f) ?c = Some c" by (rule writesE [OF emit_blocks_writes])
  then show ?thesis by (simp add: emit_cfg_function_def Let_def)
qed

lemma cli_devirt_defined:
  assumes "no_risky_code decode" "bounded_decode decode" "readable img base (co_entry opts)"
    and "10 * nat (co_max_steps opts + 256) \<le> 2 ^ 32"
  shows "\<exists>r. cli_devirt (Some decode) ho opts img base pe_opt items = Some r"
proof -
  obtain memory where ev0: "add_ranges (map (section_range base) (vm_sections pe_opt)) (new_evaluator img base (co_vpc_reg opts))
      = fresh_evaluator img base (co_vpc_reg opts) [] memory"
    using segment_evaluator_fresh [of img base "co_vpc_reg opts" "[]" "map (section_range base) (vm_sections pe_opt)"]
    by (auto simp: segment_evaluator_def add_ranges_def)
  have none: "vm_refs [] = {}" by (simp add: vm_refs_def)
  from guided_run_total [OF assms none] obtain rep ev where
    "guided_run (Some decode) (co_entry opts) (co_max_steps opts) (co_max_vm_insns opts)
        (fresh_evaluator img base (co_vpc_reg opts) [] memory) = Some (rep, ev)" "ssa (instrs (ge_func ev))" by blast
  with emit_function_total [of "ge_func ev" "''devirt''"] show ?thesis
    by (simp add: cli_devirt_def Let_def ev0 with_llvm_defined)
qed

lemma cli_graph_defined:
  "recover_native_cfg dis img base (cfg_entry opts base pe_opt) 4096 = Some cfg \<Longrightarrow> cfg_entry opts base pe_opt \<noteq> 0
     \<Longrightarrow> \<exists>tx its r. with_llvm opts tx its = Some r \<and> cli_cfg dis opts img base pe_opt items = Some r"
  "recover_vm_cfg dis img base (co_vpc_reg opts) (co_entry opts)
       (co_safe_ranges opts @ map (section_range base) (vm_sections pe_opt)) 4096 = Some cfg
     \<Longrightarrow> \<exists>tx its r. with_llvm opts tx its = Some r \<and> cli_vm_cfg dis opts img base pe_opt items = Some r"
proof -
  have ex: "\<exists>r. with_llvm opts (emit_cfg_function cfg n) its = Some r" for n its
    using emit_cfg_total by (blast intro: with_llvm_defined)
  assume "recover_native_cfg dis img base (cfg_entry opts base pe_opt) 4096 = Some cfg" "cfg_entry opts base pe_opt \<noteq> 0"
  then show "\<exists>tx its r. with_llvm opts tx its = Some r \<and> cli_cfg dis opts img base pe_opt items = Some r"
    by (simp add: cli_cfg_def Let_def) (use ex in blast)
next
  have ex: "\<exists>r. with_llvm opts (emit_cfg_function cfg n) its = Some r" for n its
    using emit_cfg_total by (blast intro: with_llvm_defined)
  assume "recover_vm_cfg dis img base (co_vpc_reg opts) (co_entry opts)
       (co_safe_ranges opts @ map (section_range base) (vm_sections pe_opt)) 4096 = Some cfg"
  then show "\<exists>tx its r. with_llvm opts tx its = Some r \<and> cli_vm_cfg dis opts img base pe_opt items = Some r"
    by (simp add: cli_vm_cfg_def Let_def) (use ex in blast)
qed

subsection \<open>Properties\<close>

text \<open>
  Property C38. Command lines are read back: the arguments that spell out a set of options - numbers in
  hexadecimal and decimal, flags, and a range for each \<^verbatim>\<open>--safe\<close> - are parsed to these options,
  for all 64-bit addresses, all \<^verbatim>\<open>int\<close> limits, negative ones too, arbitrary strings, also such that look like
  options, and any list of non-empty ranges.
\<close>

theorem parse_args_roundtrip:
  assumes "options_ok opts"
  shows "parse_args (option_args opts) default_options = Some opts"
proof -
  have rs: "list_all (\<lambda>(a, b). a < b) (co_safe_ranges opts)"
    and n: "atoi (int_to_string (co_max_steps opts)) = Some (co_max_steps opts)"
      "atoi (int_to_string (co_max_vm_insns opts)) = Some (co_max_vm_insns opts)"
    using assms by (simp_all add: options_ok_def atoi_int_to_string)
  show ?thesis
    by (simp add: option_args_def takes_value_def set_option_def set_flag_def parse_hex_arg n parse_range_args [OF rs]
        default_options_def)
qed

theorem parse_args_roundtrip_witness:
  "parse_args [''--image'', ''--emit-llvm'', ''--base'', ''0x0'', ''--entry'', ''0xff'', ''--vpc-reg'', ''rbp'',
      ''--max-steps'', ''-1'', ''--max-vm-insns'', ''0'', ''--verbose'', ''--llvm-out'', '''', ''--safe'', ''0x10:0x1f'']
      default_options
   = Some \<lparr>co_image_path = ''--emit-llvm'', co_base = 0, co_entry = 255, co_vpc_reg = ''rbp'', co_max_steps = -1,
       co_max_vm_insns = 0, co_verbose = True, co_emit_llvm = False, co_llvm_output = '''', co_safe_ranges = [(16, 31)]\<rparr>"
proof -
  let ?o = "\<lparr>co_image_path = ''--emit-llvm'', co_base = 0, co_entry = 255, co_vpc_reg = ''rbp'', co_max_steps = -1,
       co_max_vm_insns = 0, co_verbose = True, co_emit_llvm = False, co_llvm_output = '''', co_safe_ranges = [(16, 31)]\<rparr>"
  have "options_ok ?o" by (simp add: options_ok_def)
  moreover have "option_args ?o = [''--image'', ''--emit-llvm'', ''--base'', ''0x0'', ''--entry'', ''0xff'', ''--vpc-reg'', ''rbp'',
      ''--max-steps'', ''-1'', ''--max-vm-insns'', ''0'', ''--verbose'', ''--llvm-out'', '''', ''--safe'', ''0x10:0x1f'']"
    by code_simp
  ultimately show ?thesis using parse_args_roundtrip [of ?o] by simp
qed

text \<open>
  Property C39. The exit code. A call that returns exits with 0 exactly when its command is known, its
  options give an image that exists, and the entry is not 0 (for \<^verbatim>\<open>cfg\<close>: after the entry of the
  PE header has been taken); otherwise it exits with 1, writes a message to the error stream and
  no file. An accepted call writes nothing to the error stream.
\<close>

theorem cli_exit_code:
  assumes "cli_main dis ho files argv = Some r"
  shows "cr_exit r = (if accepted files argv then 0 else 1) \<and> (cr_err r = '''' \<longleftrightarrow> accepted files argv)
     \<and> (cr_file r \<noteq> None \<longrightarrow> accepted files argv)"
proof (cases "\<exists>prog cmd args. argv = prog # cmd # args \<and> cmd \<in> {''devirt'', ''cfg'', ''vm-cfg''}")
  case False
  then have "\<exists>msg. r = cli_fail [] msg \<and> msg \<noteq> ''''"
    using assms by (cases argv; cases "tl argv") (auto simp: cli_main_def split: if_splits)
  moreover have "\<not> accepted files argv" using False unfolding accepted_def by blast
  ultimately show ?thesis by (auto simp: cli_fail_def)
next
  case True
  then obtain prog cmd args where a: "argv = prog # cmd # args" "cmd \<in> {''devirt'', ''cfg'', ''vm-cfg''}" by blast
  with assms obtain opts where o: "parse_args args default_options = Some opts" "cli_run dis ho files prog cmd opts = Some r"
    by (auto simp: cli_main_def elim!: bind_SomeE)
  have "accepted files argv \<longleftrightarrow> co_image_path opts \<noteq> '''' \<and> (\<exists>raw img base pe_opt. files (co_image_path opts) = Some raw
     \<and> load_file (co_base opts) raw = Some (img, base, pe_opt)
     \<and> (if cmd = ''cfg'' then cfg_entry opts base pe_opt \<noteq> 0 else co_entry opts \<noteq> 0))"
    using a o(1) by (auto simp: accepted_def)
  with cli_run_exit [OF o(2) a(2)] show ?thesis by (simp add: exit_ok_def)
qed



subsection \<open>Examples\<close>

definition dump_disk :: disk where
  "dump_disk p = (if p = ''dump.bin'' then Some mini_image else None)"

definition dump_argv :: "string list" where
  "dump_argv = [''deobf'', ''devirt'', ''--image'', ''dump.bin'', ''--base'', ''0x0'', ''--entry'', ''0x10'', ''--emit-llvm'', ''--llvm-out'', ''out.ll'']"

lemma dump_options:
  "parse_args (drop 2 dump_argv) default_options = Some (default_options\<lparr>co_image_path := ''dump.bin'',
     co_base := 0, co_entry := 16, co_emit_llvm := True, co_llvm_output := ''out.ll''\<rparr>)"
proof -
  have "hex_arg 0 = ''0x0''" "hex_arg 16 = ''0x10''" by code_simp+
  with parse_hex_arg [of 0] parse_hex_arg [of 16] have hex: "parse_hex ''0x0'' = 0" "parse_hex ''0x10'' = 16" by simp_all
  show ?thesis
    by (simp add: dump_argv_def takes_value_def set_option_def set_flag_def hex)
qed

lemma dump_load: "load_file 0 mini_image = Some (mini_image, 0, None)"
proof -
  have "e_magic mini_image = Some 0" by code_simp
  then have "parse mini_image = Some None" by (simp add: parse_def sizeof_DOS_HEADER_def)
  then show ?thesis by (simp add: load_file_def)
qed


theorem cli_exit_code_witness:
  "\<exists>r. cli_main None id dump_disk [''deobf'', ''vm-cfg'', ''--image'', ''dump.bin'', ''--entry'', ''0xzz''] = Some r
     \<and> cr_exit r = 1 \<and> cr_err r \<noteq> '''' \<and> cr_file r = None"
proof -
  let ?argv = "[''deobf'', ''vm-cfg'', ''--image'', ''dump.bin'', ''--entry'', ''0xzz'']"
  have "c_digit (CHR ''z'') = 99" "c_digit (CHR ''x'') = 99" "c_digit (CHR ''0'') = 0" by code_simp+
  then have "parse_hex ''0xzz'' = 0"
    by (simp add: parse_hex_def c_sign_def c_base_def c_number_def c_space_def)
  then have o: "parse_args (drop 2 ?argv) default_options = Some (default_options\<lparr>co_image_path := ''dump.bin'', co_entry := 0\<rparr>)"
    by (simp add: takes_value_def set_option_def)
  then obtain r where r: "cli_main None id dump_disk ?argv = Some r" by (simp add: cli_main_def cli_run_def)
  have "\<not> accepted dump_disk ?argv" using o by (auto simp: accepted_def)
  with cli_exit_code [OF r] r show ?thesis by (cases "cr_file r") auto
qed

end
