(* ===== verification/Spec2Isabelle.thy ===== *)
theory Spec2Isabelle
  imports Guided_Machine Pipeline_Correct Command_Line_Correct
begin

text \<open>
  DeHendrix, the C++ library \<^verbatim>\<open>deobf\<close>, recovers readable code from binaries protected by
  virtual machines.  A loader maps a PE file into a flat image; a lifter turns machine code of
  the image into a linear SSA-like intermediate representation; a set of optimizer passes runs
  on that representation until nothing changes.  Two evaluators alternate lifting and folding: the
  segment evaluator, from which a recovery loop builds native control-flow graphs with phi nodes, and
  the guided evaluator, which chases the dispatcher of a virtual machine and from whose runs the graph of
  a virtual program is built.  An emitter writes LLVM text, a pipeline and a command line tool
  put the parts together.  This development models these parts and proves what makes them correct.

  \<^bold>\<open>Theories and code.\<close>

  \<^descr> \<open>Deobf_Prelude\<close>: the rule collections \<open>ir_wf\<close>, \<open>ir_step\<close>, and generic lemmas on lists,
  options, maps and words.

  \<^descr> \<open>Byte_Memory\<close> (\<^verbatim>\<open>memory.h\<close>, \<^verbatim>\<open>byte_memory.cpp\<close>): \<open>ByteMemory\<close> is the record of its hash table of
  bytes; \<open>load_u64\<close>, \<open>store_u64\<close> and the other accessors are functions of the same names.  The
  locale \<open>word_store\<close> states the law of a word-sized store (read over write, and frame for
  addresses that do not overlap) and is interpreted on the 64-bit and the 32-bit accessors, on
  the flat memory of the semantics and on the hash table.

  \<^descr> \<open>Deobf_IR\<close> (\<^verbatim>\<open>ir.h\<close>, \<^verbatim>\<open>value.cpp\<close>, \<^verbatim>\<open>function.cpp\<close>): \<open>Value\<close> is the variant of a constant, a
  reference to an SSA id and a symbol; \<open>Op\<close>, \<open>Instruction\<close> and \<open>Function\<close> are the code's, with
  \<open>emit\<close> and the queries and the printers.

  \<^descr> \<open>IR_Semantics\<close>: a reference semantics of the representation (not code of the library): \<open>exec\<close>
  runs an instruction list on an environment, a flat memory and a trace of jumps, returns and calls.

  \<^descr> \<open>Pass_Core\<close>, \<open>Pass_Fold\<close>, \<open>Pass_Combine\<close>, \<open>Pass_Memory\<close>, \<open>Pass_Dead\<close>, \<open>Convergence\<close> (\<^verbatim>\<open>transforms.cpp\<close>,
  \<^verbatim>\<open>passes.h\<close>): one definition per pass (constant folding, promotion, branch folding, instruction
  combination, memory forwarding, dead stores, dead dependencies, stack rewriting) and the two
  drivers \<open>run_fold_convergence\<close> and \<open>run_to_convergence\<close>.  The locales \<open>rewrite_pass\<close> and
  \<open>total_rewrite_pass\<close> state what a pass that rewrites one instruction at a time must satisfy, and
  prove once that the whole pass then preserves runs; \<open>pass_pipeline\<close> does the same for the drivers.

  \<^descr> \<open>X64_Lifter\<close> and \<open>Lifter_Correct\<close> (\<^verbatim>\<open>lifter.h\<close>, \<^verbatim>\<open>x64_lifter.cpp\<close>): every case of \<open>lift_insn\<close> on decoded
  instructions, and a small reference machine for the supported 64-bit instructions that the
  lifted code refines.  The decoder (Capstone) is a parameter everywhere: a function from bytes and an
  address to decoded instructions, or none when it cannot be opened.

  \<^descr> \<open>CFG\<close> (\<^verbatim>\<open>cfg.h\<close>, \<^verbatim>\<open>cfg.cpp\<close>), \<open>CFG_Recovery\<close> and \<open>Recovered_CFG\<close> (\<^verbatim>\<open>cfg_recovery.h\<close>, \<^verbatim>\<open>cfg_recovery.cpp\<close>):
  blocks, edges and phi nodes; the worklist of \<open>recover\<close> over a segment oracle, with its state
  \<open>rec_state\<close>, and the invariants of the recovered graph.

  \<^descr> \<open>Segment_Fold\<close>, \<open>Promotion\<close>, \<open>Segment_Eval\<close>, \<open>Segment_Correct\<close>, \<open>Native_Recovery\<close> (\<^verbatim>\<open>segment_eval.h\<close>,
  \<^verbatim>\<open>segment_eval.cpp\<close>): the segment evaluator's fold loop and the two targets of a virtual conditional jump;
  the promotion of loads from private memory, shared with the guided evaluator; segments
  (\<open>lift_and_optimize_segment\<close>) and native recovery (\<open>recover_native_cfg\<close>).  The locales \<open>segment_contract\<close>
  and \<open>answering_contract\<close> say what recovery needs of an oracle that carries a state, and are interpreted on
  the native oracle.

  \<^descr> \<open>VM_Target\<close> (\<^verbatim>\<open>target.h\<close>, \<^verbatim>\<open>target.cpp\<close>): the four presets, with a function per virtual method.

  \<^descr> \<open>Text_Stream\<close>: items written to an output stream and their text; the number format is part of the
  state, as in \<^verbatim>\<open>std::ostringstream\<close>.

  \<^descr> \<open>Guided_Eval\<close>, \<open>Guided_Correct\<close>, \<open>Guided_Machine\<close>, \<open>Closed_Code\<close> (\<^verbatim>\<open>evaluator.h\<close>, \<^verbatim>\<open>guided_eval.cpp\<close>): the
  record \<open>GuidedEvaluator\<close> and \<open>guided_run\<close>, with one definition per stage of a round
  (\<open>enter_block\<close>, \<open>guided_lift\<close>, \<open>guided_promote\<close>, \<open>guided_block\<close>); its invariants, its relation to the
  reference machine, and that the code it leaves is closed.  The locale \<open>lift_invariant\<close> and the
  locales of \<open>Convergence\<close> carry these invariants through lifting and folding.

  \<^descr> \<open>VM_Recovery\<close>, \<open>VM_Correct\<close>, \<open>VM_Graph\<close> (\<^verbatim>\<open>segment_eval.cpp\<close>, from \<open>append_renumbered\<close> to
  \<open>recover_vm_cfg\<close>): segments of a virtual program, their renumbering into blocks, and the worklist over virtual
  program counters with its state \<open>vm_state\<close>.

  \<^descr> \<open>LLVM_Emit\<close>, \<open>LLVM_Correct\<close>, \<open>LLVM_Graph\<close> (\<^verbatim>\<open>llvm_emitter.h\<close>, \<^verbatim>\<open>llvm_emitter.cpp\<close>): the text of both
  emitters; the emitted lines as data with a small semantics (\<open>ll_text\<close>, \<open>ll_step\<close>), and what they compute.

  \<^descr> \<open>IAT_Cracker\<close> (\<^verbatim>\<open>iat_cracker.h\<close>, \<^verbatim>\<open>iat_cracker.cpp\<close>): the hash functions, the table of hashes and
  the scan of an image for hashes of API names.

  \<^descr> \<open>PE_Loader\<close> (\<^verbatim>\<open>pe_loader.h\<close>, \<^verbatim>\<open>pe_loader.cpp\<close>): parsing of the headers with every read checked against
  the file, section lookup, and the mapping of sections into the image.

  \<^descr> \<open>Pipeline\<close>, \<open>Pipeline_Correct\<close> (\<^verbatim>\<open>pipeline.h\<close>, \<^verbatim>\<open>pipeline.cpp\<close>): \<open>pipeline_run\<close> and its Markdown report.  The file
  system is a parameter.

  \<^descr> \<open>Command_Line\<close>, \<open>Command_Line_Correct\<close> (\<^verbatim>\<open>cli_main.cpp\<close>): \<open>cli_main\<close> from the arguments to the exit code,
  the output streams and the file that is written.

  \<^bold>\<open>What the groups of lemmas show.\<close>  Passes: each pass is defined (or it is said exactly where the
  C++ is undefined) and preserves the run of every function, or of every function whose stores
  do not overlap, with the overlapping case as a closed counterexample.  Drivers: they return
  within their round bound, and before it only at a common fixpoint.  Recovery: it ends for every
  total oracle, the graph is numbered, closed under edges, reachable, one block per address, and
  each block is the oracle's segment.  Lifter: the lifted block has unique consecutive ids, no
  dangling reference, and computes what the processor computes.  Segments: an optimized native segment
  computes what the processor computes, and native recovery hands out every id once.  Guided
  evaluator: a run ends with a report that agrees with its traces, makes progress, leaves
  single-assignment closed code, and follows the processor over straight code.  Virtual machine graphs: recovery ends
  although virtual programs loop, ids are consecutive, edges are those of the terminators, and
  renumbering keeps the run.  Emitter: the text of a linear function computes what the function computes; the text of a
  graph loses the values of code further down.  Loader: no read or write leaves
  a buffer, except for the malformed files that are exhibited.  Cracker: the scan is sound and
  complete for the registered names.  Pipeline and tool: a run ends, its matches are hashes in a data section, the report's
  numbers are as exhibited, options are read back, and the exit code says whether a call was accepted.

  \<^bold>\<open>Conventions.\<close>  \<open>None\<close> as the result of a definition that models code is behaviour the C++
  standard leaves undefined (an access out of range, an over-long shift, an indeterminate value) or a loop that does not
  end; a C++ \<open>optional\<close> that is empty is an inner \<open>None\<close>.  Machine integers are \<open>u64\<close>, \<open>u32\<close>, \<open>u8\<close>
  words; an \<^verbatim>\<open>int\<close> counter is an \<open>int\<close>, whose bounds are stated.  References to vector elements are kept by id or by index: where the code keeps a reference
  across a call that may move the vector, the model reads the element that was meant, and the
  finding is listed in the manifest.  Hash maps that are only looked up are functions; where the code
  iterates over one, the model uses its keys in an order that is a parameter or is shown not to matter.

  \<^bold>\<open>Bounds.\<close>  Recovery needs \<open>max_blocks < 2 ^ 31\<close> (block numbers are 32-bit); a lifted instruction uses
  at most 10 ids, so that a block stays below \<open>2 ^ 32\<close> ids when ten times its number of instructions does.
  A native segment takes at most 8000 steps, so 80000 ids, and native recovery has room for 53000 blocks (the code's
  limit is 4096).  A window of the guided evaluator is 256 bytes, so at most 256 instructions (\<open>bounded_decode\<close>), and a
  run of \<open>max_steps\<close> uses at most \<open>10 * (max_steps + 256)\<close> ids; a virtual segment has 50000 steps and 2000 virtual
  instructions, so 502560 ids, and the recovery of a virtual machine graph has room for 8544 blocks (the limit is 4096).
  No loop has fuel: the passes and searches recurse on lists, the guided loop ends because between two dispatches
  it enters an address only once (measure: dispatches left, addresses not visited), and the worklists end because a
  processed key never returns.  \<open>readable\<close> excludes only addresses less than 256 below the image, where
  \<^verbatim>\<open>read_bytes\<close> wraps around.

  \<^bold>\<open>Not modelled.\<close>  The Python binding (\<^verbatim>\<open>pydeobf.cpp\<close>) is a table of \<^verbatim>\<open>pybind11\<close> declarations that name
  methods of the modelled classes; the MCP server and the IDA plugin are Python programs around it;
  tests and build files carry no logic of the library, though some test inputs appear as examples.  Of the files that
  are modelled: the fallback bodies of a build without Capstone, the clock of the pipeline, and the interleaving of the
  two output streams of the tool.  Reading a file is a lookup in a map from paths to contents; a read that fails half
  way does not occur.
\<close>

end
